(* ===== verification/Prelude.thy ===== *)
theory Prelude
  imports Main "HOL-Library.Word"
begin

text \<open>
  Shared vocabulary of the development: bytes and memory regions, the ways a C function of the
  sources can fail, the allocator, reads and writes with the bounds written out, C strings, and
  the little-endian codec used by the packed data structures.

  A region of memory obtained from the allocator is a \<open>byte list\<close>. Reading or writing outside it
  is the error \<open>OutOfBounds\<close>, never an unspecified value. A function that returns NULL because
  the allocator did is \<open>Inl OOM\<close>; using such a NULL is \<open>Inl NullDeref\<close>; a failed \<open>assert\<close> is
  \<open>Inl AssertFail\<close>; a construct the C standard leaves undefined is \<open>Inl UndefBehaviour\<close>.
\<close>

unbundle bit_operations_syntax

named_theorems yields_intros \<open>composition rules for \<open>yields\<close>\<close>

section \<open>Bytes and results\<close>

type_synonym byte = "8 word"

datatype cerr = OOM | NullDeref | OutOfBounds | AssertFail | UndefBehaviour

type_synonym 'a res = "cerr + 'a"

definition bindE :: "'e + 'a \<Rightarrow> ('a \<Rightarrow> 'e + 'b) \<Rightarrow> 'e + 'b" where
  "bindE r f = (case r of Inl e \<Rightarrow> Inl e | Inr x \<Rightarrow> f x)"

lemma bindE_simps [simp]:
  "bindE (Inl e) f = Inl e"
  "bindE (Inr x) f = f x"
  by (simp_all add: bindE_def)

lemma bindE_cong [fundef_cong]:
  "r = r' \<Longrightarrow> (\<And>x. r' = Inr x \<Longrightarrow> f x = g x) \<Longrightarrow> bindE r f = bindE r' g"
  by (cases r') auto

lemma bindE_eq_Inr: "bindE r f = Inr y \<longleftrightarrow> (\<exists>x. r = Inr x \<and> f x = Inr y)"
  by (cases r) auto

text \<open>A pointer that may be NULL because of a failed allocation is dereferenced.\<close>

definition deref :: "'a res \<Rightarrow> 'a res" where
  "deref r = (case r of Inl e \<Rightarrow> Inl (if e = OOM then NullDeref else e) | Inr x \<Rightarrow> Inr x)"

lemma deref_simps [simp]:
  "deref (Inr x) = Inr x"
  "deref (Inl e) = Inl (if e = OOM then NullDeref else e)"
  by (simp_all add: deref_def)

section \<open>Size arithmetic\<close>

text \<open>\<open>size_t\<close> and \<open>uint64_t\<close> arithmetic wraps modulo \<open>2^64\<close>.\<close>

definition u64 :: "nat \<Rightarrow> nat" where
  "u64 n = n mod 2 ^ 64"

lemma u64_id [simp]: "n < 2 ^ 64 \<Longrightarrow> u64 n = n"
  by (simp add: u64_def)

lemma u64_less [simp]: "u64 n < 2 ^ 64"
  by (simp add: u64_def)

text \<open>Conversion of any integer to \<open>int\<close> (32 bits, two's complement) and to \<open>size_t\<close>.\<close>

definition s32 :: "int \<Rightarrow> int" where
  "s32 x = sint (word_of_int x :: 32 word)"

definition to_size :: "int \<Rightarrow> nat" where
  "to_size x = nat (x mod 2 ^ 64)"

text \<open>Subtraction on \<open>uint32_t\<close>.\<close>

definition u32sub :: "nat \<Rightarrow> nat \<Rightarrow> nat" where
  "u32sub a b = nat ((int a - int b) mod 2 ^ 32)"

lemma u32sub_id [simp]: "b \<le> a \<Longrightarrow> a < 2 ^ 32 \<Longrightarrow> u32sub a b = a - b"
  by (simp add: u32sub_def flip: of_nat_diff)

lemma s32_id [simp]: "- (2 ^ 31) \<le> x \<Longrightarrow> x < 2 ^ 31 \<Longrightarrow> s32 x = x"
  by (simp add: s32_def signed_of_int signed_take_bit_int_eq_self)

lemma to_size_id [simp]: "0 \<le> x \<Longrightarrow> x < 2 ^ 64 \<Longrightarrow> to_size x = nat x"
  by (simp add: to_size_def)

subsection \<open>Words and lists\<close>

lemma unat_bounds:
  "unat (a :: 8 word) < 256"
  "unat (b :: 16 word) < 65536"
  "unat (c :: 32 word) < 4294967296"
  "unat (d :: 64 word) < 18446744073709551616"
  using unsigned_less[where 'a = nat, of a] unsigned_less[where 'a = nat, of b]
    unsigned_less[where 'a = nat, of c] unsigned_less[where 'a = nat, of d] by simp_all

lemma unat_sub_le: "unat l \<le> unat a \<Longrightarrow> unat (a - l) = unat a - unat (l :: 'w::len word)"
  by (simp add: unat_sub word_le_nat_alt)

lemma size_diff_eq:
  fixes a l :: "'w::len word"
  assumes "unat l \<le> unat a" and "unat a < 2 ^ 64"
  shows "nat ((uint a - uint l) mod 2 ^ 64) = unat a - unat l"
proof -
  have "uint a - uint l = int (unat a - unat l)" using assms(1) by simp
  moreover have "unat a - unat l < 2 ^ 64" using assms(2) by simp
  ultimately show ?thesis by (simp flip: zmod_int)
qed

lemma take_le_eq: "take n xs = take n ys \<Longrightarrow> k \<le> n \<Longrightarrow> take k xs = take k ys"
  by (metis min.absorb1 take_take)

lemma nth_of_take_eq:
  "take (Suc k) b = take (Suc k) c \<Longrightarrow> k < length b \<Longrightarrow> k < length c \<Longrightarrow> b ! k = c ! k"
  by (metis lessI nth_take)

section \<open>The allocator\<close>

text \<open>
  The allocator is outside the program: a function from the requested size to the contents of the
  fresh region (unspecified bytes), or \<open>None\<close> for a NULL result. What the code relies on is that
  a region has the size that was asked for.
\<close>

type_synonym allocator = "nat \<Rightarrow> byte list option"

definition malloc_ok :: "allocator \<Rightarrow> bool" where
  "malloc_ok m \<longleftrightarrow> (\<forall>n bs. m n = Some bs \<longrightarrow> length bs = n)"

definition s_malloc :: "allocator \<Rightarrow> nat \<Rightarrow> byte list res" where
  "s_malloc m n = (case m n of None \<Rightarrow> Inl OOM | Some bs \<Rightarrow> Inr bs)"

text \<open>\<open>realloc\<close> keeps the common prefix; the rest of a grown region is unspecified.\<close>

definition s_realloc :: "allocator \<Rightarrow> byte list \<Rightarrow> nat \<Rightarrow> byte list res" where
  "s_realloc m old n =
     (case m n of None \<Rightarrow> Inl OOM | Some fresh \<Rightarrow> Inr (take n old @ drop (length old) fresh))"

text \<open>An allocator that never fails and clears what it returns, used to run the model.\<close>

definition calloc_alloc :: allocator where
  "calloc_alloc n = Some (replicate n 0)"

lemma calloc_alloc_ok [simp]: "malloc_ok calloc_alloc"
  by (simp add: malloc_ok_def calloc_alloc_def)

text \<open>
  Total correctness up to allocation failure: \<open>yields m r P\<close> says that \<open>r\<close> is a result with
  property \<open>P\<close>, or the allocator did refuse some request and \<open>r\<close> is the consequence of that.
\<close>

definition yields :: "allocator \<Rightarrow> 'a res \<Rightarrow> ('a \<Rightarrow> bool) \<Rightarrow> bool" where
  "yields m r P \<longleftrightarrow>
     (case r of Inr x \<Rightarrow> P x | Inl e \<Rightarrow> (e = OOM \<or> e = NullDeref) \<and> (\<exists>n. m n = None))"

lemma yields_Inr [simp]: "yields m (Inr x) P \<longleftrightarrow> P x"
  by (simp add: yields_def)

lemma yields_bindE [yields_intros]:
  "yields m r P \<Longrightarrow> (\<And>x. P x \<Longrightarrow> yields m (f x) Q) \<Longrightarrow> yields m (bindE r f) Q"
  by (cases r) (auto simp: yields_def)

lemma yields_bindE_eq:
  "yields m r P \<Longrightarrow> (\<And>x. r = Inr x \<Longrightarrow> P x \<Longrightarrow> yields m (f x) Q) \<Longrightarrow> yields m (bindE r f) Q"
  by (cases r) (auto simp: yields_def)

lemma yields_mono: "yields m r P \<Longrightarrow> (\<And>x. P x \<Longrightarrow> Q x) \<Longrightarrow> yields m r Q"
  by (auto simp: yields_def split: sum.splits)

lemma yields_deref [yields_intros]: "yields m r P \<Longrightarrow> yields m (deref r) P"
  by (cases r) (auto simp: yields_def)

lemma yields_no_fail:
  assumes "yields m r P" and "\<And>n. m n \<noteq> None"
  shows "\<exists>x. r = Inr x \<and> P x"
  using assms(1) by (cases r) (auto simp: yields_def assms(2))

lemma yields_s_malloc [yields_intros]:
  "malloc_ok m \<Longrightarrow> yields m (s_malloc m n) (\<lambda>bs. length bs = n)"
  by (auto simp: yields_def s_malloc_def malloc_ok_def split: option.splits)

lemma yields_s_realloc [yields_intros]:
  "malloc_ok m \<Longrightarrow>
   yields m (s_realloc m old n)
     (\<lambda>bs. length bs = n \<and> take (min n (length old)) bs = take n old)"
  by (auto simp: yields_def s_realloc_def malloc_ok_def min_def split: option.splits)

section \<open>Reads and writes\<close>

definition mem_read :: "byte list \<Rightarrow> nat \<Rightarrow> nat \<Rightarrow> byte list res" where
  "mem_read buf off n =
     (if off + n \<le> length buf then Inr (take n (drop off buf)) else Inl OutOfBounds)"

definition mem_write :: "byte list \<Rightarrow> nat \<Rightarrow> byte list \<Rightarrow> byte list res" where
  "mem_write buf off bs =
     (if off + length bs \<le> length buf
      then Inr (take off buf @ bs @ drop (off + length bs) buf)
      else Inl OutOfBounds)"

lemma mem_read_ok [simp]:
  "off + n \<le> length buf \<Longrightarrow> mem_read buf off n = Inr (take n (drop off buf))"
  by (simp add: mem_read_def)

lemma mem_write_ok [simp]:
  "off + length bs \<le> length buf \<Longrightarrow>
   mem_write buf off bs = Inr (take off buf @ bs @ drop (off + length bs) buf)"
  by (simp add: mem_write_def)

definition getb :: "byte list \<Rightarrow> nat \<Rightarrow> byte res" where
  "getb buf i = (if i < length buf then Inr (buf ! i) else Inl OutOfBounds)"

lemma getb_ok [simp]: "i < length buf \<Longrightarrow> getb buf i = Inr (buf ! i)"
  by (simp add: getb_def)

section \<open>Little-endian integers\<close>

primrec le_bytes :: "nat \<Rightarrow> nat \<Rightarrow> byte list" where
  "le_bytes 0 n = []"
| "le_bytes (Suc k) n = word_of_nat n # le_bytes k (n div 256)"

primrec le_val :: "byte list \<Rightarrow> nat" where
  "le_val [] = 0"
| "le_val (b # bs) = unat b + 256 * le_val bs"

lemma le_bytes_numeral:
  "le_bytes (numeral k) n = word_of_nat n # le_bytes (pred_numeral k) (n div 256)"
  by (simp add: numeral_eq_Suc[of k])

lemma length_le_bytes [simp]: "length (le_bytes k n) = k"
  by (induction k arbitrary: n) simp_all

lemma le_val_bound: "le_val bs < 256 ^ length bs"
proof (induction bs)
  case (Cons b bs)
  then have "unat b + 256 * le_val bs < 256 + 256 * (256 ^ length bs - 1)"
    using unat_bounds(1)[of b] by (intro add_less_le_mono) auto
  also have "\<dots> = 256 ^ length (b # bs)" by (simp add: right_diff_distrib')
  finally show ?case by simp
qed simp

lemma le_val_bytes: "le_val (le_bytes k n) = n mod 256 ^ k"
proof (induction k arbitrary: n)
  case (Suc k)
  have "n mod 256 + 256 * (n div 256 mod 256 ^ k) = n mod 256 ^ Suc k"
    by (simp add: mod_mult2_eq)
  with Suc show ?case by (simp add: unsigned_of_nat take_bit_eq_mod)
qed simp

lemma le_val_bytes_id [simp]: "n < 256 ^ k \<Longrightarrow> le_val (le_bytes k n) = n"
  by (simp add: le_val_bytes)

lemma le_bytes_val [simp]: "le_bytes (length bs) (le_val bs) = bs"
proof (induction bs)
  case (Cons b bs)
  have "(word_of_nat (unat b + 256 * le_val bs) :: byte) = b"
    using unat_bounds(1)[of b]
    by (intro word_unat_eq_iff [THEN iffD2]) (simp add: unsigned_of_nat take_bit_eq_mod del: of_nat_add of_nat_mult)
  moreover have "(unat b + 256 * le_val bs) div 256 = le_val bs" using unat_bounds(1)[of b] by simp
  ultimately show ?case using Cons by (simp del: of_nat_add of_nat_mult)
qed simp

lemma le_val_inj: "length a = length b \<Longrightarrow> le_val a = le_val b \<Longrightarrow> a = b"
  by (metis le_bytes_val)

section \<open>C strings\<close>

text \<open>\<open>strlen\<close> reads up to the first zero byte; without one it runs off the region.\<close>

definition strlen :: "byte list \<Rightarrow> nat res" where
  "strlen bs =
     (if 0 \<in> set bs then Inr (length (takeWhile (\<lambda>b. b \<noteq> 0) bs)) else Inl OutOfBounds)"

lemma takeWhile_nul: "0 \<notin> set t \<Longrightarrow> takeWhile (\<lambda>b. b \<noteq> 0) (t @ 0 # rest) = t"
  by (simp add: takeWhile_append takeWhile_eq_all_conv[THEN iffD2])

lemma strlen_cstring [simp]:
  "(0::byte) \<notin> set t \<Longrightarrow> strlen (t @ 0 # rest) = Inr (length t)"
  by (auto simp: strlen_def takeWhile_nul)

text \<open>\<open>strchr\<close> finds a byte of the string or its terminator: \<open>strchr(s, 0)\<close> is not NULL.\<close>

definition strchr :: "byte list \<Rightarrow> byte \<Rightarrow> bool" where
  "strchr s c \<longleftrightarrow> c = 0 \<or> c \<in> set (takeWhile (\<lambda>b. b \<noteq> 0) s)"

text \<open>
  \<open>memcmp\<close> and \<open>strcmp\<close> compare bytes as unsigned; only the sign of the result is specified.
\<close>

fun memcmp :: "byte list \<Rightarrow> byte list \<Rightarrow> int" where
  "memcmp (a # as) (b # bs) = (if a < b then -1 else if b < a then 1 else memcmp as bs)"
| "memcmp _ _ = 0"

text \<open>\<open>ctype.h\<close> in the C locale, on a \<open>char\<close> whose bits are the given byte.\<close>

definition tolower :: "byte \<Rightarrow> byte" where
  "tolower b = (if 65 \<le> b \<and> b \<le> 90 then b + 32 else b)"

definition toupper :: "byte \<Rightarrow> byte" where
  "toupper b = (if 97 \<le> b \<and> b \<le> 122 then b - 32 else b)"

definition isprint :: "byte \<Rightarrow> bool" where
  "isprint b \<longleftrightarrow> 32 \<le> b \<and> b \<le> 126"

definition isspace :: "byte \<Rightarrow> bool" where
  "isspace b \<longleftrightarrow> b = 32 \<or> (9 \<le> b \<and> b \<le> 13)"

definition isdigit :: "byte \<Rightarrow> bool" where
  "isdigit b \<longleftrightarrow> 48 \<le> b \<and> b \<le> 57"

text \<open>The bytes of a string literal.\<close>

definition bytes_of :: "string \<Rightarrow> byte list" where
  "bytes_of s = map (\<lambda>c. word_of_nat (of_char c)) s"

end
