(* ===== verification/Sds.thy ===== *)
theory Sds
  imports Prelude
begin

text \<open>
  The dynamic strings of \<open>redis/src/sds.h\<close> and \<open>sds.c\<close>: header types, the accessors, creation,
  growth, concatenation, copy, in-place edits and comparison.

  An sds string is its header, kept at the widths of the packed structs (\<open>len\<close> and \<open>alloc\<close> of
  8, 16, 32 or 64 bits, or 5 bits of the flags byte), and the buffer behind the header as it was
  allocated, with the terminator and the free space.
\<close>

section \<open>Headers\<close>

datatype sdshdr =
    Sdshdr5 byte \<comment> \<open>flags: 3 lsb of type, 5 msb of string length\<close>
  | Sdshdr8 "8 word" "8 word" \<comment> \<open>\<open>len\<close>, \<open>alloc\<close>\<close>
  | Sdshdr16 "16 word" "16 word"
  | Sdshdr32 "32 word" "32 word"
  | Sdshdr64 "64 word" "64 word"

record sds =
  sds_hdr :: sdshdr
  sds_buf :: "byte list"

abbreviation (input) "SDS_TYPE_5 \<equiv> (0::nat)"
abbreviation (input) "SDS_TYPE_8 \<equiv> (1::nat)"
abbreviation (input) "SDS_TYPE_16 \<equiv> (2::nat)"
abbreviation (input) "SDS_TYPE_32 \<equiv> (3::nat)"
abbreviation (input) "SDS_TYPE_64 \<equiv> (4::nat)"

definition SDS_MAX_PREALLOC :: nat where
  "SDS_MAX_PREALLOC = 1024 * 1024"

text \<open>\<open>s[-1] & SDS_TYPE_MASK\<close>.\<close>

definition sds_type :: "sds \<Rightarrow> nat" where
  "sds_type s = (case sds_hdr s of
     Sdshdr5 f \<Rightarrow> SDS_TYPE_5 | Sdshdr8 _ _ \<Rightarrow> SDS_TYPE_8 | Sdshdr16 _ _ \<Rightarrow> SDS_TYPE_16
   | Sdshdr32 _ _ \<Rightarrow> SDS_TYPE_32 | Sdshdr64 _ _ \<Rightarrow> SDS_TYPE_64)"

definition sdslen :: "sds \<Rightarrow> nat" where
  "sdslen s = (case sds_hdr s of
     Sdshdr5 f \<Rightarrow> unat (drop_bit 3 f) | Sdshdr8 l _ \<Rightarrow> unat l | Sdshdr16 l _ \<Rightarrow> unat l
   | Sdshdr32 l _ \<Rightarrow> unat l | Sdshdr64 l _ \<Rightarrow> unat l)"

text \<open>
  For the 8 and 16 bit headers the subtraction is done on \<open>int\<close> and converted to \<open>size_t\<close>; for
  the 32 and 64 bit headers it wraps at the width of the fields.
\<close>

definition sdsavail :: "sds \<Rightarrow> nat" where
  "sdsavail s = (case sds_hdr s of
     Sdshdr5 f \<Rightarrow> 0
   | Sdshdr8 l a \<Rightarrow> nat ((uint a - uint l) mod 2 ^ 64)
   | Sdshdr16 l a \<Rightarrow> nat ((uint a - uint l) mod 2 ^ 64)
   | Sdshdr32 l a \<Rightarrow> unat (a - l)
   | Sdshdr64 l a \<Rightarrow> unat (a - l))"

definition sdssetlen :: "sds \<Rightarrow> nat \<Rightarrow> sds" where
  "sdssetlen s newlen = s\<lparr>sds_hdr := (case sds_hdr s of
     Sdshdr5 f \<Rightarrow> Sdshdr5 (push_bit 3 (word_of_nat newlen))
   | Sdshdr8 l a \<Rightarrow> Sdshdr8 (word_of_nat newlen) a
   | Sdshdr16 l a \<Rightarrow> Sdshdr16 (word_of_nat newlen) a
   | Sdshdr32 l a \<Rightarrow> Sdshdr32 (word_of_nat newlen) a
   | Sdshdr64 l a \<Rightarrow> Sdshdr64 (word_of_nat newlen) a)\<rparr>"

definition sdsinclen :: "sds \<Rightarrow> nat \<Rightarrow> sds" where
  "sdsinclen s inc = s\<lparr>sds_hdr := (case sds_hdr s of
     Sdshdr5 f \<Rightarrow> Sdshdr5 (push_bit 3 (drop_bit 3 f + word_of_nat inc))
   | Sdshdr8 l a \<Rightarrow> Sdshdr8 (l + word_of_nat inc) a
   | Sdshdr16 l a \<Rightarrow> Sdshdr16 (l + word_of_nat inc) a
   | Sdshdr32 l a \<Rightarrow> Sdshdr32 (l + word_of_nat inc) a
   | Sdshdr64 l a \<Rightarrow> Sdshdr64 (l + word_of_nat inc) a)\<rparr>"

definition sdsalloc :: "sds \<Rightarrow> nat" where
  "sdsalloc s = (case sds_hdr s of
     Sdshdr5 f \<Rightarrow> unat (drop_bit 3 f) | Sdshdr8 _ a \<Rightarrow> unat a | Sdshdr16 _ a \<Rightarrow> unat a
   | Sdshdr32 _ a \<Rightarrow> unat a | Sdshdr64 _ a \<Rightarrow> unat a)"

definition sdssetalloc :: "sds \<Rightarrow> nat \<Rightarrow> sds" where
  "sdssetalloc s newlen = s\<lparr>sds_hdr := (case sds_hdr s of
     Sdshdr5 f \<Rightarrow> Sdshdr5 f
   | Sdshdr8 l a \<Rightarrow> Sdshdr8 l (word_of_nat newlen)
   | Sdshdr16 l a \<Rightarrow> Sdshdr16 l (word_of_nat newlen)
   | Sdshdr32 l a \<Rightarrow> Sdshdr32 l (word_of_nat newlen)
   | Sdshdr64 l a \<Rightarrow> Sdshdr64 l (word_of_nat newlen))\<rparr>"

definition sdsHdrSize :: "nat \<Rightarrow> nat" where
  "sdsHdrSize type =
     (if type = SDS_TYPE_5 then 1 else if type = SDS_TYPE_8 then 3
      else if type = SDS_TYPE_16 then 5 else if type = SDS_TYPE_32 then 9
      else if type = SDS_TYPE_64 then 17 else 0)"

text \<open>On the LP64 targets \<open>LONG_MAX = LLONG_MAX\<close>, so the 32 bit header is used.\<close>

definition sdsReqType :: "nat \<Rightarrow> nat" where
  "sdsReqType string_size =
     (if string_size < 2 ^ 5 then SDS_TYPE_5
      else if string_size < 2 ^ 8 then SDS_TYPE_8
      else if string_size < 2 ^ 16 then SDS_TYPE_16
      else if string_size < 2 ^ 32 then SDS_TYPE_32
      else SDS_TYPE_64)"

text \<open>
  Storing the type in the flags byte of a freshly allocated block. The length and allocation
  fields are set right after it in every function that does this.
\<close>

definition sds_blank_hdr :: "nat \<Rightarrow> sdshdr" where
  "sds_blank_hdr type =
     (if type = SDS_TYPE_5 then Sdshdr5 0 else if type = SDS_TYPE_8 then Sdshdr8 0 0
      else if type = SDS_TYPE_16 then Sdshdr16 0 0 else if type = SDS_TYPE_32 then Sdshdr32 0 0
      else Sdshdr64 0 0)"

section \<open>Creation\<close>

definition sdsnewlen :: "allocator \<Rightarrow> byte list option \<Rightarrow> nat \<Rightarrow> sds res" where
  "sdsnewlen m init initlen =
     (let type0 = sdsReqType initlen;
          type = (if type0 = SDS_TYPE_5 \<and> initlen = 0 then SDS_TYPE_8 else type0);
          hdrlen = sdsHdrSize type;
          sz = u64 (hdrlen + initlen + 1)
      in bindE (if init = None then deref (s_malloc m sz) else s_malloc m sz) (\<lambda>sh0.
         let sh = (if init = None then replicate (length sh0) 0 else sh0);
             s = sdssetalloc (sdssetlen \<lparr>sds_hdr = sds_blank_hdr type, sds_buf = drop hdrlen sh\<rparr>
                                initlen) initlen
         in bindE (case init of
                     Some t \<Rightarrow> (if initlen = 0 then Inr (sds_buf s)
                                else bindE (mem_read t 0 initlen) (mem_write (sds_buf s) 0))
                   | None \<Rightarrow> Inr (sds_buf s)) (\<lambda>b.
            bindE (mem_write b initlen [0]) (\<lambda>b'. Inr (s\<lparr>sds_buf := b'\<rparr>)))))"

definition sdsempty :: "allocator \<Rightarrow> sds res" where
  "sdsempty m = sdsnewlen m (Some [0]) 0"

definition sdsnew :: "allocator \<Rightarrow> byte list option \<Rightarrow> sds res" where
  "sdsnew m init =
     bindE (case init of None \<Rightarrow> Inr 0 | Some t \<Rightarrow> strlen t) (\<lambda>initlen. sdsnewlen m init initlen)"

definition sdsdup :: "allocator \<Rightarrow> sds \<Rightarrow> sds res" where
  "sdsdup m s = sdsnewlen m (Some (sds_buf s)) (sdslen s)"

section \<open>Length, room and allocation\<close>

text \<open>\<open>strlen\<close> is stored in an \<open>int\<close> and converted back to \<open>size_t\<close>.\<close>

definition sdsupdatelen :: "sds \<Rightarrow> sds res" where
  "sdsupdatelen s =
     bindE (strlen (sds_buf s)) (\<lambda>n.
       let reallen = (word_of_nat n :: 32 word)
       in Inr (sdssetlen s (nat (sint reallen mod 2 ^ 64))))"

definition sdsclear :: "sds \<Rightarrow> sds res" where
  "sdsclear s =
     bindE (mem_write (sds_buf s) 0 [0]) (\<lambda>b. Inr (sdssetlen s 0\<lparr>sds_buf := b\<rparr>))"

text \<open>
  \<open>s_realloc(sh, hdrlen+newlen+1)\<close> on the block of a string whose header keeps its type: the
  header bytes are part of the common prefix.
\<close>

definition sds_realloc_buf :: "allocator \<Rightarrow> nat \<Rightarrow> byte list \<Rightarrow> nat \<Rightarrow> byte list res" where
  "sds_realloc_buf m hdrlen buf sz =
     bindE (s_realloc m (replicate hdrlen 0 @ buf) sz) (\<lambda>sh.
       if sz < hdrlen then Inl OutOfBounds else Inr (drop hdrlen sh))"

definition sdsMakeRoomFor :: "allocator \<Rightarrow> sds \<Rightarrow> nat \<Rightarrow> sds res" where
  "sdsMakeRoomFor m s addlen =
     (let avail = sdsavail s; oldtype = sds_type s in
      if avail \<ge> addlen then Inr s else
      let len = sdslen s;
          newlen0 = u64 (len + addlen);
          newlen = (if newlen0 < SDS_MAX_PREALLOC then u64 (newlen0 * 2)
                    else u64 (newlen0 + SDS_MAX_PREALLOC));
          type0 = sdsReqType newlen;
          type = (if type0 = SDS_TYPE_5 then SDS_TYPE_8 else type0);
          hdrlen = sdsHdrSize type;
          sz = u64 (hdrlen + newlen + 1)
      in bindE
        (if oldtype = type then
           bindE (sds_realloc_buf m hdrlen (sds_buf s) sz) (\<lambda>b. Inr (s\<lparr>sds_buf := b\<rparr>))
         else
           bindE (s_malloc m sz) (\<lambda>newsh.
           bindE (mem_read (sds_buf s) 0 (len + 1)) (\<lambda>old.
           bindE (mem_write (drop hdrlen newsh) 0 old) (\<lambda>b.
             Inr (sdssetlen \<lparr>sds_hdr = sds_blank_hdr type, sds_buf = b\<rparr> len)))))
        (\<lambda>s'. Inr (sdssetalloc s' newlen)))"

definition sdsRemoveFreeSpace :: "allocator \<Rightarrow> sds \<Rightarrow> sds res" where
  "sdsRemoveFreeSpace m s =
     (let oldtype = sds_type s;
          oldhdrlen = sdsHdrSize oldtype;
          len = sdslen s;
          type = sdsReqType len;
          hdrlen = sdsHdrSize type
      in bindE
        (if oldtype = type \<or> type > SDS_TYPE_8 then
           bindE (sds_realloc_buf m oldhdrlen (sds_buf s) (u64 (oldhdrlen + len + 1)))
             (\<lambda>b. Inr (s\<lparr>sds_buf := b\<rparr>))
         else
           bindE (s_malloc m (u64 (hdrlen + len + 1))) (\<lambda>newsh.
           bindE (mem_read (sds_buf s) 0 (len + 1)) (\<lambda>old.
           bindE (mem_write (drop hdrlen newsh) 0 old) (\<lambda>b.
             Inr (sdssetlen \<lparr>sds_hdr = sds_blank_hdr type, sds_buf = b\<rparr> len)))))
        (\<lambda>s'. Inr (sdssetalloc s' len)))"

definition sdsAllocSize :: "sds \<Rightarrow> nat" where
  "sdsAllocSize s = u64 (sdsHdrSize (sds_type s) + sdsalloc s + 1)"

text \<open>
  \<open>sdsIncrLen\<close> takes an \<open>int\<close>. The assertion differs per header: the 5 bit header compares with
  32 and refuses \<open>incr = 0\<close>; the others compare with the free space (as \<open>int\<close>, \<open>unsigned\<close> or
  \<open>uint64_t\<close>) or, for a negative increment, with the length.
\<close>

definition sdsIncrLen_pre :: "sds \<Rightarrow> int \<Rightarrow> bool" where
  "sdsIncrLen_pre s incr = (case sds_hdr s of
     Sdshdr5 f \<Rightarrow> (incr > 0 \<and> uint (drop_bit 3 f) + incr < 32) \<or>
                  (incr < 0 \<and> uint (drop_bit 3 f) \<ge> - incr)
   | Sdshdr8 l a \<Rightarrow> (incr \<ge> 0 \<and> uint a - uint l \<ge> incr) \<or> (incr < 0 \<and> uint l \<ge> - incr)
   | Sdshdr16 l a \<Rightarrow> (incr \<ge> 0 \<and> uint a - uint l \<ge> incr) \<or> (incr < 0 \<and> uint l \<ge> - incr)
   | Sdshdr32 l a \<Rightarrow> (incr \<ge> 0 \<and> uint (a - l) \<ge> incr) \<or> (incr < 0 \<and> uint l \<ge> - incr)
   | Sdshdr64 l a \<Rightarrow> (incr \<ge> 0 \<and> uint (a - l) \<ge> incr) \<or> (incr < 0 \<and> uint l \<ge> - incr))"

definition sdsIncrLen :: "sds \<Rightarrow> int \<Rightarrow> sds res" where
  "sdsIncrLen s incr =
     (if \<not> sdsIncrLen_pre s incr then Inl AssertFail
      else let s' = s\<lparr>sds_hdr := (case sds_hdr s of
              Sdshdr5 f \<Rightarrow> Sdshdr5 (push_bit 3 (drop_bit 3 f + word_of_int incr))
            | Sdshdr8 l a \<Rightarrow> Sdshdr8 (l + word_of_int incr) a
            | Sdshdr16 l a \<Rightarrow> Sdshdr16 (l + word_of_int incr) a
            | Sdshdr32 l a \<Rightarrow> Sdshdr32 (l + word_of_int incr) a
            | Sdshdr64 l a \<Rightarrow> Sdshdr64 (l + word_of_int incr) a)\<rparr>
           in bindE (mem_write (sds_buf s') (sdslen s') [0]) (\<lambda>b. Inr (s'\<lparr>sds_buf := b\<rparr>)))"

section \<open>Append and copy\<close>

definition sdsgrowzero :: "allocator \<Rightarrow> sds \<Rightarrow> nat \<Rightarrow> sds res" where
  "sdsgrowzero m s len =
     (let curlen = sdslen s in
      if len \<le> curlen then Inr s else
      bindE (sdsMakeRoomFor m s (len - curlen)) (\<lambda>s'.
      bindE (mem_write (sds_buf s') curlen (replicate (len - curlen + 1) 0)) (\<lambda>b.
        Inr (sdssetlen (s'\<lparr>sds_buf := b\<rparr>) len))))"

definition sdscatlen :: "allocator \<Rightarrow> sds \<Rightarrow> byte list \<Rightarrow> nat \<Rightarrow> sds res" where
  "sdscatlen m s t len =
     (let curlen = sdslen s in
      bindE (sdsMakeRoomFor m s len) (\<lambda>s'.
      bindE (mem_read t 0 len) (\<lambda>src.
      bindE (mem_write (sds_buf s') curlen src) (\<lambda>b.
        let s'' = sdssetlen (s'\<lparr>sds_buf := b\<rparr>) (u64 (curlen + len)) in
      bindE (mem_write (sds_buf s'') (u64 (curlen + len)) [0]) (\<lambda>b'.
        Inr (s''\<lparr>sds_buf := b'\<rparr>))))))"

definition sdscat :: "allocator \<Rightarrow> sds \<Rightarrow> byte list \<Rightarrow> sds res" where
  "sdscat m s t = bindE (strlen t) (\<lambda>n. sdscatlen m s t n)"

definition sdscatsds :: "allocator \<Rightarrow> sds \<Rightarrow> sds \<Rightarrow> sds res" where
  "sdscatsds m s t = sdscatlen m s (sds_buf t) (sdslen t)"

definition sdscpylen :: "allocator \<Rightarrow> sds \<Rightarrow> byte list \<Rightarrow> nat \<Rightarrow> sds res" where
  "sdscpylen m s t len =
     bindE (if sdsalloc s < len then sdsMakeRoomFor m s (to_size (int len - int (sdslen s)))
            else Inr s) (\<lambda>s'.
     bindE (mem_read t 0 len) (\<lambda>src.
     bindE (mem_write (sds_buf s') 0 src) (\<lambda>b.
     bindE (mem_write b len [0]) (\<lambda>b'.
       Inr (sdssetlen (s'\<lparr>sds_buf := b'\<rparr>) len)))))"

definition sdscpy :: "allocator \<Rightarrow> sds \<Rightarrow> byte list \<Rightarrow> sds res" where
  "sdscpy m s t = bindE (strlen t) (\<lambda>n. sdscpylen m s t n)"

section \<open>Edits in place and comparison\<close>

function sdstrim_sp :: "byte list \<Rightarrow> byte list \<Rightarrow> nat \<Rightarrow> nat" where
  "sdstrim_sp c cset sp =
     (if sp < length c \<and> strchr cset (c ! sp) then sdstrim_sp c cset (sp + 1) else sp)"
  by pat_completeness auto
termination
  by (relation "measure (\<lambda>(c, cset, sp). length c - sp)") auto

function sdstrim_ep :: "byte list \<Rightarrow> byte list \<Rightarrow> nat \<Rightarrow> int \<Rightarrow> int" where
  "sdstrim_ep c cset sp ep =
     (if ep > int sp \<and> strchr cset (c ! nat ep) then sdstrim_ep c cset sp (ep - 1) else ep)"
  by pat_completeness auto
termination
  by (relation "measure (\<lambda>(c, cset, sp, ep). nat (ep - int sp))") auto

declare sdstrim_sp.simps [simp del] sdstrim_ep.simps [simp del]

text \<open>\<open>sp\<close> and \<open>ep\<close> are offsets from \<open>s\<close>; \<open>end\<close> is \<open>length c - 1\<close>, possibly \<open>-1\<close>.\<close>

definition sdstrim :: "sds \<Rightarrow> byte list \<Rightarrow> sds res" where
  "sdstrim s cset =
     bindE (strlen cset) (\<lambda>_.
     bindE (mem_read (sds_buf s) 0 (sdslen s)) (\<lambda>c.
       let sp = sdstrim_sp c cset 0;
           ep = sdstrim_ep c cset sp (int (length c) - 1);
           len = (if int sp > ep then 0 else nat (ep - int sp) + 1)
       in bindE (if sp \<noteq> 0
                 then bindE (mem_read (sds_buf s) sp len) (mem_write (sds_buf s) 0)
                 else Inr (sds_buf s)) (\<lambda>b.
          bindE (mem_write b len [0]) (\<lambda>b'. Inr (sdssetlen (s\<lparr>sds_buf := b'\<rparr>) len)))))"

text \<open>
  The index arithmetic of \<open>sdsrange\<close> on \<open>int\<close>s: a negative index is added to the length, then
  the interval is clipped. The result is the offset and the number of bytes to keep. The count is
  computed in \<open>int\<close>, where \<open>(end-start)+1\<close> may overflow.
\<close>

definition sdsrange_index :: "nat \<Rightarrow> int \<Rightarrow> int" where
  "sdsrange_index len x =
     (if x < 0 then let y = s32 (int len + x) in if y < 0 then 0 else y else x)"

definition sdsrange_count :: "int \<Rightarrow> int \<Rightarrow> nat res" where
  "sdsrange_count start end =
     (if start > end then Inr 0
      else if end - start + 1 \<ge> 2 ^ 31 then Inl UndefBehaviour else Inr (nat (end - start + 1)))"

definition sdsrange_clip :: "nat \<Rightarrow> int \<Rightarrow> int \<Rightarrow> (int \<times> nat) res" where
  "sdsrange_clip len start end =
     bindE (sdsrange_count start end) (\<lambda>newlen.
       if newlen \<noteq> 0 then
         if start \<ge> s32 (int len) then Inr (start, 0)
         else if end \<ge> s32 (int len) then bindE (sdsrange_count start (s32 (int len - 1))) (\<lambda>n. Inr (start, n))
         else Inr (start, newlen)
       else Inr (0, newlen))"

definition sdsrange :: "sds \<Rightarrow> int \<Rightarrow> int \<Rightarrow> sds res" where
  "sdsrange s start0 end0 =
     (let len = sdslen s in
      if len = 0 then Inr s else
      bindE (sdsrange_clip len (sdsrange_index len start0) (sdsrange_index len end0)) (\<lambda>(start, newlen).
        bindE (if start \<noteq> 0 \<and> newlen \<noteq> 0
               then bindE (mem_read (sds_buf s) (nat start) newlen) (mem_write (sds_buf s) 0)
               else Inr (sds_buf s)) (\<lambda>b.
        bindE (mem_write b newlen [0]) (\<lambda>b'. Inr (sdssetlen (s\<lparr>sds_buf := b'\<rparr>) newlen)))))"

definition sds_map_int :: "(byte \<Rightarrow> byte) \<Rightarrow> sds \<Rightarrow> sds res" where
  "sds_map_int f s =
     (let len = nat (s32 (int (sdslen s))) in
      bindE (mem_read (sds_buf s) 0 len) (\<lambda>c.
      bindE (mem_write (sds_buf s) 0 (map f c)) (\<lambda>b. Inr (s\<lparr>sds_buf := b\<rparr>))))"

definition sdstolower :: "sds \<Rightarrow> sds res" where
  "sdstolower s = sds_map_int tolower s"

definition sdstoupper :: "sds \<Rightarrow> sds res" where
  "sdstoupper s = sds_map_int toupper s"

definition sdscmp :: "sds \<Rightarrow> sds \<Rightarrow> int res" where
  "sdscmp s1 s2 =
     (let l1 = sdslen s1; l2 = sdslen s2; minlen = (if l1 < l2 then l1 else l2) in
      bindE (mem_read (sds_buf s1) 0 minlen) (\<lambda>a.
      bindE (mem_read (sds_buf s2) 0 minlen) (\<lambda>b.
        let cmp = memcmp a b in
        if cmp = 0 then Inr (s32 (int l1 - int l2)) else Inr cmp)))"

text \<open>The inner loop of \<open>sdsmapchars\<close>: the first \<open>i\<close> with \<open>s[j] = from[i]\<close> decides.\<close>

fun mapchar :: "byte list \<Rightarrow> byte list \<Rightarrow> byte \<Rightarrow> byte" where
  "mapchar (f # fs) (t # ts) c = (if c = f then t else mapchar fs ts c)"
| "mapchar _ _ c = c"

definition sdsmapchars :: "sds \<Rightarrow> byte list \<Rightarrow> byte list \<Rightarrow> nat \<Rightarrow> sds res" where
  "sdsmapchars s from to setlen =
     bindE (mem_read (sds_buf s) 0 (sdslen s)) (\<lambda>c.
     bindE (mem_read from 0 setlen) (\<lambda>f.
     bindE (mem_read to 0 setlen) (\<lambda>t.
     bindE (mem_write (sds_buf s) 0 (map (mapchar f t) c)) (\<lambda>b. Inr (s\<lparr>sds_buf := b\<rparr>)))))"

section \<open>Correctness\<close>

definition sds_fits :: "sds \<Rightarrow> nat \<Rightarrow> bool" where
  "sds_fits s n = (case sds_hdr s of
     Sdshdr5 _ \<Rightarrow> n < 2 ^ 5 | Sdshdr8 _ _ \<Rightarrow> n < 2 ^ 8 | Sdshdr16 _ _ \<Rightarrow> n < 2 ^ 16
   | Sdshdr32 _ _ \<Rightarrow> n < 2 ^ 32 | Sdshdr64 _ _ \<Rightarrow> n < 2 ^ 64)"

definition sds_val :: "sds \<Rightarrow> byte list" where
  "sds_val s = take (sdslen s) (sds_buf s)"

definition sds_inv :: "sds \<Rightarrow> bool" where
  "sds_inv s \<longleftrightarrow> sdslen s \<le> sdsalloc s \<and> sdsalloc s < length (sds_buf s) \<and> sds_buf s ! sdslen s = 0
     \<and> (\<forall>f. sds_hdr s = Sdshdr5 f \<longrightarrow> f AND 7 = 0)"

text \<open>The invariant without the terminator, which holds also between the steps of an append.\<close>

definition sds_wf :: "sds \<Rightarrow> bool" where
  "sds_wf s \<longleftrightarrow> sdslen s \<le> sdsalloc s \<and> sdsalloc s < length (sds_buf s)
     \<and> (\<forall>f. sds_hdr s = Sdshdr5 f \<longrightarrow> f AND 7 = 0)"

lemma sds_inv_iff: "sds_inv s \<longleftrightarrow> sds_wf s \<and> sds_buf s ! sdslen s = 0"
  by (auto simp: sds_inv_def sds_wf_def)

lemmas sds_acc_defs = sdslen_def sdsalloc_def sdssetlen_def sdssetalloc_def sdsinclen_def
  sdsavail_def sds_type_def sds_fits_def

text \<open>A string with no free space, for concrete inputs.\<close>

definition sds_of :: "byte list \<Rightarrow> sds" where
  "sds_of bs = \<lparr>sds_hdr = Sdshdr64 (word_of_nat (length bs)) (word_of_nat (length bs)), sds_buf = bs @ [0]\<rparr>"

lemma sds_of_simps [simp]:
  "length bs < 2 ^ 64 \<Longrightarrow> sdslen (sds_of bs) = length bs"
  "length bs < 2 ^ 64 \<Longrightarrow> sds_val (sds_of bs) = bs"
  "length bs < 2 ^ 64 \<Longrightarrow> sds_inv (sds_of bs)"
  by (simp_all add: sds_of_def sds_val_def sds_inv_def sds_acc_defs unsigned_of_nat take_bit_eq_mod)


lemma drop_push_bit3: "n < 2 ^ 5 \<Longrightarrow> unat (drop_bit 3 (push_bit 3 (word_of_nat n :: byte))) = n"
  by (simp add: unat_drop_bit_eq unsigned_push_bit_eq unsigned_of_nat take_bit_eq_mod push_bit_eq_mult [where 'a = nat] drop_bit_eq_div [where 'a = nat])

lemma push_bit3_and7: "push_bit 3 (w :: byte) AND 7 = 0"
proof -
  have "push_bit 3 w AND mask 3 = 0"
    by (rule bit_word_eqI) (auto simp: bit_simps)
  then show ?thesis by (simp add: mask_eq_exp_minus_1)
qed

lemma sdslen_sdssetlen [simp]: "sds_fits s n \<Longrightarrow> sdslen (sdssetlen s n) = n"
  by (auto simp: sds_acc_defs drop_push_bit3 unsigned_of_nat take_bit_eq_mod split: sdshdr.splits)

lemma sdsalloc_sdssetlen [simp]:
  "sds_type s \<noteq> SDS_TYPE_5 \<Longrightarrow> sdsalloc (sdssetlen s n) = sdsalloc s"
  by (auto simp: sds_acc_defs split: sdshdr.splits)

lemma sdslen_sdssetalloc [simp]: "sdslen (sdssetalloc s n) = sdslen s"
  by (auto simp: sds_acc_defs split: sdshdr.splits)

lemma sdsalloc_sdssetalloc [simp]:
  "sds_fits s n \<Longrightarrow> sds_type s \<noteq> SDS_TYPE_5 \<Longrightarrow> sdsalloc (sdssetalloc s n) = n"
  by (auto simp: sds_acc_defs unsigned_of_nat take_bit_eq_mod split: sdshdr.splits)

lemma sdsalloc_type5: "sds_type s = SDS_TYPE_5 \<Longrightarrow> sdsalloc s = sdslen s"
  by (auto simp: sds_acc_defs split: sdshdr.splits)


lemma sdsavail_eq: "sdslen s \<le> sdsalloc s \<Longrightarrow> sdsavail s = sdsalloc s - sdslen s"
  by (cases "sds_hdr s")
    (simp_all add: sds_acc_defs unat_sub_le size_diff_eq [simplified] less_trans [OF unat_bounds(1)]
      less_trans [OF unat_bounds(2)])

lemma drop_bit3_less: "unat (drop_bit 3 (f :: byte)) < 32"
  using unsigned_less[where 'a = nat, of f] by (simp add: unat_drop_bit_eq drop_bit_eq_div [where 'a = nat])

lemma sds_fits_len [simp]: "sds_fits s (sdslen s)"
  by (cases "sds_hdr s") (simp_all add: sds_acc_defs drop_bit3_less unat_bounds)

lemma sds_fits_mono: "sds_fits s n \<Longrightarrow> k \<le> n \<Longrightarrow> sds_fits s k"
  by (auto simp: sds_fits_def split: sdshdr.splits)

lemma sds_fits_alloc [simp]: "sds_fits s (sdsalloc s)"
  by (cases "sds_hdr s") (simp_all add: sds_acc_defs drop_bit3_less unat_bounds)

lemma sds_buf_setters [simp]:
  "sds_buf (sdssetlen s n) = sds_buf s"
  "sds_buf (sdssetalloc s n) = sds_buf s"
  by (simp_all add: sds_acc_defs)

lemma sds_hdr_buf_update [simp]:
  "sdslen (s\<lparr>sds_buf := b\<rparr>) = sdslen s"
  "sdsalloc (s\<lparr>sds_buf := b\<rparr>) = sdsalloc s"
  "sds_type (s\<lparr>sds_buf := b\<rparr>) = sds_type s"
  "sds_fits (s\<lparr>sds_buf := b\<rparr>) n = sds_fits s n"
  by (simp_all add: sds_acc_defs)

lemma sds_type_setters [simp]:
  "sds_type (sdssetlen s n) = sds_type s"
  "sds_type (sdssetalloc s n) = sds_type s"
  "sds_fits (sdssetlen s n) k = sds_fits s k"
  "sds_fits (sdssetalloc s n) k = sds_fits s k"
  by (auto simp: sds_acc_defs split: sdshdr.splits)

lemma sdsReqType_cases:
  "(sdsReqType n = SDS_TYPE_5 \<and> n < 2 ^ 5) \<or> (sdsReqType n = SDS_TYPE_8 \<and> n < 2 ^ 8) \<or>
   (sdsReqType n = SDS_TYPE_16 \<and> n < 2 ^ 16) \<or> (sdsReqType n = SDS_TYPE_32 \<and> n < 2 ^ 32) \<or>
   sdsReqType n = SDS_TYPE_64"
  by (simp add: sdsReqType_def)

lemma sds_blank_type [simp]: "type \<le> 4 \<Longrightarrow> sds_type \<lparr>sds_hdr = sds_blank_hdr type, sds_buf = b\<rparr> = type"
  by (auto simp: sds_type_def sds_blank_hdr_def)

lemma sdsReqType_le [simp]: "sdsReqType n \<le> 4"
  by (simp add: sdsReqType_def)

lemma sds_fits_type: "sdsReqType n \<le> sds_type s \<Longrightarrow> n < 2 ^ 64 \<Longrightarrow> sds_fits s n"
  by (auto simp: sds_fits_def sds_type_def sdsReqType_def split: if_splits sdshdr.splits)

lemma sds_fits_blank:
  "n < 2 ^ 64 \<Longrightarrow> sdsReqType n \<le> type \<Longrightarrow> type \<le> 4 \<Longrightarrow>
   sds_fits \<lparr>sds_hdr = sds_blank_hdr type, sds_buf = b\<rparr> n"
  by (simp add: sds_fits_type)

lemma sds_fits_0 [simp]: "sds_fits s 0"
  by (simp add: sds_fits_def split: sdshdr.splits)

lemma sdsHdrSize_le: "sdsHdrSize t \<le> 17"
  by (simp add: sdsHdrSize_def)

text \<open>Setting both fields of a header that can hold them.\<close>

lemma sds_setlen_setalloc:
  assumes "sds_fits s n" and "sds_fits s a"
  shows "sdslen (sdssetalloc (sdssetlen s n) a) = n"
    and "sdsalloc (sdssetalloc (sdssetlen s n) a) = (if sds_type s = SDS_TYPE_5 then n else a)"
  using assms by (simp_all add: sdsalloc_type5)

lemma sds_setlen_flags:
  "sds_hdr (sdssetlen s n) = Sdshdr5 f \<Longrightarrow> f AND 7 = 0"
  by (auto simp: sdssetlen_def push_bit3_and7 split: sdshdr.splits)

lemma sds_setalloc_flags:
  "sds_hdr (sdssetalloc s n) = Sdshdr5 f \<longleftrightarrow> sds_hdr s = Sdshdr5 f"
  by (auto simp: sdssetalloc_def split: sdshdr.splits)

lemma sds_invI:
  assumes "sdslen s \<le> sdsalloc s" "sdsalloc s < length (sds_buf s)" "sds_buf s ! sdslen s = 0"
    "\<And>f. sds_hdr s = Sdshdr5 f \<Longrightarrow> f AND 7 = 0"
  shows "sds_inv s"
  using assms by (simp add: sds_inv_def)

lemma sdsnewlen_yields:
  assumes m: "malloc_ok m" and n: "initlen + 18 < 2 ^ 64"
    and t: "\<And>t. init = Some t \<Longrightarrow> initlen \<le> length t"
  shows "yields m (sdsnewlen m init initlen)
           (\<lambda>s. sds_inv s \<and>
              sds_val s = (case init of None \<Rightarrow> replicate initlen 0 | Some t \<Rightarrow> take initlen t))"
proof -
  define type where
    "type = (if sdsReqType initlen = SDS_TYPE_5 \<and> initlen = 0 then SDS_TYPE_8 else sdsReqType initlen)"
  have le: "type \<le> 4" "sdsReqType initlen \<le> type" by (auto simp: type_def)
  have "sdsHdrSize type + initlen + 1 < 2 ^ 64"
    using n sdsHdrSize_le[of type] by linarith
  then have sz: "u64 (sdsHdrSize type + initlen + 1) = sdsHdrSize type + initlen + 1" by simp
  have fits: "sds_fits \<lparr>sds_hdr = sds_blank_hdr type, sds_buf = b\<rparr> initlen" for b
    using le n by (intro sds_fits_blank) auto
  show ?thesis
    unfolding sdsnewlen_def Let_def type_def[symmetric] sz
    apply (rule yields_bindE [where P = "\<lambda>bs. length bs = sdsHdrSize type + initlen + 1"])
     apply (simp add: yields_intros m)
    using t
    by (cases init)
      (auto simp: le fits sds_setlen_setalloc sds_val_def sds_setlen_flags sds_setalloc_flags nth_append
        simp del: replicate_Suc intro!: sds_invI)
qed

section \<open>Growing\<close>

lemma sds_realloc_buf_yields:
  assumes "malloc_ok m" and "hdrlen \<le> sz"
  shows "yields m (sds_realloc_buf m hdrlen buf sz)
     (\<lambda>b. length b = sz - hdrlen \<and>
          (\<forall>k \<le> sz - hdrlen. k \<le> length buf \<longrightarrow> take k b = take k buf))"
  using assms
  by (auto simp: sds_realloc_buf_def s_realloc_def yields_def malloc_ok_def min_def take_drop split: option.splits)

definition sds_newalloc :: "nat \<Rightarrow> nat" where
  "sds_newalloc n = (if n < SDS_MAX_PREALLOC then n * 2 else n + SDS_MAX_PREALLOC)"

lemma sds_newalloc_ge: "n \<le> sds_newalloc n"
  by (simp add: sds_newalloc_def)

lemma sds_newalloc_le: "sds_newalloc n \<le> n + 2 ^ 20"
  by (simp add: sds_newalloc_def SDS_MAX_PREALLOC_def)

definition sds_extends_wf :: "sds \<Rightarrow> nat \<Rightarrow> sds \<Rightarrow> bool" where
  "sds_extends_wf s addlen s' \<longleftrightarrow> sds_wf s' \<and> sdslen s' = sdslen s
     \<and> take (sdslen s + 1) (sds_buf s') = take (sdslen s + 1) (sds_buf s) \<and> addlen \<le> sdsavail s'"

text \<open>The two ways the block is moved: \<open>realloc\<close>, or a new block with another header type.\<close>

lemma sdsMakeRoomFor_block:
  assumes m: "malloc_ok m" and wf: "sds_wf s"
    and newlen: "sdslen s \<le> newlen" "newlen < 2 ^ 64"
    and type: "type \<le> 4" "sdsReqType newlen \<le> type"
  shows "yields m
       (if sds_type s = type then
           bindE (sds_realloc_buf m hdrlen (sds_buf s) (hdrlen + newlen + 1)) (\<lambda>b. Inr (s\<lparr>sds_buf := b\<rparr>))
         else
           bindE (s_malloc m (hdrlen + newlen + 1)) (\<lambda>newsh.
           bindE (mem_read (sds_buf s) 0 (sdslen s + 1)) (\<lambda>old.
           bindE (mem_write (drop hdrlen newsh) 0 old) (\<lambda>b.
             Inr (sdssetlen \<lparr>sds_hdr = sds_blank_hdr type, sds_buf = b\<rparr> (sdslen s))))))
       (\<lambda>s'. sds_type s' = type \<and> sdslen s' = sdslen s \<and> length (sds_buf s') = newlen + 1
           \<and> take (sdslen s + 1) (sds_buf s') = take (sdslen s + 1) (sds_buf s) \<and> sds_fits s' newlen)"
proof (cases "sds_type s = type")
  case True
  have "yields m (bindE (sds_realloc_buf m hdrlen (sds_buf s) (hdrlen + newlen + 1)) (\<lambda>b. Inr (s\<lparr>sds_buf := b\<rparr>)))
       (\<lambda>s'. sds_type s' = type \<and> sdslen s' = sdslen s \<and> length (sds_buf s') = newlen + 1
           \<and> take (sdslen s + 1) (sds_buf s') = take (sdslen s + 1) (sds_buf s) \<and> sds_fits s' newlen)"
    by (rule yields_bindE [OF sds_realloc_buf_yields [OF m]])
      (use True wf newlen type in \<open>auto simp: sds_wf_def intro!: sds_fits_type\<close>)
  with True show ?thesis by simp
next
  case False
  have fits: "sds_fits \<lparr>sds_hdr = sds_blank_hdr type, sds_buf = b\<rparr> newlen" for b
    using newlen type by (intro sds_fits_blank) auto
  then have fits': "sds_fits \<lparr>sds_hdr = sds_blank_hdr type, sds_buf = b\<rparr> (sdslen s)" for b
    using newlen(1) by (rule sds_fits_mono)
  have "yields m (bindE (s_malloc m (hdrlen + newlen + 1)) (\<lambda>newsh.
           bindE (mem_read (sds_buf s) 0 (sdslen s + 1)) (\<lambda>old.
           bindE (mem_write (drop hdrlen newsh) 0 old) (\<lambda>b.
             Inr (sdssetlen \<lparr>sds_hdr = sds_blank_hdr type, sds_buf = b\<rparr> (sdslen s))))))
       (\<lambda>s'. sds_type s' = type \<and> sdslen s' = sdslen s \<and> length (sds_buf s') = newlen + 1
           \<and> take (sdslen s + 1) (sds_buf s') = take (sdslen s + 1) (sds_buf s) \<and> sds_fits s' newlen)"
    by (rule yields_bindE [OF yields_s_malloc [OF m]])
      (use wf newlen type fits fits' in \<open>auto simp: sds_wf_def\<close>)
  with False show ?thesis by simp
qed

lemma sdsMakeRoomFor_wf:
  assumes m: "malloc_ok m" and wf: "sds_wf s" and n: "sdslen s + addlen + 2 ^ 20 + 18 < 2 ^ 64"
  shows "yields m (sdsMakeRoomFor m s addlen) (sds_extends_wf s addlen)"
proof (cases "sdsavail s \<ge> addlen")
  case True
  then show ?thesis using wf by (simp add: sdsMakeRoomFor_def sds_extends_wf_def)
next
  case False
  define newlen where "newlen = sds_newalloc (sdslen s + addlen)"
  define type where
    "type = (if sdsReqType newlen = SDS_TYPE_5 then SDS_TYPE_8 else sdsReqType newlen)"
  define hdrlen where "hdrlen = sdsHdrSize type"
  have newlen: "sdslen s + addlen \<le> newlen" "newlen + 18 < 2 ^ 64"
    using n sds_newalloc_ge sds_newalloc_le[of "sdslen s + addlen"] by (simp_all add: newlen_def)
  have eqs: "(if u64 (sdslen s + addlen) < SDS_MAX_PREALLOC then u64 (u64 (sdslen s + addlen) * 2)
              else u64 (u64 (sdslen s + addlen) + SDS_MAX_PREALLOC)) = newlen"
    using n by (simp add: newlen_def sds_newalloc_def SDS_MAX_PREALLOC_def)
  have hdr: "hdrlen + newlen + 1 < 2 ^ 64"
    using newlen(2) sdsHdrSize_le[of type] unfolding hdrlen_def by linarith
  have type: "type \<le> 4" "sdsReqType newlen \<le> type" "type \<noteq> SDS_TYPE_5"
    by (auto simp: type_def)
  have fin: "sds_extends_wf s addlen (sdssetalloc s' newlen)"
    if "sds_type s' = type \<and> sdslen s' = sdslen s \<and> length (sds_buf s') = newlen + 1
      \<and> take (sdslen s + 1) (sds_buf s') = take (sdslen s + 1) (sds_buf s) \<and> sds_fits s' newlen" for s'
    using that newlen(1) type(3)
    by (auto simp: sds_extends_wf_def sds_wf_def sdsavail_eq sds_setalloc_flags sds_type_def)
  show ?thesis
    using False unfolding sdsMakeRoomFor_def Let_def eqs type_def[symmetric] hdrlen_def[symmetric] u64_id[OF hdr]
    by (simp only: if_False)
      (rule yields_bindE [OF sdsMakeRoomFor_block [OF m wf]], use newlen type in \<open>auto simp: fin\<close>)
qed

definition sds_extends :: "sds \<Rightarrow> nat \<Rightarrow> sds \<Rightarrow> bool" where
  "sds_extends s addlen s' \<longleftrightarrow> sds_inv s' \<and> sds_val s' = sds_val s \<and> addlen \<le> sdsavail s'"

lemma sdsMakeRoomFor_yields:
  assumes m: "malloc_ok m" and inv: "sds_inv s" and n: "sdslen s + addlen + 2 ^ 20 + 18 < 2 ^ 64"
  shows "yields m (sdsMakeRoomFor m s addlen) (sds_extends s addlen)"
proof (rule yields_mono [OF sdsMakeRoomFor_wf [OF m _ n]])
  show "sds_wf s" using inv by (simp add: sds_inv_iff)
  fix s' assume ext: "sds_extends_wf s addlen s'"
  then have len: "sdslen s < length (sds_buf s')" "sdslen s < length (sds_buf s)"
    using inv by (auto simp: sds_extends_wf_def sds_wf_def sds_inv_def)
  with ext show "sds_extends s addlen s'"
    using inv nth_of_take_eq[of "sdslen s" "sds_buf s'" "sds_buf s"]
      take_le_eq[of "sdslen s + 1" "sds_buf s'" "sds_buf s" "sdslen s"]
    by (auto simp: sds_extends_def sds_extends_wf_def sds_inv_iff sds_val_def)
qed

text \<open>
  Every in-place edit ends the same way: the buffer has been rewritten without changing its size
  and the new length, within the allocation, is stored with a terminator behind it.
\<close>

lemma sdssetlen_buf [simp]: "sdssetlen (s\<lparr>sds_buf := b\<rparr>) n = sdssetlen s n\<lparr>sds_buf := b\<rparr>"
  by (simp add: sdssetlen_def)

lemma sds_store:
  assumes "sds_inv s" and "length b = length (sds_buf s)" and "n \<le> sdsalloc s" and "b ! n = 0"
  shows "sds_inv (sdssetlen s n\<lparr>sds_buf := b\<rparr>)" and "sds_val (sdssetlen s n\<lparr>sds_buf := b\<rparr>) = take n b"
proof -
  have fits: "sds_fits s n" using sds_fits_alloc assms(3) by (rule sds_fits_mono)
  have alloc: "sdsalloc (sdssetlen s n) = (if sds_type s = SDS_TYPE_5 then n else sdsalloc s)"
    using fits by (simp add: sdsalloc_type5)
  show "sds_inv (sdssetlen s n\<lparr>sds_buf := b\<rparr>)"
    using assms fits alloc by (auto simp: sds_inv_def sds_setlen_flags)
  show "sds_val (sdssetlen s n\<lparr>sds_buf := b\<rparr>) = take n b"
    using fits by (simp add: sds_val_def)
qed

lemma length_sds_val [simp]: "sds_inv s \<Longrightarrow> length (sds_val s) = sdslen s"
  by (simp add: sds_val_def sds_inv_def)

lemma sds_extendsD:
  assumes "sds_extends s addlen s'"
  shows "sds_inv s'" and "sds_val s' = sds_val s" and "sds_inv s \<Longrightarrow> sdslen s' = sdslen s"
    and "sdslen s' + addlen \<le> sdsalloc s'" and "sdsalloc s' < length (sds_buf s')"
proof -
  show "sds_inv s'" "sds_val s' = sds_val s" using assms by (simp_all add: sds_extends_def)
  then show "sds_inv s \<Longrightarrow> sdslen s' = sdslen s" by (metis length_sds_val)
  show "sdslen s' + addlen \<le> sdsalloc s'" "sdsalloc s' < length (sds_buf s')"
    using assms by (auto simp: sds_extends_def sds_inv_def sdsavail_eq)
qed


lemma sdscatlen_yields:
  assumes m: "malloc_ok m" and inv: "sds_inv s" and len: "len \<le> length t"
    and n: "sdslen s + len + 2 ^ 20 + 18 < 2 ^ 64"
  shows "yields m (sdscatlen m s t len) (\<lambda>s'. sds_inv s' \<and> sds_val s' = sds_val s @ take len t)"
  unfolding sdscatlen_def Let_def
proof (rule yields_bindE [OF sdsMakeRoomFor_yields [OF m inv n]], goal_cases)
  case (1 s')
  note e = sds_extendsD(1,2,4,5)[OF 1] sds_extendsD(3)[OF 1 inv]
  have u: "u64 (sdslen s + len) = sdslen s + len" using n by simp
  have "take (sdslen s) (sds_buf s') = sds_val s" using e(2,5) by (simp add: sds_val_def)
  with e len inv show ?case by (auto simp: u sds_store nth_append)
qed

lemma sdsgrowzero_yields:
  assumes m: "malloc_ok m" and inv: "sds_inv s" and n: "sdslen s + len + 2 ^ 20 + 18 < 2 ^ 64"
  shows "yields m (sdsgrowzero m s len)
    (\<lambda>s'. sds_inv s' \<and> sds_val s' = sds_val s @ replicate (len - sdslen s) 0)"
proof (cases "len \<le> sdslen s")
  case True
  then show ?thesis using inv by (simp add: sdsgrowzero_def)
next
  case False
  have n': "sdslen s + (len - sdslen s) + 2 ^ 20 + 18 < 2 ^ 64" using n by simp
  show ?thesis
    unfolding sdsgrowzero_def Let_def
  proof (simp only: False if_False, rule yields_bindE [OF sdsMakeRoomFor_yields [OF m inv n']], goal_cases)
    case (1 s')
    note e = sds_extendsD(1,2,4,5)[OF 1] sds_extendsD(3)[OF 1 inv]
    have "take (sdslen s) (sds_buf s') = sds_val s" using e(2,5) by (simp add: sds_val_def)
    with e False inv show ?case
      by (auto simp: sds_store nth_append simp flip: replicate_Suc simp del: replicate_Suc)
  qed
qed

lemma sdscpylen_yields:
  assumes m: "malloc_ok m" and inv: "sds_inv s" and len: "len \<le> length t"
    and n: "len + 2 ^ 20 + 18 < 2 ^ 64"
  shows "yields m (sdscpylen m s t len) (\<lambda>s'. sds_inv s' \<and> sds_val s' = take len t)"
  unfolding sdscpylen_def
proof (rule yields_bindE [where P = "\<lambda>s'. sds_inv s' \<and> len \<le> sdsalloc s'"], goal_cases)
  case 1
  show ?case
  proof (cases "sdsalloc s < len")
    case True
    then have lt: "sdslen s < len" using inv by (simp add: sds_inv_def)
    then have "to_size (int len - int (sdslen s)) = len - sdslen s"
      using n by (simp flip: of_nat_diff)
    moreover have "sdslen s + (len - sdslen s) + 2 ^ 20 + 18 < 2 ^ 64" using n lt by simp
    moreover have "len \<le> sdsalloc x" if "sds_extends s (len - sdslen s) x" for x
      using sds_extendsD(3,4)[OF that] inv lt by simp
    ultimately show ?thesis
      using True by (auto intro!: yields_mono [OF sdsMakeRoomFor_yields [OF m inv]]
          dest: sds_extendsD(1))
  next
    case False
    then show ?thesis using inv by simp
  qed
next
  case (2 s')
  then show ?case using len by (auto simp: sds_store nth_append sds_inv_def[of s'])
qed

subsection \<open>Edits in place\<close>

lemma sds_terminate:
  assumes "sds_inv s" and "length b = length (sds_buf s)" and "n \<le> sdsalloc s"
  shows "sds_inv (sdssetlen s n\<lparr>sds_buf := take n b @ 0 # drop (Suc n) b\<rparr>)"
    and "sds_val (sdssetlen s n\<lparr>sds_buf := take n b @ 0 # drop (Suc n) b\<rparr>) = take n b"
proof -
  have n: "n < length b" using assms by (simp add: sds_inv_def)
  note st = sds_store [OF assms(1) _ assms(3), of "take n b @ 0 # drop (Suc n) b"]
  show "sds_inv (sdssetlen s n\<lparr>sds_buf := take n b @ 0 # drop (Suc n) b\<rparr>)"
    by (rule st(1)) (use n assms(2) in \<open>simp_all add: nth_append\<close>)
  have "sds_val (sdssetlen s n\<lparr>sds_buf := take n b @ 0 # drop (Suc n) b\<rparr>)
      = take n (take n b @ 0 # drop (Suc n) b)"
    by (rule st(2)) (use n assms(2) in \<open>simp_all add: nth_append\<close>)
  then show "sds_val (sdssetlen s n\<lparr>sds_buf := take n b @ 0 # drop (Suc n) b\<rparr>) = take n b"
    using n by simp
qed

text \<open>Removing a set of bytes from both ends.\<close>

definition trim_both :: "('a \<Rightarrow> bool) \<Rightarrow> 'a list \<Rightarrow> 'a list" where
  "trim_both P xs = rev (dropWhile P (rev (dropWhile P xs)))"

lemma sdstrim_sp_eq:
  "sp \<le> length c \<Longrightarrow> sdstrim_sp c cset sp = sp + length (takeWhile (strchr cset) (drop sp c))"
proof (induction c cset sp rule: sdstrim_sp.induct)
  case (1 c cset sp)
  show ?case
  proof (cases "sp < length c")
    case True
    then have "drop sp c = c ! sp # drop (Suc sp) c" by (rule Cons_nth_drop_Suc[symmetric])
    with True 1 show ?thesis by (subst sdstrim_sp.simps) simp
  next
    case False
    with 1 show ?thesis by (subst sdstrim_sp.simps) simp
  qed
qed

lemma sdstrim_ep_spec:
  assumes "int sp \<le> ep"
  shows "int sp \<le> sdstrim_ep c cset sp ep \<and> sdstrim_ep c cset sp ep \<le> ep
    \<and> (sdstrim_ep c cset sp ep = int sp \<or> \<not> strchr cset (c ! nat (sdstrim_ep c cset sp ep)))
    \<and> (\<forall>k. sdstrim_ep c cset sp ep < int k \<and> int k \<le> ep \<longrightarrow> strchr cset (c ! k))"
  using assms
proof (induction c cset sp ep rule: sdstrim_ep.induct)
  case (1 c cset sp ep)
  show ?case
  proof (cases "ep > int sp \<and> strchr cset (c ! nat ep)")
    case True
    then have IH: "int sp \<le> sdstrim_ep c cset sp (ep - 1) \<and> sdstrim_ep c cset sp (ep - 1) \<le> ep - 1
      \<and> (sdstrim_ep c cset sp (ep - 1) = int sp \<or> \<not> strchr cset (c ! nat (sdstrim_ep c cset sp (ep - 1))))
      \<and> (\<forall>k. sdstrim_ep c cset sp (ep - 1) < int k \<and> int k \<le> ep - 1 \<longrightarrow> strchr cset (c ! k))"
      by (intro 1) auto
    have "strchr cset (c ! k)" if "sdstrim_ep c cset sp (ep - 1) < int k" "int k \<le> ep" for k
      using that IH True by (cases "int k = ep") auto
    moreover have "sdstrim_ep c cset sp ep = sdstrim_ep c cset sp (ep - 1)"
      using True by (subst sdstrim_ep.simps) simp
    ultimately show ?thesis using IH by auto
  next
    case False
    moreover have "sdstrim_ep c cset sp ep = ep"
      using False by (subst sdstrim_ep.simps) auto
    ultimately show ?thesis using 1(2) by auto
  qed
qed

lemma dropWhile_rev_suffix:
  assumes "\<forall>z \<in> set zs. P z" and "ys \<noteq> []" and "\<not> P (last ys)"
  shows "rev (dropWhile P (rev (ys @ zs))) = ys"
proof -
  have "dropWhile P (rev zs @ rev ys) = dropWhile P (rev ys)"
    using assms(1) by (intro dropWhile_append2) simp
  also have "\<dots> = rev ys"
    using assms(2,3) by (cases "rev ys") (auto simp: last_rev dropWhile_eq_self_iff hd_rev)
  finally show ?thesis by simp
qed

lemma sdstrim_len:
  assumes "sp = sdstrim_sp c cset 0" and "ep = sdstrim_ep c cset sp (int (length c) - 1)"
    and "n = (if int sp > ep then 0 else nat (ep - int sp) + 1)"
  shows "sp + n \<le> length c \<and> take n (drop sp c) = trim_both (strchr cset) c"
proof (cases "sp < length c")
  case True
  have sp: "sp = length (takeWhile (strchr cset) c)" using assms(1) by (simp add: sdstrim_sp_eq)
  have drop: "drop sp c = dropWhile (strchr cset) c" by (simp add: sp dropWhile_eq_drop)
  have hd: "\<not> strchr cset (c ! sp)" using True by (simp add: sp nth_length_takeWhile)
  have ep: "int sp \<le> ep" "ep \<le> int (length c) - 1" "ep = int sp \<or> \<not> strchr cset (c ! nat ep)"
    "\<And>k. ep < int k \<Longrightarrow> int k \<le> int (length c) - 1 \<Longrightarrow> strchr cset (c ! k)"
    using sdstrim_ep_spec[of sp "int (length c) - 1" c cset] True by (auto simp: assms(2))
  define e where "e = nat ep"
  have e: "sp \<le> e" "e < length c" "\<not> strchr cset (c ! e)" "n = e - sp + 1"
    using ep hd assms(3) by (auto simp: e_def nat_diff_distrib)
  have tail: "\<forall>z \<in> set (drop (e + 1) c). strchr cset z"
    using ep(1,4) by (auto simp: e_def in_set_conv_nth)
  have split: "drop sp c = take n (drop sp c) @ drop (e + 1) c"
    using e append_take_drop_id[of n "drop sp c"] by simp
  have "last (take n (drop sp c)) = c ! e"
    using e by (subst last_conv_nth) (auto simp: min_def intro!: arg_cong [of _ _ "(!) c"])
  then have "rev (dropWhile (strchr cset) (rev (take n (drop sp c) @ drop (e + 1) c))) = take n (drop sp c)"
    using dropWhile_rev_suffix[OF tail, of "take n (drop sp c)"] e by auto
  then have "rev (dropWhile (strchr cset) (rev (drop sp c))) = take n (drop sp c)"
    by (simp only: split [symmetric])
  then show ?thesis using e by (simp add: trim_both_def drop)
next
  case False
  then have "length (takeWhile (strchr cset) c) = length c"
    using assms(1) length_takeWhile_le[of "strchr cset" c] by (simp add: sdstrim_sp_eq)
  then have "sp = length c" "dropWhile (strchr cset) c = []"
    using assms(1) by (simp_all add: sdstrim_sp_eq dropWhile_eq_drop)
  moreover have "n = 0"
  proof -
    have "sdstrim_ep c cset (length c) (int (length c) - 1) = int (length c) - 1"
      by (subst sdstrim_ep.simps) simp
    then show ?thesis using assms(2,3) \<open>sp = length c\<close> by simp
  qed
  ultimately show ?thesis by (simp add: trim_both_def del: dropWhile_eq_Nil_conv)
qed

text \<open>
  \<open>sdstrim\<close> removes from both ends exactly the bytes that \<open>strchr\<close> finds in the set, keeps the
  rest in order, and never fails or leaves the buffer. (\<open>strchr\<close> also finds the terminator, so zero
  bytes at the ends go too.)
\<close>

lemma sdstrim_correct:
  assumes "sds_inv s" and "0 \<in> set cset"
  shows "\<exists>s'. sdstrim s cset = Inr s' \<and> sds_inv s' \<and> sds_val s' = trim_both (strchr cset) (sds_val s)"
proof -
  define c where "c = sds_val s"
  define sp where "sp = sdstrim_sp c cset 0"
  define ep where "ep = sdstrim_ep c cset sp (int (length c) - 1)"
  define n where "n = (if int sp > ep then 0 else nat (ep - int sp) + 1)"
  have spn: "sp + n \<le> length c" "take n (drop sp c) = trim_both (strchr cset) c"
    using sdstrim_len[OF sp_def ep_def n_def] by auto
  have len: "length c = sdslen s" "sdslen s < length (sds_buf s)" "sdslen s \<le> sdsalloc s"
    using assms(1) by (auto simp: c_def sds_inv_def)
  have rd: "mem_read (sds_buf s) 0 (sdslen s) = Inr c"
    using len by (simp add: c_def sds_val_def)
  have tk: "take n (drop sp (sds_buf s)) = take n (drop sp c)"
    using spn(1) len by (simp add: c_def sds_val_def drop_take min_def)
  define b where "b = (if sp \<noteq> 0 then take n (drop sp c) @ drop n (sds_buf s) else sds_buf s)"
  have b: "length b = length (sds_buf s)" "take n b = take n (drop sp c)"
    using spn(1) len tk by (auto simp: b_def)
  have "sdstrim s cset = Inr (sdssetlen s n\<lparr>sds_buf := take n b @ 0 # drop (Suc n) b\<rparr>)"
    unfolding sdstrim_def rd bindE_simps sp_def[symmetric] ep_def[symmetric] n_def[symmetric] Let_def
    using assms(2) spn(1) len tk b(1) by (auto simp: strlen_def b_def)
  then show ?thesis
    using sds_terminate[OF assms(1) b(1), of n] spn len b(2) by (simp add: c_def)
qed

theorem sdstrim_witness:
  "\<exists>s'. sdstrim (sds_of [32, 65, 66, 32]) [32, 0] = Inr s' \<and> sds_inv s' \<and> sds_val s' = [65, 66]"
  using sdstrim_correct[of "sds_of [32, 65, 66, 32]" "[32, 0]"] by (simp add: trim_both_def strchr_def)


text \<open>The inclusive range \<open>start..end\<close>, where a negative index counts from the end.\<close>

definition slice_index :: "nat \<Rightarrow> int \<Rightarrow> int" where
  "slice_index n x = (if x < 0 then max 0 (int n + x) else x)"

definition sds_slice :: "'a list \<Rightarrow> int \<Rightarrow> int \<Rightarrow> 'a list" where
  "sds_slice v start end =
     (let i = slice_index (length v) start; j = slice_index (length v) end
      in if i > j then [] else take (nat (j - i + 1)) (drop (nat i) v))"

lemma sdsrange_index_eq:
  "n < 2 ^ 31 \<Longrightarrow> - (2 ^ 31) \<le> x \<Longrightarrow> x < 2 ^ 31 \<Longrightarrow>
   sdsrange_index n x = slice_index n x \<and> 0 \<le> slice_index n x \<and> slice_index n x < 2 ^ 31"
  by (auto simp: sdsrange_index_def slice_index_def Let_def)

lemma sdsrange_count_eq:
  "i \<le> j \<Longrightarrow> j - i + 1 < 2 ^ 31 \<Longrightarrow> sdsrange_count i j = Inr (nat (j - i + 1)) \<and> nat (j - i + 1) \<noteq> 0"
  "i > j \<Longrightarrow> sdsrange_count i j = Inr 0"
  by (simp_all add: sdsrange_count_def)

lemma sdsrange_clip_eq:
  assumes "0 < n" "n < 2 ^ 31" "0 \<le> i" "i < 2 ^ 31" "0 \<le> j" "j < 2 ^ 31" "\<not> (i = 0 \<and> j = 2 ^ 31 - 1)"
  shows "sdsrange_clip n i j = Inr (if i > j then (0, 0) else (i, nat (min j (int n - 1) - i + 1)))"
proof -
  have n: "s32 (int n) = int n" "s32 (int n - 1) = int n - 1" using assms by auto
  have c: "sdsrange_count i j = Inr (nat (j - i + 1))" "nat (j - i + 1) \<noteq> 0" if "i \<le> j"
    using sdsrange_count_eq(1)[OF that] assms(3-) by auto
  consider "i > j" | "i \<le> j" "i \<ge> int n" | "i \<le> j" "i < int n" "j \<ge> int n" | "i \<le> j" "j < int n" by linarith
  then show ?thesis
  proof cases
    case 1
    then show ?thesis by (simp add: sdsrange_clip_def sdsrange_count_eq(2))
  next
    case 2
    then show ?thesis using c[OF 2(1)] assms(1) by (simp add: sdsrange_clip_def n)
  next
    case 3
    then show ?thesis
      using c[OF 3(1)] assms sdsrange_count_eq(1)[of i "int n - 1"] by (simp add: sdsrange_clip_def n min_def)
  next
    case 4
    then show ?thesis using c[OF 4(1)] assms by (simp add: sdsrange_clip_def n min_def)
  qed
qed

lemma sdsrange_ok:
  assumes inv: "sds_inv s" and len: "sdslen s < 2 ^ 31" and False: "sdslen s \<noteq> 0"
    and st: "- (2 ^ 31) \<le> start" "start < 2 ^ 31" and en: "- (2 ^ 31) \<le> end" "end < 2 ^ 31"
    and ov: "\<not> (slice_index (sdslen s) start = 0 \<and> end = 2 ^ 31 - 1)"
  shows "\<exists>s'. sdsrange s start end = Inr s' \<and> sds_inv s' \<and> sds_val s' = sds_slice (sds_val s) start end"
proof -
  define n where "n = sdslen s"
  define i where "i = slice_index n start"
  define j where "j = slice_index n end"
  define k where "k = (if i > j then 0 else nat (min j (int n - 1) - i + 1))"
  define st' where "st' = (if i > j then 0 else i)"
  have i: "sdsrange_index n start = i" "0 \<le> i" "i < 2 ^ 31"
    and j: "sdsrange_index n end = j" "0 \<le> j" "j < 2 ^ 31"
    using sdsrange_index_eq[of n start] sdsrange_index_eq[of n "end"] st en len
    by (auto simp: i_def j_def n_def)
  have no: "\<not> (i = 0 \<and> j = 2 ^ 31 - 1)"
    using ov en(2) len unfolding i_def j_def n_def by (auto simp: slice_index_def split: if_splits)
  have clip: "sdsrange_clip n i j = Inr (st', k)"
    using sdsrange_clip_eq[of n i j] i j False len no by (simp add: n_def st'_def k_def)
  have buf: "n < length (sds_buf s)" "n \<le> sdsalloc s" using inv by (auto simp: sds_inv_def n_def)
  have kn: "k \<noteq> 0 \<Longrightarrow> nat i + k \<le> n" using i(2) by (auto simp: k_def)
  then have k: "k \<le> n" by (cases "k = 0") auto
  define b where "b = (if st' \<noteq> 0 \<and> k \<noteq> 0 then take k (drop (nat i) (sds_buf s)) @ drop k (sds_buf s)
                       else sds_buf s)"
  have b: "length b = length (sds_buf s)" using kn buf by (auto simp: b_def)
  have bk: "take k b = take k (drop (nat i) (sds_buf s))"
    using kn buf by (auto simp: b_def st'_def k_def split: if_splits)
  have st'i: "k \<noteq> 0 \<Longrightarrow> st' = i" by (auto simp: st'_def k_def)
  have "sdsrange s start end = Inr (sdssetlen s k\<lparr>sds_buf := take k b @ 0 # drop (Suc k) b\<rparr>)"
    using False buf k kn st'i b unfolding sdsrange_def Let_def n_def[symmetric] i(1) j(1) clip
    by (auto simp: b_def)
  moreover have "sds_slice (sds_val s) start end = take k b"
  proof -
    have "length (sds_val s) = n" using inv by (simp add: n_def)
    then have "sds_slice (sds_val s) start end = (if i > j then [] else take (nat (j - i + 1)) (drop (nat i) (take n (sds_buf s))))"
      by (simp add: sds_slice_def Let_def i_def j_def sds_val_def n_def)
    also have "\<dots> = take k (drop (nat i) (sds_buf s))"
      using i(2) by (auto simp: k_def drop_take min_def nat_diff_distrib intro!: arg_cong2 [of _ _ _ _ take])
    finally show ?thesis by (simp add: bk)
  qed
  ultimately show ?thesis
    using sds_terminate[OF inv b, of k] k buf(2) by simp
qed

lemma sdsrange_overflow:
  assumes "sdslen s < 2 ^ 31" "sdslen s \<noteq> 0" "- (2 ^ 31) \<le> start" "start < 2 ^ 31"
    and "slice_index (sdslen s) start = 0"
  shows "sdsrange s start (2 ^ 31 - 1) = Inl UndefBehaviour"
proof -
  have "sdsrange_index (sdslen s) start = 0" "sdsrange_index (sdslen s) (2 ^ 31 - 1) = 2 ^ 31 - 1"
    using sdsrange_index_eq[of "sdslen s" start] assms by (simp_all add: sdsrange_index_def)
  moreover have "sdsrange_clip (sdslen s) 0 (2 ^ 31 - 1) = Inl UndefBehaviour"
    by (simp add: sdsrange_clip_def sdsrange_count_def)
  ultimately show ?thesis using assms(2) by (simp add: sdsrange_def)
qed

text \<open>
  C36. \<open>sdsrange\<close> keeps the bytes from \<open>start\<close> to \<open>end\<close> inclusive, negative indexes counting from the
  end, out-of-range indexes clipped, for every pair of \<open>int\<close> indexes except one kind: on a non-empty
  string, when the range starts at the first byte and \<open>end\<close> is \<open>INT_MAX\<close>, computing the number of bytes
  overflows \<open>int\<close> before the range is clipped.
\<close>

theorem sdsrange_correct:
  assumes inv: "sds_inv s" and len: "sdslen s < 2 ^ 31"
    and st: "- (2 ^ 31) \<le> start" "start < 2 ^ 31" and en: "- (2 ^ 31) \<le> end" "end < 2 ^ 31"
  shows "if 0 < sdslen s \<and> slice_index (sdslen s) start = 0 \<and> end = 2 ^ 31 - 1
    then sdsrange s start end = Inl UndefBehaviour
    else \<exists>s'. sdsrange s start end = Inr s' \<and> sds_inv s' \<and> sds_val s' = sds_slice (sds_val s) start end"
proof (cases "sdslen s = 0")
  case True
  then have "sds_val s = []" by (simp add: sds_val_def)
  with True inv show ?thesis by (simp add: sdsrange_def sds_slice_def Let_def)
next
  case False
  then show ?thesis using sdsrange_ok[OF inv len False st en] sdsrange_overflow[OF len False st]
    by (cases "slice_index (sdslen s) start = 0 \<and> end = 2 ^ 31 - 1") simp_all
qed

theorem sdsrange_witness:
  "\<exists>s'. sdsrange (sds_of [65, 66, 67, 68]) 1 (- 2) = Inr s' \<and> sds_inv s' \<and> sds_val s' = [66, 67]"
  using sdsrange_correct[of "sds_of [65, 66, 67, 68]" 1 "- 2"] by (simp add: sds_slice_def slice_index_def Let_def)


subsection \<open>Comparison\<close>

lemma memcmp_take: "memcmp (take (min (length a) (length b)) a) (take (min (length a) (length b)) b) = memcmp a b"
  by (induction a b rule: memcmp.induct) auto

lemma memcmp_lex:
  "memcmp a b < 0 \<or> (memcmp a b = 0 \<and> length a < length b) \<longleftrightarrow> ord_class.lexordp a b"
  by (induction a b rule: memcmp.induct) (auto simp: ord_class.lexordp_simps neq_Nil_conv)

lemma memcmp_eq: "memcmp a b = 0 \<and> length a = length b \<longleftrightarrow> a = b"
  by (induction a b rule: memcmp.induct) auto

text \<open>
  \<open>sdscmp\<close> decides the lexicographic order on unsigned bytes, with a proper prefix smaller, and
  returns zero exactly on equal strings (for lengths below $2^{31}$, where the length difference
  fits the \<open>int\<close> result).
\<close>

lemma sdscmp_correct:
  assumes "sds_inv s1" "sds_inv s2" and "sdslen s1 < 2 ^ 31" "sdslen s2 < 2 ^ 31"
  shows "\<exists>r. sdscmp s1 s2 = Inr r \<and> (r = 0 \<longleftrightarrow> sds_val s1 = sds_val s2)
    \<and> (r < 0 \<longleftrightarrow> ord_class.lexordp (sds_val s1) (sds_val s2))"
proof -
  let ?a = "sds_val s1" and ?b = "sds_val s2"
  have len: "sdslen s1 < length (sds_buf s1)" "sdslen s2 < length (sds_buf s2)"
    using assms(1,2) by (auto simp: sds_inv_def)
  have cmp: "memcmp (take k (sds_buf s1)) (take k (sds_buf s2)) = memcmp ?a ?b"
    if "k = (if sdslen s1 < sdslen s2 then sdslen s1 else sdslen s2)" for k
    using that len memcmp_take[of ?a ?b] by (auto simp: sds_val_def min_def split: if_splits)
  have "sdscmp s1 s2 = Inr (if memcmp ?a ?b = 0 then int (sdslen s1) - int (sdslen s2) else memcmp ?a ?b)"
    using len assms(3,4) cmp by (auto simp: sdscmp_def Let_def)
  then show ?thesis
    using memcmp_lex[of ?a ?b] memcmp_eq[of ?a ?b] assms(1,2) by auto
qed

theorem sdscmp_witness:
  "\<exists>r. sdscmp (sds_of [65, 66]) (sds_of [65, 200]) = Inr r \<and> r < 0"
  using sdscmp_correct[of "sds_of [65, 66]" "sds_of [65, 200]"] by auto


subsection \<open>Trimming the allocation and adjusting the length\<close>

text \<open>
  \<open>sdsRemoveFreeSpace\<close> keeps the string and the invariant and leaves no free space: the buffer is
  exactly the string and its terminator, also when the header changes to a smaller type.
\<close>

lemma sdsRemoveFreeSpace_yields:
  assumes m: "malloc_ok m" and inv: "sds_inv s" and n: "sdslen s + 18 < 2 ^ 64"
  shows "yields m (sdsRemoveFreeSpace m s)
     (\<lambda>s'. sds_inv s' \<and> sds_val s' = sds_val s \<and> sdsavail s' = 0
          \<and> length (sds_buf s') = sdslen s + 1)"
proof -
  define type where "type = sdsReqType (sdslen s)"
  have sz: "u64 (sdsHdrSize t + sdslen s + 1) = sdsHdrSize t + sdslen s + 1" for t
    using n sdsHdrSize_le[of t] by (intro u64_id) linarith
  have len: "sdslen s < length (sds_buf s)" "sds_buf s ! sdslen s = 0" using inv by (auto simp: sds_inv_def)
  have post: "sds_inv (sdssetalloc s' (sdslen s)) \<and> sds_val (sdssetalloc s' (sdslen s)) = sds_val s
      \<and> sdsavail (sdssetalloc s' (sdslen s)) = 0 \<and> length (sds_buf (sdssetalloc s' (sdslen s))) = sdslen s + 1"
    if s': "sdslen s' = sdslen s" "sds_buf s' = take (sdslen s + 1) (sds_buf s)"
      "\<And>f. sds_hdr s' = Sdshdr5 f \<Longrightarrow> f AND 7 = 0" for s'
  proof -
    have "sds_fits s' (sdslen s)" using sds_fits_len[of s'] s'(1) by simp
    then have al: "sdsalloc (sdssetalloc s' (sdslen s)) = sdslen s"
      using s'(1) by (cases "sds_type s' = SDS_TYPE_5") (simp_all add: sdsalloc_type5)
    then have "sds_inv (sdssetalloc s' (sdslen s))"
      using s' len by (intro sds_invI) (auto simp: sds_setalloc_flags)
    then show ?thesis using s' al len by (simp add: sdsavail_eq sds_val_def)
  qed
  let ?P = "\<lambda>s'. sdslen s' = sdslen s \<and> sds_buf s' = take (sdslen s + 1) (sds_buf s)
         \<and> (\<forall>f. sds_hdr s' = Sdshdr5 f \<longrightarrow> f AND 7 = 0)"
  have re: "yields m (bindE (sds_realloc_buf m h (sds_buf s) (h + sdslen s + 1))
      (\<lambda>b. Inr (s\<lparr>sds_buf := b\<rparr>))) ?P" for h
    by (rule yields_bindE [OF sds_realloc_buf_yields [OF m]])
      (use len inv in \<open>auto simp: sds_inv_def dest: spec [of _ "sdslen s + 1"]\<close>)
  have fits: "sds_fits \<lparr>sds_hdr = sds_blank_hdr type, sds_buf = b\<rparr> (sdslen s)" for b
    using n by (intro sds_fits_blank) (auto simp: type_def)
  have ne: "yields m (bindE (s_malloc m (sdsHdrSize type + sdslen s + 1)) (\<lambda>newsh.
      bindE (mem_read (sds_buf s) 0 (sdslen s + 1)) (\<lambda>old.
      bindE (mem_write (drop (sdsHdrSize type) newsh) 0 old) (\<lambda>b.
        Inr (sdssetlen \<lparr>sds_hdr = sds_blank_hdr type, sds_buf = b\<rparr> (sdslen s)))))) ?P"
    by (rule yields_bindE [OF yields_s_malloc [OF m]])
      (use len fits in \<open>auto simp: sds_setlen_flags\<close>)
  show ?thesis
    unfolding sdsRemoveFreeSpace_def Let_def type_def[symmetric] sz
    by (rule yields_bindE [where P = ?P]) (use post re ne in auto)
qed

theorem sdsRemoveFreeSpace_witness:
  "yields calloc_alloc (sdsRemoveFreeSpace calloc_alloc \<lparr>sds_hdr = Sdshdr16 2 4, sds_buf = [65, 66, 0, 0, 0]\<rparr>)
     (\<lambda>s'. sds_inv s' \<and> sds_val s' = [65, 66] \<and> sdsavail s' = 0 \<and> length (sds_buf s') = 3)"
  using sdsRemoveFreeSpace_yields[of calloc_alloc "\<lparr>sds_hdr = Sdshdr16 2 4, sds_buf = [65, 66, 0, 0, 0]\<rparr>"]
  by (simp add: sds_inv_def sds_acc_defs sds_val_def)


lemma uint_drop_bit3_less: "uint (drop_bit 3 (f :: byte)) < 32"
proof -
  have "int (unat (drop_bit 3 f)) < 32" using drop_bit3_less[of f] by linarith
  then show ?thesis by simp
qed

lemma sdsIncrLen_pre_iff:
  assumes "sds_type s \<noteq> SDS_TYPE_5" and "sdslen s \<le> sdsalloc s"
  shows "sdsIncrLen_pre s incr \<longleftrightarrow>
    (if incr \<ge> 0 then int (sdslen s) + incr \<le> int (sdsalloc s) else 0 \<le> int (sdslen s) + incr)"
  using assms
  by (cases "sds_hdr s")
    (auto simp: sdsIncrLen_pre_def sds_acc_defs uint_nat unat_sub_le simp del: of_nat_unat)

text \<open>Whenever the assertion holds, the header becomes that of the adjusted length.\<close>

lemma sdsIncrLen_eq:
  assumes inv: "sds_inv s" and pre: "sdsIncrLen_pre s incr"
  shows "0 \<le> int (sdslen s) + incr" and
    "sdsIncrLen s incr = (let n = nat (int (sdslen s) + incr) in
       bindE (mem_write (sds_buf s) n [0]) (\<lambda>b. Inr (sdssetlen s n\<lparr>sds_buf := b\<rparr>)))"
proof -
  show nn: "0 \<le> int (sdslen s) + incr"
    using pre by (auto simp: sdsIncrLen_pre_def sdslen_def split: sdshdr.splits)
  define n where "n = nat (int (sdslen s) + incr)"
  have fits: "sds_fits s n"
  proof (cases "sds_type s = SDS_TYPE_5 \<or> incr < 0")
    case True
    then show ?thesis
    proof
      assume "sds_type s = SDS_TYPE_5"
      then obtain f where f: "sds_hdr s = Sdshdr5 f" by (auto simp: sds_type_def split: sdshdr.splits)
      then show ?thesis using pre uint_drop_bit3_less[of f]
        by (auto simp: n_def sds_acc_defs sdsIncrLen_pre_def)
    qed (auto simp: n_def intro: sds_fits_mono [OF sds_fits_len])
  next
    case False
    then have "n \<le> sdsalloc s"
      using pre inv by (auto simp: n_def sds_inv_def sdsIncrLen_pre_iff split: if_splits)
    then show ?thesis by (rule sds_fits_mono [OF sds_fits_alloc])
  qed
  have "(case sds_hdr s of
              Sdshdr5 f \<Rightarrow> Sdshdr5 (push_bit 3 (drop_bit 3 f + word_of_int incr))
            | Sdshdr8 l a \<Rightarrow> Sdshdr8 (l + word_of_int incr) a
            | Sdshdr16 l a \<Rightarrow> Sdshdr16 (l + word_of_int incr) a
            | Sdshdr32 l a \<Rightarrow> Sdshdr32 (l + word_of_int incr) a
            | Sdshdr64 l a \<Rightarrow> Sdshdr64 (l + word_of_int incr) a) = sds_hdr (sdssetlen s n)"
    using nn by (cases "sds_hdr s") (simp_all add: n_def sds_acc_defs)
  then have hdr: "s\<lparr>sds_hdr := (case sds_hdr s of
              Sdshdr5 f \<Rightarrow> Sdshdr5 (push_bit 3 (drop_bit 3 f + word_of_int incr))
            | Sdshdr8 l a \<Rightarrow> Sdshdr8 (l + word_of_int incr) a
            | Sdshdr16 l a \<Rightarrow> Sdshdr16 (l + word_of_int incr) a
            | Sdshdr32 l a \<Rightarrow> Sdshdr32 (l + word_of_int incr) a
            | Sdshdr64 l a \<Rightarrow> Sdshdr64 (l + word_of_int incr) a)\<rparr> = sdssetlen s n"
    by (simp add: sdssetlen_def)
  show "sdsIncrLen s incr = (let n = nat (int (sdslen s) + incr) in
       bindE (mem_write (sds_buf s) n [0]) (\<lambda>b. Inr (sdssetlen s n\<lparr>sds_buf := b\<rparr>)))"
    unfolding sdsIncrLen_def hdr Let_def n_def[symmetric] using pre fits by simp
qed

text \<open>
  When its assertion holds, \<open>sdsIncrLen\<close> makes the bytes already stored past the end part of the
  string (or drops bytes from the right) and terminates it inside the allocation. The 5 bit header
  is excluded for a positive increment, where the assertion does not look at the allocation.
\<close>

lemma sdsIncrLen_correct:
  assumes inv: "sds_inv s" and pre: "sdsIncrLen_pre s incr"
    and ok: "sds_type s \<noteq> SDS_TYPE_5 \<or> incr < 0"
  shows "\<exists>s'. sdsIncrLen s incr = Inr s' \<and> sds_inv s'
    \<and> sds_val s' = take (nat (int (sdslen s) + incr)) (sds_buf s)"
proof -
  let ?n = "nat (int (sdslen s) + incr)"
  have "?n \<le> sdsalloc s"
    using pre inv ok by (cases "incr < 0") (auto simp: sds_inv_def sdsIncrLen_pre_iff split: if_splits)
  moreover from this have "?n < length (sds_buf s)" using inv by (simp add: sds_inv_def)
  ultimately show ?thesis
    using sds_terminate[OF inv refl, of ?n] sdsIncrLen_eq(2)[OF inv pre] by (simp add: Let_def)
qed

theorem sdsIncrLen_witness:
  "\<exists>s'. sdsIncrLen \<lparr>sds_hdr = Sdshdr8 1 3, sds_buf = [65, 0, 67, 0]\<rparr> 2 = Inr s' \<and> sds_inv s'
     \<and> sds_val s' = [65, 0, 67]"
  using sdsIncrLen_correct[of "\<lparr>sds_hdr = Sdshdr8 1 3, sds_buf = [65, 0, 67, 0]\<rparr>" 2]
  by (simp add: sds_inv_def sds_acc_defs sdsIncrLen_pre_def)


section \<open>Main properties\<close>

text \<open>
  C23. \<open>sdsMakeRoomFor\<close> returns a well-formed string with the same bytes and at least \<open>addlen\<close> free
  bytes, whatever header type it starts from or has to change to, unless allocation failed.
\<close>

theorem sdsMakeRoomFor_room:
  assumes "malloc_ok m" and "sds_inv s" and "sdslen s + addlen + 2 ^ 20 + 18 < 2 ^ 64"
  shows "yields m (sdsMakeRoomFor m s addlen)
    (\<lambda>s'. sds_inv s' \<and> sds_val s' = sds_val s \<and> addlen \<le> sdsavail s' \<and> sdslen s' + addlen < length (sds_buf s'))"
proof (rule yields_mono [OF sdsMakeRoomFor_yields [OF assms]])
  fix s' assume e: "sds_extends s addlen s'"
  then show "sds_inv s' \<and> sds_val s' = sds_val s \<and> addlen \<le> sdsavail s' \<and> sdslen s' + addlen < length (sds_buf s')"
    using sds_extendsD(4,5)[OF e] by (simp add: sds_extends_def)
qed

theorem sdsMakeRoomFor_witness:
  "yields calloc_alloc (sdsMakeRoomFor calloc_alloc \<lparr>sds_hdr = Sdshdr5 16, sds_buf = [65, 66, 0]\<rparr> 100)
    (\<lambda>s'. sds_inv s' \<and> sds_val s' = [65, 66] \<and> 100 \<le> sdsavail s' \<and> sdslen s' + 100 < length (sds_buf s'))"
  using sdsMakeRoomFor_room[of calloc_alloc "\<lparr>sds_hdr = Sdshdr5 16, sds_buf = [65, 66, 0]\<rparr>" 100]
  by (simp add: sds_inv_def sds_acc_defs sds_val_def)

text \<open>
  C28. Appending and copying: \<open>sdscatlen\<close> appends \<open>len\<close> bytes, \<open>sdscpylen\<close> replaces the string by
  them and \<open>sdsgrowzero\<close> pads with zero bytes up to \<open>len\<close>. All three keep the invariant, and fail
  only when allocation failed.
\<close>

theorem sds_append_copy_grow:
  assumes "malloc_ok m" and "sds_inv s" and "len \<le> length t" and "sdslen s + len + 2 ^ 20 + 18 < 2 ^ 64"
  shows "yields m (sdscatlen m s t len) (\<lambda>s'. sds_inv s' \<and> sds_val s' = sds_val s @ take len t)
    \<and> yields m (sdscpylen m s t len) (\<lambda>s'. sds_inv s' \<and> sds_val s' = take len t)
    \<and> yields m (sdsgrowzero m s len) (\<lambda>s'. sds_inv s' \<and> sds_val s' = sds_val s @ replicate (len - sdslen s) 0)"
  using sdscatlen_yields[OF assms] sdscpylen_yields[OF assms(1-3)] sdsgrowzero_yields[OF assms(1,2,4)] assms(4)
  by simp

theorem sds_append_copy_grow_witness:
  "yields calloc_alloc (sdscatlen calloc_alloc (sds_of [65]) [66, 67, 68] 2) (\<lambda>s'. sds_inv s' \<and> sds_val s' = [65, 66, 67])"
  using sds_append_copy_grow[of calloc_alloc "sds_of [65]" 2 "[66, 67, 68]"] by simp

text \<open>
  C39. The assertion of \<open>sdsIncrLen\<close> for the 5 bit header does not protect the buffer. On a well-formed
  string with that header it accepts every positive increment to a length below 32, and the terminator
  is then stored outside the buffer exactly when the buffer has no byte at the new length; otherwise the
  bytes already stored become part of the string. The buffer of a full string, as \<open>sdsnewlen\<close> makes it,
  ends with its terminator, so every accepted positive increment writes past its end.
\<close>

theorem sdsIncrLen_type5_overruns:
  assumes "sds_inv s" "sds_type s = SDS_TYPE_5" "0 < incr" "int (sdslen s) + incr < 32"
  shows "sdsIncrLen_pre s incr
    \<and> (if length (sds_buf s) \<le> sdslen s + nat incr then sdsIncrLen s incr = Inl OutOfBounds
        else \<exists>s'. sdsIncrLen s incr = Inr s' \<and> sdslen s' = sdslen s + nat incr
               \<and> take (sdslen s') (sds_buf s') = take (sdslen s') (sds_buf s))
    \<and> (length (sds_buf s) = sdslen s + 1 \<longrightarrow> sdsIncrLen s incr = Inl OutOfBounds)"
proof -
  obtain f where f: "sds_hdr s = Sdshdr5 f" using assms(2) by (auto simp: sds_type_def split: sdshdr.splits)
  have l: "int (sdslen s) = uint (drop_bit 3 f)" using f by (simp add: sdslen_def)
  have pre: "sdsIncrLen_pre s incr" using assms(3,4) l by (simp add: sdsIncrLen_pre_def f)
  have n: "nat (int (sdslen s) + incr) = sdslen s + nat incr" using assms(3) by (simp add: nat_add_distrib)
  have eq: "sdsIncrLen s incr = bindE (mem_write (sds_buf s) (sdslen s + nat incr) [0])
      (\<lambda>b. Inr (sdssetlen s (sdslen s + nat incr)\<lparr>sds_buf := b\<rparr>))"
    using sdsIncrLen_eq(2)[OF assms(1) pre] unfolding n Let_def .
  have "sdslen s + nat incr < 32" using assms(3,4) by linarith
  then have fits: "sds_fits s (sdslen s + nat incr)" by (simp add: sds_fits_def f)
  show ?thesis
  proof (cases "length (sds_buf s) \<le> sdslen s + nat incr")
    case True
    then show ?thesis using pre eq by (simp add: mem_write_def)
  next
    case False
    then show ?thesis using pre eq fits assms(3) by (auto simp: mem_write_def)
  qed
qed

theorem sdsIncrLen_type5_overruns_witness:
  "sdsIncrLen \<lparr>sds_hdr = Sdshdr5 24, sds_buf = [65, 66, 67, 0]\<rparr> 4 = Inl OutOfBounds"
  using sdsIncrLen_type5_overruns[of "\<lparr>sds_hdr = Sdshdr5 24, sds_buf = [65, 66, 67, 0]\<rparr>" 4]
  by (simp add: sds_inv_def sds_acc_defs)

end
