(* ===== verification/Decimal.thy ===== *)
theory Decimal
  imports Prelude
begin

text \<open>
  The decimal representation of integers as byte strings, the reference for the conversions of
  \<open>sds.c\<close> and \<open>util.c\<close>.
\<close>

fun dec_nat :: "nat \<Rightarrow> byte list" where
  "dec_nat n = (if n < 10 then [] else dec_nat (n div 10)) @ [word_of_nat (48 + n mod 10)]"

declare dec_nat.simps [simp del]

definition dec_int :: "int \<Rightarrow> byte list" where
  "dec_int x = (if x < 0 then 45 # dec_nat (nat (- x)) else dec_nat (nat x))"

text \<open>The value of a string of digits, most significant first.\<close>

definition digits_val :: "byte list \<Rightarrow> nat" where
  "digits_val ds = foldl (\<lambda>a d. a * 10 + (unat d - 48)) 0 ds"

lemma digits_val_snoc [simp]: "digits_val (ds @ [d]) = digits_val ds * 10 + (unat d - 48)"
  by (simp add: digits_val_def)

lemma digits_val_Nil [simp]: "digits_val [] = 0"
  by (simp add: digits_val_def)

lemma digits_val_single [simp]: "digits_val [d] = unat d - 48"
  by (simp add: digits_val_def)

lemma unat_digit [simp]: "n < 10 \<Longrightarrow> unat (word_of_nat (48 + n) :: byte) = 48 + n"
  by (simp add: unsigned_of_nat take_bit_eq_mod del: of_nat_add)

lemma isdigit_unat: "isdigit d \<longleftrightarrow> 48 \<le> unat d \<and> unat d \<le> 57"
  by (simp add: isdigit_def word_le_nat_alt)

lemma dec_nat_ne [simp]: "dec_nat n \<noteq> []"
  by (simp add: dec_nat.simps)

lemma digits_val_dec_nat [simp]: "digits_val (dec_nat n) = n"
proof (induction n rule: dec_nat.induct)
  case (1 n)
  then show ?case by (cases "n < 10") (simp_all add: dec_nat.simps[of n] del: of_nat_add)
qed

lemma dec_nat_digits: "\<forall>d \<in> set (dec_nat n). isdigit d"
proof (induction n rule: dec_nat.induct)
  case (1 n)
  then show ?case by (cases "n < 10") (simp_all add: dec_nat.simps[of n] isdigit_unat del: of_nat_add)
qed

lemma hd_dec_nat: "n \<noteq> 0 \<Longrightarrow> unat (hd (dec_nat n)) \<noteq> 48"
proof (induction n rule: dec_nat.induct)
  case (1 n)
  then show ?case by (cases "n < 10") (simp_all add: dec_nat.simps[of n] hd_append div_eq_0_iff del: of_nat_add)
qed

lemma length_dec_nat: "n < 10 ^ k \<Longrightarrow> 0 < k \<Longrightarrow> length (dec_nat n) \<le> k"
proof (induction k arbitrary: n)
  case (Suc k)
  show ?case
  proof (cases "n < 10")
    case True
    then show ?thesis by (simp add: dec_nat.simps[of n])
  next
    case False
    then have "0 < k" using Suc.prems by (cases k) auto
    moreover have "n div 10 < 10 ^ k" using Suc.prems by (simp add: less_mult_imp_div_less mult.commute)
    ultimately show ?thesis using False Suc.IH[of "n div 10"] by (simp add: dec_nat.simps[of n])
  qed
qed simp

lemma length_dec_nat_ge: "10 ^ k \<le> n \<Longrightarrow> k < length (dec_nat n)"
proof (induction k arbitrary: n)
  case (Suc k)
  have "10 ^ k \<le> n div 10" using Suc.prems by (simp add: div_le_mono[of "10 * 10 ^ k" n 10, simplified])
  moreover have "\<not> n < 10" using Suc.prems le_trans[of 10 "10 * 10 ^ k" n] by simp
  ultimately show ?case using Suc.IH[of "n div 10"] by (simp add: dec_nat.simps[of n])
qed simp

lemma length_dec_int: "- (2 ^ 63) \<le> x \<Longrightarrow> x < 2 ^ 63 \<Longrightarrow> length (dec_int x) \<le> 20"
  using length_dec_nat[of "nat (- x)" 19] length_dec_nat[of "nat x" 19]
  by (auto simp: dec_int_def nat_less_iff)

text \<open>No zero byte occurs in a representation.\<close>

lemma dec_nat_nonzero: "0 \<notin> set (dec_nat n)"
  using dec_nat_digits[of n] by (auto simp: isdigit_unat)

lemma dec_int_nonzero: "0 \<notin> set (dec_int x)"
  by (simp add: dec_int_def dec_nat_nonzero)

text \<open>The representation determines the integer.\<close>

lemma dec_nat_inj: "dec_nat a = dec_nat b \<Longrightarrow> a = b"
  by (metis digits_val_dec_nat)

lemma dec_nat_not_minus: "hd (dec_nat n) \<noteq> 45"
  using dec_nat_digits[of n] by (cases "dec_nat n") (auto simp: isdigit_unat)

lemma dec_int_inj: "dec_int a = dec_int b \<Longrightarrow> a = b"
  using dec_nat_not_minus[of "nat a"] dec_nat_not_minus[of "nat b"]
  by (auto simp: dec_int_def split: if_splits dest!: dec_nat_inj dest: arg_cong [of "_ # _" _ hd])

end
