(* ===== verification/SdsText.thy ===== *)
theory SdsText
  imports Sds Decimal
begin

text \<open>
  The text layer of \<open>redis/src/sds.c\<close>: integers to decimal, formatted append, splitting with a
  separator, the quoted representation of a string and the parser of quoted command lines, and
  joining.
\<close>

section \<open>Integers to decimal\<close>

text \<open>\<open>do { *p++ = '0'+(v%10); v /= 10; } while(v)\<close>: least significant digit first.\<close>

fun ll2str_digits :: "nat \<Rightarrow> byte list" where
  "ll2str_digits v =
     word_of_nat (48 + v mod 10) # (if v div 10 = 0 then [] else ll2str_digits (v div 10))"

declare ll2str_digits.simps [simp del]

text \<open>\<open>while(s < p) { aux = *s; *s = *p; *p = aux; s++; p--; }\<close>\<close>

function str_reverse_loop :: "byte list \<Rightarrow> nat \<Rightarrow> nat \<Rightarrow> byte list" where
  "str_reverse_loop b i j =
     (if i < j then str_reverse_loop (b[i := b ! j, j := b ! i]) (i + 1) (j - 1) else b)"
  by pat_completeness auto
termination
  by (relation "measure (\<lambda>(b, i, j). j - i)") auto

declare str_reverse_loop.simps [simp del]

definition SDS_LLSTR_SIZE :: nat where
  "SDS_LLSTR_SIZE = 21"

text \<open>
  The buffer \<open>s\<close> receives the digits, the sign, the terminator, and is then reversed up to the
  terminator. \<open>-value\<close> is taken at 64 bits, as for \<open>LLONG_MIN\<close> the compilers do.
\<close>

definition sdsll2str :: "byte list \<Rightarrow> int \<Rightarrow> (byte list \<times> nat) res" where
  "sdsll2str s value =
     (let v = (if value < 0 then to_size (- value) else nat value);
          str = ll2str_digits v @ (if value < 0 then [45] else []);
          l = length str
      in bindE (mem_write s 0 (str @ [0])) (\<lambda>b. Inr (str_reverse_loop b 0 (l - 1), l)))"

definition sdsull2str :: "byte list \<Rightarrow> nat \<Rightarrow> (byte list \<times> nat) res" where
  "sdsull2str s v =
     (let str = ll2str_digits v;
          l = length str
      in bindE (mem_write s 0 (str @ [0])) (\<lambda>b. Inr (str_reverse_loop b 0 (l - 1), l)))"

text \<open>\<open>buf\<close> is the uninitialised array on the stack.\<close>

definition sdsfromlonglong :: "allocator \<Rightarrow> byte list \<Rightarrow> int \<Rightarrow> sds res" where
  "sdsfromlonglong m buf value =
     bindE (sdsll2str buf value) (\<lambda>(b, len). sdsnewlen m (Some b) len)"

section \<open>Formatted append\<close>

text \<open>
  \<open>sdscatvprintf\<close>: \<open>out\<close> is the complete output of \<open>vsnprintf\<close> for the format and arguments,
  of which a call with size \<open>buflen\<close> stores the first \<open>buflen - 1\<close> bytes and a terminator. The
  loop doubles the buffer until the byte before the last is still zero.
\<close>

function sdscatvprintf_loop :: "allocator \<Rightarrow> sds \<Rightarrow> byte list \<Rightarrow> nat \<Rightarrow> sds res" where
  "sdscatvprintf_loop m s out buflen =
     (if 2 \<le> buflen \<and> buflen - 2 < length out \<and> out ! (buflen - 2) \<noteq> 0 then
        bindE (s_malloc m (buflen * 2)) (\<lambda>_. sdscatvprintf_loop m s out (buflen * 2))
      else sdscat m s (take (buflen - 1) out @ [0]))"
  by pat_completeness auto
termination
  by (relation "measure (\<lambda>(m, s, out, buflen). length out + 2 - buflen)") auto

declare sdscatvprintf_loop.simps [simp del]

definition sdscatvprintf :: "allocator \<Rightarrow> sds \<Rightarrow> byte list \<Rightarrow> byte list \<Rightarrow> sds res" where
  "sdscatvprintf m s fmt out =
     bindE (strlen fmt) (\<lambda>n.
       let buflen = n * 2 in
       if buflen > 1024
       then bindE (s_malloc m buflen) (\<lambda>_. sdscatvprintf_loop m s out buflen)
       else sdscatvprintf_loop m s out 1024)"

definition sdscatprintf :: "allocator \<Rightarrow> sds \<Rightarrow> byte list \<Rightarrow> byte list \<Rightarrow> sds res" where
  "sdscatprintf m s fmt out = sdscatvprintf m s fmt out"

text \<open>
  \<open>sdscatfmt\<close>. The variable arguments are a list; a directive that meets no argument of its type is
  undefined. \<open>i\<close> is the \<open>int\<close> position of the next byte to write, \<open>fmt\<close> the memory of the format
  string with its terminator. A format that ends in \<open>%\<close> steps over the terminator.
\<close>

datatype fmtarg =
    FmtStr "byte list" \<comment> \<open>\<open>%s\<close>: memory of a C string\<close>
  | FmtSds sds \<comment> \<open>\<open>%S\<close>\<close>
  | FmtInt int \<comment> \<open>\<open>%i\<close>\<close>
  | FmtLong int \<comment> \<open>\<open>%I\<close>\<close>
  | FmtUInt nat \<comment> \<open>\<open>%u\<close>\<close>
  | FmtULong nat \<comment> \<open>\<open>%U\<close>\<close>

definition fmt_write :: "sds \<Rightarrow> int \<Rightarrow> byte list \<Rightarrow> (sds \<times> int) res" where
  "fmt_write s i bs =
     (if i < 0 then Inl OutOfBounds
      else bindE (mem_write (sds_buf s) (nat i) bs) (\<lambda>b.
        Inr (sdsinclen (s\<lparr>sds_buf := b\<rparr>) (length bs), s32 (i + int (length bs)))))"

definition fmt_append :: "allocator \<Rightarrow> sds \<Rightarrow> int \<Rightarrow> byte list \<Rightarrow> nat \<Rightarrow> (sds \<times> int) res" where
  "fmt_append m s i str l =
     bindE (if sdsavail s < l then deref (sdsMakeRoomFor m s l) else Inr s) (\<lambda>s'.
     bindE (mem_read str 0 l) (fmt_write s' i))"

text \<open>The directives that take an argument; \<open>buf\<close> is the array on the stack.\<close>

fun fmt_arg :: "allocator \<Rightarrow> byte list \<Rightarrow> sds \<Rightarrow> int \<Rightarrow> byte \<Rightarrow> fmtarg \<Rightarrow> (sds \<times> int) res" where
  "fmt_arg m buf s i dir (FmtStr str) =
     (if dir = 0x73 then bindE (strlen str) (fmt_append m s i str) else Inl UndefBehaviour)"
| "fmt_arg m buf s i dir (FmtSds t) =
     (if dir = 0x53 then fmt_append m s i (sds_buf t) (sdslen t) else Inl UndefBehaviour)"
| "fmt_arg m buf s i dir (FmtInt n) =
     (if dir = 0x69 then bindE (sdsll2str buf n) (\<lambda>(b, l). fmt_append m s i b l) else Inl UndefBehaviour)"
| "fmt_arg m buf s i dir (FmtLong n) =
     (if dir = 0x49 then bindE (sdsll2str buf n) (\<lambda>(b, l). fmt_append m s i b l) else Inl UndefBehaviour)"
| "fmt_arg m buf s i dir (FmtUInt n) =
     (if dir = 0x75 then bindE (sdsull2str buf n) (\<lambda>(b, l). fmt_append m s i b l) else Inl UndefBehaviour)"
| "fmt_arg m buf s i dir (FmtULong n) =
     (if dir = 0x55 then bindE (sdsull2str buf n) (\<lambda>(b, l). fmt_append m s i b l) else Inl UndefBehaviour)"

definition fmt_directive :: "byte \<Rightarrow> bool" where
  "fmt_directive c \<longleftrightarrow> c \<in> {0x73, 0x53, 0x69, 0x49, 0x75, 0x55}"

fun sdscatfmt_loop ::
    "allocator \<Rightarrow> byte list \<Rightarrow> sds \<Rightarrow> int \<Rightarrow> byte list \<Rightarrow> fmtarg list \<Rightarrow> (sds \<times> int) res" where
  "sdscatfmt_loop m buf s i [] args = Inl OutOfBounds"
| "sdscatfmt_loop m buf s i (c # f) args =
     (if c = 0 then Inr (s, i) else
      bindE (if sdsavail s = 0 then deref (sdsMakeRoomFor m s 1) else Inr s) (\<lambda>s1.
        if c = 0x25 then
          (case f of
             [] \<Rightarrow> Inl OutOfBounds
           | next # f' \<Rightarrow>
               if fmt_directive next then
                 (case args of
                    [] \<Rightarrow> Inl UndefBehaviour
                  | a # args' \<Rightarrow>
                      bindE (fmt_arg m buf s1 i next a) (\<lambda>(s2, i').
                        sdscatfmt_loop m buf s2 i' f' args'))
               else bindE (fmt_write s1 i [next]) (\<lambda>(s2, i').
                      sdscatfmt_loop m buf s2 i' f' args))
        else bindE (fmt_write s1 i [c]) (\<lambda>(s2, i'). sdscatfmt_loop m buf s2 i' f args)))"

definition sdscatfmt :: "allocator \<Rightarrow> byte list \<Rightarrow> sds \<Rightarrow> byte list \<Rightarrow> fmtarg list \<Rightarrow> sds res" where
  "sdscatfmt m buf s fmt args =
     bindE (sdscatfmt_loop m buf s (s32 (int (sdslen s))) fmt args) (\<lambda>(s', i).
       if i < 0 then Inl OutOfBounds
       else bindE (mem_write (sds_buf s') (nat i) [0]) (\<lambda>b. Inr (s'\<lparr>sds_buf := b\<rparr>)))"

section \<open>Splitting with a separator\<close>

text \<open>
  The loop over \<open>j\<close> with its state: the start of the current token, the size of the token array
  and the tokens found. The array is grown when fewer than two slots are left; the number of slots is
  an \<open>int\<close>, so that doubling it may overflow. Storing into a slot that does not exist is out of bounds.
\<close>

definition sdssplitlen_grow :: "allocator \<Rightarrow> nat \<Rightarrow> nat \<Rightarrow> nat res" where
  "sdssplitlen_grow m slots elements =
     (if slots < elements + 2
      then (if slots * 2 \<ge> 2 ^ 31 then Inl UndefBehaviour
            else bindE (s_malloc m (8 * (slots * 2))) (\<lambda>_. Inr (slots * 2)))
      else Inr slots)"

definition sdssplitlen_store :: "allocator \<Rightarrow> nat \<Rightarrow> sds list \<Rightarrow> byte list \<Rightarrow> nat \<Rightarrow> sds list res" where
  "sdssplitlen_store m slots tokens t n =
     (if length tokens < slots
      then bindE (sdsnewlen m (Some t) n) (\<lambda>x. Inr (tokens @ [x]))
      else Inl OutOfBounds)"

function sdssplitlen_loop ::
    "allocator \<Rightarrow> byte list \<Rightarrow> nat \<Rightarrow> byte list \<Rightarrow> nat \<Rightarrow> nat \<Rightarrow> nat \<Rightarrow> nat \<Rightarrow> sds list \<Rightarrow> sds list res" where
  "sdssplitlen_loop m s len sep seplen j start slots tokens =
     (if j + (seplen - 1) < len then
        bindE (sdssplitlen_grow m slots (length tokens)) (\<lambda>slots'.
          if (seplen = 1 \<and> s ! j = sep ! 0) \<or> memcmp (take seplen (drop j s)) (take seplen sep) = 0
          then bindE (sdssplitlen_store m slots' tokens (drop start s) (j - start)) (\<lambda>tokens'.
                 sdssplitlen_loop m s len sep seplen (j + (seplen - 1) + 1) (j + seplen) slots' tokens')
          else sdssplitlen_loop m s len sep seplen (j + 1) start slots' tokens)
      else sdssplitlen_store m slots tokens (drop start s) (len - start))"
  by pat_completeness auto
termination
  by (relation "measure (\<lambda>(m, s, len, sep, seplen, j, _). len - j)") auto

declare sdssplitlen_loop.simps [simp del]

text \<open>A NULL result for invalid lengths is \<open>Inr None\<close>.\<close>

definition sdssplitlen ::
    "allocator \<Rightarrow> byte list \<Rightarrow> int \<Rightarrow> byte list \<Rightarrow> int \<Rightarrow> sds list option res" where
  "sdssplitlen m s len sep seplen =
     (if seplen < 1 \<or> len < 0 then Inr None
      else bindE (s_malloc m (8 * 5)) (\<lambda>_.
        if len = 0 then Inr (Some [])
        else if length s < nat len \<or> length sep < nat seplen then Inl OutOfBounds
        else bindE (sdssplitlen_loop m s (nat len) sep (nat seplen) 0 0 5 []) (\<lambda>t. Inr (Some t))))"

section \<open>Quoted representation\<close>

text \<open>\<open>"%02x"\<close> of an unsigned char.\<close>

definition hex_digit :: "nat \<Rightarrow> byte" where
  "hex_digit n = word_of_nat (if n < 10 then 48 + n else 87 + n)"

definition hex2 :: "byte \<Rightarrow> byte list" where
  "hex2 c = [hex_digit (unat c div 16), hex_digit (unat c mod 16)]"

text \<open>One iteration of the loop of \<open>sdscatrepr\<close>.\<close>

definition sdscatrepr_byte :: "allocator \<Rightarrow> sds \<Rightarrow> byte \<Rightarrow> sds res" where
  "sdscatrepr_byte m s c =
     (if c = 0x5C \<or> c = 0x22 then sdscatprintf m s (bytes_of [CHR 0x5C, CHR ''%'', CHR ''c''] @ [0]) [0x5C, c]
      else if c = 10 then sdscatlen m s [0x5C, 0x6E] 2
      else if c = 13 then sdscatlen m s [0x5C, 0x72] 2
      else if c = 9 then sdscatlen m s [0x5C, 0x74] 2
      else if c = 7 then sdscatlen m s [0x5C, 0x61] 2
      else if c = 8 then sdscatlen m s [0x5C, 0x62] 2
      else if isprint c then sdscatprintf m s (bytes_of ''%c'' @ [0]) [c]
      else sdscatprintf m s (bytes_of [CHR 0x5C, CHR ''x'', CHR ''%'', CHR ''0'', CHR ''2'', CHR ''x''] @ [0])
             ([0x5C, 0x78] @ hex2 c))"

fun sdscatrepr_loop :: "allocator \<Rightarrow> sds \<Rightarrow> byte list \<Rightarrow> sds res" where
  "sdscatrepr_loop m s [] = Inr s"
| "sdscatrepr_loop m s (c # p) = bindE (deref (sdscatrepr_byte m s c)) (\<lambda>s'. sdscatrepr_loop m s' p)"

definition sdscatrepr :: "allocator \<Rightarrow> sds \<Rightarrow> byte list \<Rightarrow> nat \<Rightarrow> sds res" where
  "sdscatrepr m s p len =
     bindE (mem_read p 0 len) (\<lambda>bs.
     bindE (deref (sdscatlen m s [0x22] 1)) (\<lambda>s'.
     bindE (sdscatrepr_loop m s' bs) (\<lambda>s''. sdscatlen m s'' [0x22] 1)))"

section \<open>Quoted command lines\<close>

definition is_hex_digit :: "byte \<Rightarrow> bool" where
  "is_hex_digit c \<longleftrightarrow> (48 \<le> c \<and> c \<le> 57) \<or> (97 \<le> c \<and> c \<le> 102) \<or> (65 \<le> c \<and> c \<le> 70)"

definition hex_digit_to_int :: "byte \<Rightarrow> nat" where
  "hex_digit_to_int c =
     (if 48 \<le> c \<and> c \<le> 57 then unat c - 48
      else if 97 \<le> c \<and> c \<le> 102 then unat c - 87
      else if 65 \<le> c \<and> c \<le> 70 then unat c - 55
      else 0)"

datatype qmode = NoQuote | InQ | InSq

text \<open>
  One iteration of the token loop of \<open>sdssplitargs\<close>, with the final \<open>if (*p) p++\<close>. The rest of the
  line is the list of bytes before its terminator, so \<open>*(p+i)\<close> past the end is the zero byte. An
  iteration appends a byte to the current token, enters a quoted mode, ends the token, or jumps to
  \<open>err\<close>; the number is the bytes consumed.
\<close>

datatype tokact = Emit byte nat | Enter qmode nat | TokDone nat | TokErr

definition byte_at :: "byte list \<Rightarrow> nat \<Rightarrow> byte" where
  "byte_at p i = (if i < length p then p ! i else 0)"

definition unescape :: "byte \<Rightarrow> byte" where
  "unescape c =
     (if c = 0x6E then 10 else if c = 0x72 then 13 else if c = 0x74 then 9
      else if c = 0x62 then 8 else if c = 0x61 then 7 else c)"

definition splitargs_step :: "qmode \<Rightarrow> byte list \<Rightarrow> tokact" where
  "splitargs_step mode p =
     (let c = byte_at p 0; c1 = byte_at p 1; step = (\<lambda>k. if byte_at p k \<noteq> 0 then k + 1 else k) in
      case mode of
        InQ \<Rightarrow>
          if c = 0x5C \<and> c1 = 0x78 \<and> is_hex_digit (byte_at p 2) \<and> is_hex_digit (byte_at p 3)
          then Emit (word_of_nat (hex_digit_to_int (byte_at p 2) * 16 + hex_digit_to_int (byte_at p 3)))
                 (step 3)
          else if c = 0x5C \<and> c1 \<noteq> 0 then Emit (unescape c1) (step 1)
          else if c = 0x22 then (if c1 \<noteq> 0 \<and> \<not> isspace c1 then TokErr else TokDone (step 0))
          else if c = 0 then TokErr
          else Emit c (step 0)
      | InSq \<Rightarrow>
          if c = 0x5C \<and> c1 = 0x27 then Emit 0x27 (step 1)
          else if c = 0x27 then (if c1 \<noteq> 0 \<and> \<not> isspace c1 then TokErr else TokDone (step 0))
          else if c = 0 then TokErr
          else Emit c (step 0)
      | NoQuote \<Rightarrow>
          if c = 32 \<or> c = 10 \<or> c = 13 \<or> c = 9 \<or> c = 0 then TokDone (step 0)
          else if c = 0x22 then Enter InQ (step 0)
          else if c = 0x27 then Enter InSq (step 0)
          else Emit c (step 0))"

lemma splitargs_step_progress:
  "splitargs_step mode p = Emit c k \<Longrightarrow> 0 < k \<and> p \<noteq> []"
  "splitargs_step mode p = Enter mode' k \<Longrightarrow> 0 < k \<and> p \<noteq> []"
  by (auto simp: splitargs_step_def Let_def byte_at_def is_hex_digit_def split: qmode.splits if_splits)

text \<open>The token loop. \<open>None\<close> is the jump to \<open>err\<close>.\<close>

function splitargs_token ::
    "allocator \<Rightarrow> qmode \<Rightarrow> byte list \<Rightarrow> sds \<Rightarrow> (sds \<times> byte list) option res" where
  "splitargs_token m mode p current =
     (case splitargs_step mode p of
        TokErr \<Rightarrow> Inr None
      | TokDone k \<Rightarrow> Inr (Some (current, drop k p))
      | Enter mode' k \<Rightarrow> splitargs_token m mode' (drop k p) current
      | Emit c k \<Rightarrow> bindE (deref (sdscatlen m current [c] 1)) (splitargs_token m mode (drop k p)))"
  by pat_completeness auto
termination
  by (relation "measure (\<lambda>(m, mode, p, current). length p)")
    (auto dest: splitargs_step_progress)

declare splitargs_token.simps [simp del]

lemma splitargs_step_done: "splitargs_step mode p = TokDone k \<Longrightarrow> byte_at p 0 \<noteq> 0 \<Longrightarrow> 0 < k"
  by (auto simp: splitargs_step_def Let_def split: qmode.splits if_splits)

lemma splitargs_token_rest:
  "splitargs_token m mode p cur = Inr (Some (tok, rest)) \<Longrightarrow>
   length rest \<le> length p \<and> (byte_at p 0 \<noteq> 0 \<longrightarrow> length rest < length p)"
proof (induction m mode p cur rule: splitargs_token.induct)
  case (1 m mode p cur)
  show ?case
  proof (cases "splitargs_step mode p")
    case (Emit c k)
    with "1.prems" obtain cur' where "deref (sdscatlen m cur [c] 1) = Inr cur'"
      "splitargs_token m mode (drop k p) cur' = Inr (Some (tok, rest))"
      by (subst (asm) splitargs_token.simps) (auto simp: bindE_eq_Inr)
    then have "length rest \<le> length p - k" using "1.IH"(1)[OF Emit] by simp
    with splitargs_step_progress(1)[OF Emit] show ?thesis by (auto simp: neq_Nil_conv)
  next
    case (Enter mode' k)
    with "1.prems" have "splitargs_token m mode' (drop k p) cur = Inr (Some (tok, rest))"
      by (subst (asm) splitargs_token.simps) simp
    then have "length rest \<le> length p - k" using "1.IH"(2)[OF Enter] by simp
    with splitargs_step_progress(2)[OF Enter] show ?thesis by (auto simp: neq_Nil_conv)
  next
    case (TokDone k)
    with "1.prems" have "rest = drop k p" by (subst (asm) splitargs_token.simps) simp
    with splitargs_step_done[OF TokDone] show ?thesis by (auto simp: byte_at_def split: if_splits)
  next
    case TokErr
    with "1.prems" show ?thesis by (subst (asm) splitargs_token.simps) simp
  qed
qed

text \<open>The outer loop: skip blanks, read a token, grow the vector.\<close>

function splitargs_loop :: "allocator \<Rightarrow> byte list \<Rightarrow> sds list \<Rightarrow> sds list option res" where
  "splitargs_loop m p vector =
     (if byte_at (dropWhile isspace p) 0 = 0 then
        (if vector = [] then bindE (s_malloc m 8) (\<lambda>_. Inr (Some vector)) else Inr (Some vector))
      else
        bindE (deref (sdsempty m)) (\<lambda>current.
        bindE (splitargs_token m NoQuote (dropWhile isspace p) current) (\<lambda>r.
          case r of
            None \<Rightarrow> Inr None
          | Some (tok, rest) \<Rightarrow>
              bindE (deref (s_malloc m (8 * (length vector + 1)))) (\<lambda>_.
                splitargs_loop m rest (vector @ [tok])))))"
  by pat_completeness auto
termination
proof (relation "measure (\<lambda>(m, p, vector). length p)", goal_cases)
  case (2 m p vector current r tokrest tok rest u)
  then have "length rest < length (dropWhile isspace p)" using splitargs_token_rest by blast
  then show ?case using length_dropWhile_le[of isspace p] by simp
qed simp

declare splitargs_loop.simps [simp del]

definition sdssplitargs :: "allocator \<Rightarrow> byte list \<Rightarrow> sds list option res" where
  "sdssplitargs m line =
     bindE (strlen line) (\<lambda>n. splitargs_loop m (take n line) [])"

section \<open>Joining\<close>

fun sdsjoin_loop :: "allocator \<Rightarrow> sds \<Rightarrow> byte list list \<Rightarrow> byte list \<Rightarrow> sds res" where
  "sdsjoin_loop m join [] sep = Inr join"
| "sdsjoin_loop m join [a] sep = sdscat m join a"
| "sdsjoin_loop m join (a # argv) sep =
     bindE (deref (sdscat m join a)) (\<lambda>join'.
     bindE (deref (sdscat m join' sep)) (\<lambda>join''. sdsjoin_loop m join'' argv sep))"

definition sdsjoin :: "allocator \<Rightarrow> byte list list \<Rightarrow> byte list \<Rightarrow> sds res" where
  "sdsjoin m argv sep =
     bindE (if argv = [] then sdsempty m else deref (sdsempty m)) (\<lambda>join. sdsjoin_loop m join argv sep)"

fun sdsjoinsds_loop :: "allocator \<Rightarrow> sds \<Rightarrow> sds list \<Rightarrow> byte list \<Rightarrow> nat \<Rightarrow> sds res" where
  "sdsjoinsds_loop m join [] sep seplen = Inr join"
| "sdsjoinsds_loop m join [a] sep seplen = sdscatsds m join a"
| "sdsjoinsds_loop m join (a # argv) sep seplen =
     bindE (deref (sdscatsds m join a)) (\<lambda>join'.
     bindE (deref (sdscatlen m join' sep seplen)) (\<lambda>join''. sdsjoinsds_loop m join'' argv sep seplen))"

definition sdsjoinsds :: "allocator \<Rightarrow> sds list \<Rightarrow> byte list \<Rightarrow> nat \<Rightarrow> sds res" where
  "sdsjoinsds m argv sep seplen =
     bindE (if argv = [] then sdsempty m else deref (sdsempty m))
       (\<lambda>join. sdsjoinsds_loop m join argv sep seplen)"

section \<open>Correctness\<close>

subsection \<open>Decimal output\<close>

lemma ll2str_digits_ne [simp]: "ll2str_digits n \<noteq> []"
  by (simp add: ll2str_digits.simps)

lemma rev_ll2str_digits: "rev (ll2str_digits n) = dec_nat n"
proof (induction n rule: ll2str_digits.induct)
  case (1 n)
  then show ?case
    by (simp add: ll2str_digits.simps[of n] dec_nat.simps[of n] div_eq_0_iff del: of_nat_add)
qed

lemma length_str_reverse_loop [simp]: "length (str_reverse_loop b i j) = length b"
  by (induction b i j rule: str_reverse_loop.induct) (subst str_reverse_loop.simps, auto)

lemma str_reverse_loop_nth:
  "j < length b \<Longrightarrow> k < length b \<Longrightarrow>
   str_reverse_loop b i j ! k = (if i \<le> k \<and> k \<le> j then b ! (i + j - k) else b ! k)"
proof (induction b i j rule: str_reverse_loop.induct)
  case (1 b i j)
  show ?case
  proof (cases "i < j")
    case True
    let ?b = "b[i := b ! j, j := b ! i]"
    have IH: "str_reverse_loop ?b (i + 1) (j - 1) ! k =
        (if i + 1 \<le> k \<and> k \<le> j - 1 then ?b ! (i + 1 + (j - 1) - k) else ?b ! k)"
      using 1 True by simp
    have "str_reverse_loop b i j ! k = str_reverse_loop ?b (i + 1) (j - 1) ! k"
      using True by (subst str_reverse_loop.simps) simp
    also have "\<dots> = (if i \<le> k \<and> k \<le> j then b ! (i + j - k) else b ! k)"
      unfolding IH using True 1(2,3) by (auto simp: nth_list_update)
    finally show ?thesis .
  next
    case False
    then show ?thesis by (subst str_reverse_loop.simps) (auto intro!: arg_cong [of _ _ "(!) b"])
  qed
qed

lemma str_reverse_loop_prefix:
  assumes "str \<noteq> []"
  shows "str_reverse_loop (str @ rest) 0 (length str - 1) = rev str @ rest"
proof (rule nth_equalityI)
  show "length (str_reverse_loop (str @ rest) 0 (length str - 1)) = length (rev str @ rest)" by simp
  fix k assume "k < length (str_reverse_loop (str @ rest) 0 (length str - 1))"
  moreover obtain n where "length str = Suc n" using assms by (cases str) auto
  ultimately show "str_reverse_loop (str @ rest) 0 (length str - 1) ! k = (rev str @ rest) ! k"
    by (subst str_reverse_loop_nth) (auto simp: nth_append rev_nth)
qed

text \<open>Both conversions store the representation and its terminator at the start of the buffer.\<close>

lemma sdsll2str_eq:
  assumes "- (2 ^ 63) \<le> x" "x < 2 ^ 63" and "length (dec_int x) < length buf"
  shows "sdsll2str buf x = Inr (dec_int x @ 0 # drop (length (dec_int x) + 1) buf, length (dec_int x))"
proof -
  let ?str = "ll2str_digits (if x < 0 then to_size (- x) else nat x) @ (if x < 0 then [45] else [])"
  have rev: "rev ?str = dec_int x"
    using assms(1,2) by (auto simp: dec_int_def rev_ll2str_digits)
  then have len: "length ?str = length (dec_int x)" by (metis length_rev)
  have "sdsll2str buf x = bindE (mem_write buf 0 (?str @ [0]))
      (\<lambda>b. Inr (str_reverse_loop b 0 (length ?str - 1), length ?str))"
    by (simp only: sdsll2str_def Let_def)
  also have "\<dots> = Inr (str_reverse_loop (?str @ 0 # drop (length ?str + 1) buf) 0 (length ?str - 1), length ?str)"
    using assms(3) len by (subst mem_write_ok) auto
  also have "\<dots> = Inr (rev ?str @ 0 # drop (length ?str + 1) buf, length ?str)"
    by (subst str_reverse_loop_prefix) auto
  finally show ?thesis by (simp only: rev len)
qed

lemma sdsull2str_eq:
  assumes "length (dec_nat n) < length buf"
  shows "sdsull2str buf n = Inr (dec_nat n @ 0 # drop (length (dec_nat n) + 1) buf, length (dec_nat n))"
proof -
  let ?str = "ll2str_digits n"
  have len: "length ?str = length (dec_nat n)" by (metis length_rev rev_ll2str_digits)
  have "sdsull2str buf n = bindE (mem_write buf 0 (?str @ [0]))
      (\<lambda>b. Inr (str_reverse_loop b 0 (length ?str - 1), length ?str))"
    by (simp only: sdsull2str_def Let_def)
  also have "\<dots> = Inr (str_reverse_loop (?str @ 0 # drop (length ?str + 1) buf) 0 (length ?str - 1), length ?str)"
    using assms len by (subst mem_write_ok) auto
  also have "\<dots> = Inr (rev ?str @ 0 # drop (length ?str + 1) buf, length ?str)"
    by (subst str_reverse_loop_prefix) auto
  finally show ?thesis by (simp only: rev_ll2str_digits len)
qed

text \<open>
  \<open>sdsfromlonglong\<close> gives the decimal representation of every \<open>long long\<close>, \<open>LLONG_MIN\<close> included:
  the digits produced back to front by \<open>sdsll2str\<close> fit the 21 byte buffer and are reversed in place.
\<close>

lemma sdsfromlonglong_yields:
  assumes "malloc_ok m" and "- (2 ^ 63) \<le> x" "x < 2 ^ 63" and "length buf = SDS_LLSTR_SIZE"
  shows "yields m (sdsfromlonglong m buf x) (\<lambda>s. sds_inv s \<and> sds_val s = dec_int x)"
proof -
  have l: "length (dec_int x) \<le> 20" using assms by (intro length_dec_int) auto
  have "sdsfromlonglong m buf x =
      sdsnewlen m (Some (dec_int x @ 0 # drop (length (dec_int x) + 1) buf)) (length (dec_int x))"
    using assms l by (simp add: sdsfromlonglong_def sdsll2str_eq SDS_LLSTR_SIZE_def)
  then show ?thesis
    using sdsnewlen_yields[OF assms(1), of "length (dec_int x)" "Some (dec_int x @ 0 # drop (length (dec_int x) + 1) buf)"] l
    by simp
qed

theorem sdsfromlonglong_witness:
  "yields calloc_alloc (sdsfromlonglong calloc_alloc (replicate SDS_LLSTR_SIZE 0) (- 120))
     (\<lambda>s. sds_inv s \<and> sds_val s = dec_int (- 120))"
  by (rule sdsfromlonglong_yields) simp_all

subsection \<open>Formatted append and the quoted representation\<close>

text \<open>
  \<open>sds_room s k\<close>: appending \<open>k\<close> more bytes stays clear of the wrap-around of \<open>size_t\<close> in
  \<open>sdsMakeRoomFor\<close>.
\<close>

definition sds_room :: "sds \<Rightarrow> nat \<Rightarrow> bool" where
  "sds_room s k \<longleftrightarrow> sdslen s + k + 2 ^ 20 + 18 < 2 ^ 64"

definition sds_appended :: "sds \<Rightarrow> byte list \<Rightarrow> sds \<Rightarrow> bool" where
  "sds_appended s bs s' \<longleftrightarrow> sds_inv s' \<and> sds_val s' = sds_val s @ bs"

lemma sds_appended_len: "sds_inv s \<Longrightarrow> sds_appended s bs s' \<Longrightarrow> sdslen s' = sdslen s + length bs"
  by (metis sds_appended_def length_append length_sds_val)

lemma sds_appended_trans:
  "sds_appended s a s' \<Longrightarrow> sds_appended s' b s'' \<Longrightarrow> sds_appended s (a @ b) s''"
  by (simp add: sds_appended_def)

lemma sds_appended_room:
  "sds_inv s \<Longrightarrow> sds_appended s bs s' \<Longrightarrow> sds_room s (length bs + k) \<Longrightarrow> sds_room s' k"
  by (simp add: sds_room_def sds_appended_len)

lemma sdscatlen_appended:
  "malloc_ok m \<Longrightarrow> sds_inv s \<Longrightarrow> sds_room s (length t) \<Longrightarrow>
   yields m (sdscatlen m s t (length t)) (sds_appended s t)"
  using sdscatlen_yields[of m s "length t" t] by (simp add: sds_room_def sds_appended_def [abs_def])

lemma sdscat_appended:
  assumes "malloc_ok m" "sds_inv s" "sds_room s (length t)" "0 \<notin> set t"
  shows "yields m (sdscat m s (t @ 0 # rest)) (sds_appended s t)"
  using assms sdscatlen_yields[of m s "length t" "t @ 0 # rest"]
  by (simp add: sdscat_def sds_room_def sds_appended_def [abs_def])

lemma sdscatvprintf_loop_appended:
  assumes "malloc_ok m" "sds_inv s" "sds_room s (length out)" "0 \<notin> set out" "2 \<le> buflen"
  shows "yields m (sdscatvprintf_loop m s out buflen) (sds_appended s out)"
  using assms
proof (induction m s out buflen rule: sdscatvprintf_loop.induct)
  case (1 m s out buflen)
  show ?case
  proof (cases "buflen - 2 < length out")
    case True
    then have "out ! (buflen - 2) \<noteq> 0" using "1.prems"(4) nth_mem[of "buflen - 2" out] by fastforce
    with True "1.prems"(5) have "sdscatvprintf_loop m s out buflen =
        bindE (s_malloc m (buflen * 2)) (\<lambda>_. sdscatvprintf_loop m s out (buflen * 2))"
      by (subst sdscatvprintf_loop.simps) simp
    also have "yields m \<dots> (sds_appended s out)"
      by (rule yields_bindE_eq [OF yields_s_malloc]) (use 1 True \<open>out ! _ \<noteq> 0\<close> in auto)
    finally show ?thesis .
  next
    case False
    then have "sdscatvprintf_loop m s out buflen = sdscat m s (out @ [0])"
      by (subst sdscatvprintf_loop.simps) simp
    with "1.prems" show ?thesis by (simp add: sdscat_appended)
  qed
qed

lemma sdscatprintf_appended:
  assumes "malloc_ok m" "sds_inv s" "sds_room s (length out)" "0 \<notin> set out" "0 \<in> set fmt"
  shows "yields m (sdscatprintf m s fmt out) (sds_appended s out)"
proof -
  have "yields m (if n > 1024 then bindE (s_malloc m n) (\<lambda>_. sdscatvprintf_loop m s out n)
       else sdscatvprintf_loop m s out 1024) (sds_appended s out)" for n
    using assms by (auto intro!: yields_bindE [OF yields_s_malloc] sdscatvprintf_loop_appended)
  then show ?thesis
    unfolding sdscatprintf_def sdscatvprintf_def strlen_def Let_def
    using assms(5) by (simp only: if_True bindE_simps)
qed

text \<open>The representation of one byte.\<close>

definition repr_byte :: "byte \<Rightarrow> byte list" where
  "repr_byte c =
     (if c = 0x5C \<or> c = 0x22 then [0x5C, c]
      else if c = 10 then [0x5C, 0x6E] else if c = 13 then [0x5C, 0x72]
      else if c = 9 then [0x5C, 0x74] else if c = 7 then [0x5C, 0x61]
      else if c = 8 then [0x5C, 0x62]
      else if isprint c then [c] else [0x5C, 0x78] @ hex2 c)"

definition repr :: "byte list \<Rightarrow> byte list" where
  "repr bs = 0x22 # concat (map repr_byte bs) @ [0x22]"

lemma unat_hex_digit: "n < 16 \<Longrightarrow> unat (hex_digit n) = (if n < 10 then 48 + n else 87 + n)"
  by (simp add: hex_digit_def unsigned_of_nat take_bit_eq_mod del: of_nat_add)

lemma hex2_nonzero: "0 \<notin> set (hex2 c)"
proof -
  have "unat c div 16 < 16" using unat_bounds(1)[of c] by (simp add: less_mult_imp_div_less)
  then have "unat (hex_digit (unat c div 16)) \<noteq> 0" "unat (hex_digit (unat c mod 16)) \<noteq> 0"
    by (simp_all add: unat_hex_digit)
  then show ?thesis by (auto simp: hex2_def)
qed

lemma repr_byte_nonzero: "0 \<notin> set (repr_byte c)"
  using hex2_nonzero[of c] by (auto simp: repr_byte_def isprint_def)

lemma length_repr_byte: "length (repr_byte c) \<le> 4" "0 < length (repr_byte c)"
  by (auto simp: repr_byte_def hex2_def)

lemma sdscatrepr_byte_cases:
  "(\<exists>fmt. sdscatrepr_byte m s c = sdscatprintf m s (fmt @ [0]) (repr_byte c)) \<or>
   (\<exists>a b. repr_byte c = [a, b] \<and> sdscatrepr_byte m s c = sdscatlen m s [a, b] 2)"
  unfolding sdscatrepr_byte_def repr_byte_def by (simp split: if_splits) blast

lemma sdscatrepr_byte_appended:
  assumes "malloc_ok m" "sds_inv s" "sds_room s (length (repr_byte c))"
  shows "yields m (sdscatrepr_byte m s c) (sds_appended s (repr_byte c))"
proof -
  have esc: "yields m (sdscatlen m s [a, b] 2) (sds_appended s [a, b])" if "repr_byte c = [a, b]" for a b
    using sdscatlen_appended[of m s "[a, b]"] assms that by (simp add: numeral_2_eq_2)
  have pr: "yields m (sdscatprintf m s (fmt @ [0]) (repr_byte c)) (sds_appended s (repr_byte c))" for fmt
    using assms repr_byte_nonzero by (intro sdscatprintf_appended) auto
  show ?thesis
    using sdscatrepr_byte_cases[of m s c] esc pr by (auto simp del: append_Cons)
qed

lemma sdscatrepr_loop_appended:
  assumes "malloc_ok m" "sds_inv s" "sds_room s (length (concat (map repr_byte p)))"
  shows "yields m (sdscatrepr_loop m s p) (sds_appended s (concat (map repr_byte p)))"
  using assms
proof (induction p arbitrary: s)
  case Nil
  then show ?case by (simp add: sds_appended_def)
next
  case (Cons c p)
  have "yields m (deref (sdscatrepr_byte m s c)) (sds_appended s (repr_byte c))"
    using Cons.prems by (intro yields_deref sdscatrepr_byte_appended) (auto simp: sds_room_def)
  then show ?case unfolding sdscatrepr_loop.simps
  proof (rule yields_bindE)
    fix s' assume s': "sds_appended s (repr_byte c) s'"
    then have "yields m (sdscatrepr_loop m s' p) (sds_appended s' (concat (map repr_byte p)))"
      using Cons.prems sds_appended_room[OF Cons.prems(2) s'] by (intro Cons.IH) (auto simp: sds_appended_def)
    then show "yields m (sdscatrepr_loop m s' p) (sds_appended s (concat (map repr_byte (c # p))))"
      using s' by (auto elim!: yields_mono dest: sds_appended_trans)
  qed
qed

lemma sdscatrepr_appended:
  assumes "malloc_ok m" "sds_inv s" "len \<le> length p" "sds_room s (length (repr (take len p)))"
  shows "yields m (sdscatrepr m s p len) (sds_appended s (repr (take len p)))"
proof -
  let ?r = "concat (map repr_byte (take len p))"
  have q: "yields m (sdscatlen m t [0x22] 1) (sds_appended t [0x22])" if "sds_inv t" "sds_room t 1" for t
    using sdscatlen_appended[of m t "[0x22]"] assms(1) that by simp
  have "yields m (bindE (deref (sdscatlen m s [0x22] 1)) (\<lambda>s'.
     bindE (sdscatrepr_loop m s' (take len p)) (\<lambda>s''. sdscatlen m s'' [0x22] 1)))
     (sds_appended s (repr (take len p)))"
  proof (rule yields_bindE [OF yields_deref [OF q]])
    show "sds_inv s" "sds_room s 1" using assms by (simp_all add: sds_room_def repr_def)
    fix s' assume s': "sds_appended s [0x22] s'"
    have r': "sds_inv s'" "sds_room s' (length ?r + 1)"
      using s' sds_appended_room[OF assms(2) s'] assms(4) by (auto simp: sds_appended_def repr_def)
    show "yields m (bindE (sdscatrepr_loop m s' (take len p)) (\<lambda>s''. sdscatlen m s'' [0x22] 1))
      (sds_appended s (repr (take len p)))"
    proof (rule yields_bindE [OF sdscatrepr_loop_appended [OF assms(1) r'(1)]])
      show "sds_room s' (length ?r)" using r'(2) by (simp add: sds_room_def)
      fix s'' assume s'': "sds_appended s' ?r s''"
      have "yields m (sdscatlen m s'' [0x22] 1) (sds_appended s'' [0x22])"
        using s'' sds_appended_room[OF r'(1) s'' r'(2)] by (intro q) (auto simp: sds_appended_def)
      then show "yields m (sdscatlen m s'' [0x22] 1) (sds_appended s (repr (take len p)))"
        by (rule yields_mono) (use s' s'' in \<open>simp add: sds_appended_def repr_def\<close>)
    qed
  qed
  then show ?thesis using assms(3) by (simp add: sdscatrepr_def)
qed

subsection \<open>Parsing quoted lines\<close>

text \<open>The token loop and the outer loop on plain byte lists.\<close>

function tok_spec :: "qmode \<Rightarrow> byte list \<Rightarrow> byte list \<Rightarrow> (byte list \<times> byte list) option" where
  "tok_spec mode p acc =
     (case splitargs_step mode p of
        TokErr \<Rightarrow> None
      | TokDone k \<Rightarrow> Some (acc, drop k p)
      | Enter mode' k \<Rightarrow> tok_spec mode' (drop k p) acc
      | Emit c k \<Rightarrow> tok_spec mode (drop k p) (acc @ [c]))"
  by pat_completeness auto
termination
  by (relation "measure (\<lambda>(mode, p, acc). length p)") (auto dest: splitargs_step_progress)

declare tok_spec.simps [simp del]

lemma tok_spec_rest:
  "tok_spec mode p acc = Some (v, rest) \<Longrightarrow>
   length rest \<le> length p \<and> (byte_at p 0 \<noteq> 0 \<longrightarrow> length rest < length p) \<and> length v \<le> length acc + length p"
proof (induction mode p acc rule: tok_spec.induct)
  case (1 mode p acc)
  show ?case
  proof (cases "splitargs_step mode p")
    case (Emit c k)
    with "1.prems" have "tok_spec mode (drop k p) (acc @ [c]) = Some (v, rest)"
      by (subst (asm) tok_spec.simps) simp
    with "1.IH"(1)[OF Emit] splitargs_step_progress(1)[OF Emit] show ?thesis
      by (auto simp: neq_Nil_conv)
  next
    case (Enter mode' k)
    with "1.prems" have "tok_spec mode' (drop k p) acc = Some (v, rest)"
      by (subst (asm) tok_spec.simps) simp
    with "1.IH"(2)[OF Enter] splitargs_step_progress(2)[OF Enter] show ?thesis
      by (auto simp: neq_Nil_conv)
  next
    case (TokDone k)
    with "1.prems" have "rest = drop k p" "v = acc" by (subst (asm) tok_spec.simps, simp)+
    with splitargs_step_done[OF TokDone] show ?thesis by (auto simp: byte_at_def split: if_splits)
  next
    case TokErr
    with "1.prems" show ?thesis by (subst (asm) tok_spec.simps) simp
  qed
qed

function split_spec :: "byte list \<Rightarrow> byte list list \<Rightarrow> byte list list option" where
  "split_spec p vs =
     (if byte_at (dropWhile isspace p) 0 = 0 then Some vs
      else case tok_spec NoQuote (dropWhile isspace p) [] of
        None \<Rightarrow> None
      | Some (v, rest) \<Rightarrow> split_spec rest (vs @ [v]))"
  by pat_completeness auto
termination
proof (relation "measure (\<lambda>(p, vs). length p)", goal_cases)
  case (2 p vs x v rest)
  then have "length rest < length (dropWhile isspace p)" using tok_spec_rest by blast
  then show ?case using length_dropWhile_le[of isspace p] by simp
qed simp

declare split_spec.simps [simp del]

text \<open>The parser on sds strings refines the parser on byte lists.\<close>

definition tok_refines :: "(byte list \<times> byte list) option \<Rightarrow> (sds \<times> byte list) option \<Rightarrow> bool" where
  "tok_refines spec r = (case spec of
     None \<Rightarrow> r = None
   | Some (v, rest) \<Rightarrow> \<exists>t. r = Some (t, rest) \<and> sds_inv t \<and> sds_val t = v)"

lemma splitargs_token_refines:
  assumes "malloc_ok m" "sds_inv cur" "sds_room cur (length p)"
  shows "yields m (splitargs_token m mode p cur) (tok_refines (tok_spec mode p (sds_val cur)))"
  using assms
proof (induction m mode p cur rule: splitargs_token.induct)
  case (1 m mode p cur)
  show ?case
  proof (cases "splitargs_step mode p")
    case (Emit c k)
    have k: "0 < k" "0 < length p" using splitargs_step_progress(1)[OF Emit] by auto
    have q: "yields m (deref (sdscatlen m cur [c] 1)) (sds_appended cur [c])"
    proof -
      have "sds_room cur (length [c])" using "1.prems"(3) k(2) unfolding sds_room_def list.size by linarith
      with sdscatlen_appended[of m cur "[c]"] "1.prems" show ?thesis by (intro yields_deref) simp
    qed
    have "yields m (bindE (deref (sdscatlen m cur [c] 1)) (splitargs_token m mode (drop k p)))
        (tok_refines (tok_spec mode (drop k p) (sds_val cur @ [c])))"
    proof (rule yields_bindE_eq [OF q])
      fix cur' assume eq: "deref (sdscatlen m cur [c] 1) = Inr cur'" and a: "sds_appended cur [c] cur'"
      have "sds_room cur' (length (drop k p))"
      proof -
        have "length [c] + (length p - k) \<le> length p" using k by (simp add: less_eq_Suc_le)
        then have "sds_room cur (length [c] + (length p - k))"
          using "1.prems"(3) unfolding sds_room_def by linarith
        with sds_appended_room[OF "1.prems"(2) a, of "length p - k"] show ?thesis by simp
      qed
      with "1.IH"(1)[OF Emit eq] a "1.prems"(1)
      show "yields m (splitargs_token m mode (drop k p) cur')
          (tok_refines (tok_spec mode (drop k p) (sds_val cur @ [c])))"
        by (simp add: sds_appended_def)
    qed
    with Emit show ?thesis by (simp add: splitargs_token.simps[of m mode p] tok_spec.simps[of mode p])
  next
    case (Enter mode' k)
    have "sds_room cur (length (drop k p))" using "1.prems"(3) by (simp add: sds_room_def)
    with "1.IH"(2)[OF Enter] "1.prems" Enter show ?thesis
      by (simp add: splitargs_token.simps[of m mode p] tok_spec.simps[of mode p])
  next
    case (TokDone k)
    with "1.prems" show ?thesis
      by (simp add: splitargs_token.simps[of m mode p] tok_spec.simps[of mode p] tok_refines_def)
  next
    case TokErr
    then show ?thesis
      by (simp add: splitargs_token.simps[of m mode p] tok_spec.simps[of mode p] tok_refines_def)
  qed
qed

definition sds_list_is :: "byte list list option \<Rightarrow> sds list option \<Rightarrow> bool" where
  "sds_list_is spec r = (case spec of
     None \<Rightarrow> r = None
   | Some vs \<Rightarrow> \<exists>ts. r = Some ts \<and> (\<forall>t \<in> set ts. sds_inv t) \<and> map sds_val ts = vs)"

lemma sdsempty_yields: "malloc_ok m \<Longrightarrow> yields m (sdsempty m) (\<lambda>s. sds_inv s \<and> sds_val s = [])"
  using sdsnewlen_yields[of m 0 "Some [0]"] by (simp add: sdsempty_def)

lemma splitargs_loop_refines:
  assumes "malloc_ok m" "length p + 2 ^ 20 + 18 < 2 ^ 64" "\<forall>t \<in> set vector. sds_inv t"
  shows "yields m (splitargs_loop m p vector) (sds_list_is (split_spec p (map sds_val vector)))"
  using assms
proof (induction m p vector rule: splitargs_loop.induct)
  case (1 m p vector)
  let ?p = "dropWhile isspace p"
  show ?case
  proof (cases "byte_at ?p 0 = 0")
    case True
    with "1.prems" show ?thesis
      by (auto simp: splitargs_loop.simps[of m p] split_spec.simps[of p] sds_list_is_def
          intro!: yields_bindE [OF yields_s_malloc])
  next
    case False
    let ?spec = "case tok_spec NoQuote ?p [] of None \<Rightarrow> None
       | Some (v, rest) \<Rightarrow> split_spec rest (map sds_val vector @ [v])"
    have "yields m (bindE (deref (sdsempty m)) (\<lambda>current.
        bindE (splitargs_token m NoQuote ?p current) (\<lambda>r.
          case r of None \<Rightarrow> Inr None
          | Some (tok, rest) \<Rightarrow>
              bindE (deref (s_malloc m (8 * (length vector + 1)))) (\<lambda>_.
                splitargs_loop m rest (vector @ [tok]))))) (sds_list_is ?spec)"
    proof (rule yields_bindE_eq [OF yields_deref [OF sdsempty_yields [OF "1.prems"(1)]]])
      fix cur assume eq: "deref (sdsempty m) = Inr cur" and cur: "sds_inv cur \<and> sds_val cur = []"
      have "sds_room cur (length ?p)"
        using cur "1.prems"(2) length_dropWhile_le[of isspace p] length_sds_val[of cur] by (simp add: sds_room_def)
      then have tok: "yields m (splitargs_token m NoQuote ?p cur) (tok_refines (tok_spec NoQuote ?p []))"
        using splitargs_token_refines[of m cur ?p NoQuote] cur "1.prems"(1) by simp
      show "yields m (bindE (splitargs_token m NoQuote ?p cur) (\<lambda>r.
          case r of None \<Rightarrow> Inr None
          | Some (tok, rest) \<Rightarrow>
              bindE (deref (s_malloc m (8 * (length vector + 1)))) (\<lambda>_.
                splitargs_loop m rest (vector @ [tok])))) (sds_list_is ?spec)"
      proof (rule yields_bindE_eq [OF tok])
        fix r assume req: "splitargs_token m NoQuote ?p cur = Inr r" and r: "tok_refines (tok_spec NoQuote ?p []) r"
        show "yields m (case r of None \<Rightarrow> Inr None
          | Some (tok, rest) \<Rightarrow>
              bindE (deref (s_malloc m (8 * (length vector + 1)))) (\<lambda>_.
                splitargs_loop m rest (vector @ [tok]))) (sds_list_is ?spec)"
        proof (cases r)
          case None
          with r show ?thesis by (auto simp: tok_refines_def sds_list_is_def split: option.splits)
        next
          case (Some tr)
          then obtain tok rest where tr: "r = Some (tok, rest)" by (cases tr) auto
          with r have spec: "tok_spec NoQuote ?p [] = Some (sds_val tok, rest)" and "sds_inv tok"
            by (auto simp: tok_refines_def split: option.splits)
          have "length rest \<le> length p"
            using tok_spec_rest[OF spec] length_dropWhile_le[of isspace p] by simp
          have "yields m (splitargs_loop m rest (vector @ [tok])) (sds_list_is ?spec)"
            if "deref (s_malloc m (8 * (length vector + 1))) = Inr x" for x
            using "1.IH"[OF False eq req tr refl that] "1.prems" \<open>length rest \<le> _\<close> \<open>sds_inv tok\<close>
            by (auto simp: spec)
          then show ?thesis
            unfolding tr by (auto intro!: yields_bindE_eq [OF yields_deref [OF yields_s_malloc [OF "1.prems"(1)]]])
        qed
      qed
    qed
    with False show ?thesis
      by (simp only: splitargs_loop.simps[of m p vector] split_spec.simps[of p "map sds_val vector"] if_False)
  qed
qed

subsection \<open>Quoting and parsing are inverse\<close>

lemma hex_digit_decode:
  assumes "n < 16"
  shows "is_hex_digit (hex_digit n)" "hex_digit_to_int (hex_digit n) = n"
  using assms
  by (simp_all add: is_hex_digit_def hex_digit_to_int_def word_le_nat_alt unat_hex_digit)

lemma byte_halves: "unat (c :: byte) div 16 < 16" "unat c mod 16 < 16"
  using unat_bounds(1)[of c] by (simp_all add: less_mult_imp_div_less)

lemma hex_digit_neq_0: "n < 16 \<Longrightarrow> hex_digit n \<noteq> 0"
  using unat_hex_digit[of n] by (auto split: if_splits)

lemma byte_at_simps [simp]:
  "byte_at (c # p) 0 = c" "byte_at (c # p) (Suc i) = byte_at p i" "byte_at [] i = 0"
  "byte_at (c # p) (numeral k) = byte_at p (pred_numeral k)" "byte_at (c # p) 1 = byte_at p 0"
  by (simp_all add: byte_at_def numeral_eq_Suc)

lemma splitargs_step_repr_byte:
  "splitargs_step InQ (repr_byte c @ q) = Emit c (length (repr_byte c))"
proof -
  have h: "is_hex_digit (hex_digit (unat c div 16))" "is_hex_digit (hex_digit (unat c mod 16))"
    "hex_digit_to_int (hex_digit (unat c div 16)) = unat c div 16"
    "hex_digit_to_int (hex_digit (unat c mod 16)) = unat c mod 16"
    "hex_digit (unat c mod 16) \<noteq> 0"
    using byte_halves[of c] by (simp_all add: hex_digit_decode hex_digit_neq_0)
  have c: "(word_of_nat (unat c div 16 * 16 + unat c mod 16) :: byte) = c"
    by (simp only: div_mult_mod_eq) simp
  show ?thesis
    using h(5)
    by (auto simp: splitargs_step_def repr_byte_def hex2_def Let_def unescape_def isprint_def h(1-4) c
        simp del: of_nat_add of_nat_mult)
qed

lemma tok_spec_repr_body:
  assumes "rest = [] \<or> isspace (hd rest)"
  shows "tok_spec InQ (concat (map repr_byte v) @ 0x22 # rest) acc = Some (acc @ v, rest)"
proof (induction v arbitrary: acc)
  case Nil
  have "splitargs_step InQ (0x22 # rest) = TokDone 1"
    using assms by (cases rest) (auto simp: splitargs_step_def Let_def)
  then show ?case by (simp add: tok_spec.simps[of InQ])
next
  case (Cons c v)
  show ?case
    using Cons.IH[of "acc @ [c]"]
    by (simp add: tok_spec.simps[of InQ "repr_byte c @ _"] splitargs_step_repr_byte)
qed

lemma tok_spec_repr:
  "rest = [] \<or> isspace (hd rest) \<Longrightarrow> tok_spec NoQuote (repr v @ rest) [] = Some (v, rest)"
  by (simp add: tok_spec.simps[of NoQuote] repr_def splitargs_step_def Let_def tok_spec_repr_body)

text \<open>A command line of quoted arguments separated by one space.\<close>

fun repr_line :: "byte list list \<Rightarrow> byte list" where
  "repr_line [] = []"
| "repr_line [v] = repr v"
| "repr_line (v # vs) = repr v @ 32 # repr_line vs"

lemma dropWhile_repr [simp]: "dropWhile isspace (repr v @ q) = repr v @ q" "byte_at (repr v @ q) 0 \<noteq> 0"
  by (simp_all add: repr_def isspace_def)

lemma split_spec_repr_tok:
  "rest = [] \<or> isspace (hd rest) \<Longrightarrow> split_spec (repr v @ rest) acc = split_spec rest (acc @ [v])"
  by (subst split_spec.simps) (simp add: tok_spec_repr)

lemma split_spec_space: "split_spec (32 # p) acc = split_spec p acc"
  by (simp add: split_spec.simps[of "32 # p"] split_spec.simps[of p] isspace_def)

lemma split_spec_repr_line: "split_spec (repr_line vs) acc = Some (acc @ vs)"
proof (induction vs arbitrary: acc rule: repr_line.induct)
  case 1
  show ?case by (simp add: split_spec.simps)
next
  case (2 v)
  show ?case using split_spec_repr_tok[of "[]" v acc] by (simp add: split_spec.simps[of "[]"])
next
  case (3 v w vs)
  show ?case
    using split_spec_repr_tok[of "32 # repr_line (w # vs)" v acc] "3.IH"[of "acc @ [v]"]
    by (simp add: split_spec_space isspace_def)
qed

lemma sdssplitargs_refines:
  assumes "malloc_ok m" "0 \<notin> set p" "length p + 2 ^ 20 + 18 < 2 ^ 64"
  shows "yields m (sdssplitargs m (p @ 0 # t)) (sds_list_is (split_spec p []))"
  using splitargs_loop_refines[of m p "[]"] assms strlen_cstring[of p t] by (simp add: sdssplitargs_def)

lemma repr_nonzero: "0 \<notin> set (repr v)"
  using repr_byte_nonzero by (auto simp: repr_def)

lemma repr_line_nonzero: "0 \<notin> set (repr_line vs)"
  by (induction vs rule: repr_line.induct) (simp_all add: repr_nonzero)

lemma sds_inv_cstring: "sds_inv s \<Longrightarrow> \<exists>t. sds_buf s = sds_val s @ 0 # t"
  using id_take_nth_drop[of "sdslen s" "sds_buf s"] by (auto simp: sds_inv_def sds_val_def)

lemma length_repr: "length (repr v) \<le> 4 * length v + 2"
proof -
  have "length (concat (map repr_byte v)) \<le> 4 * length v"
    by (induction v) (use length_repr_byte(1) in \<open>auto intro: add_mono\<close>)
  then show ?thesis by (simp add: repr_def)
qed

text \<open>
  C17. Quoting and parsing are inverse: what \<open>sdscatrepr\<close> appends for an arbitrary byte string (zero
  bytes, quotes and control bytes included) is parsed by \<open>sdssplitargs\<close> into exactly one argument,
  equal to the original. The call sequence fails only when allocation failed.
\<close>

theorem sdscatrepr_sdssplitargs:
  assumes "malloc_ok m" "4 * length v + 2 ^ 20 + 20 < 2 ^ 64"
  shows "yields m
      (bindE (sdsempty m) (\<lambda>e. bindE (sdscatrepr m e v (length v)) (\<lambda>s. sdssplitargs m (sds_buf s))))
      (\<lambda>r. \<exists>t. r = Some [t] \<and> sds_inv t \<and> sds_val t = v)"
proof (rule yields_bindE [OF sdsempty_yields [OF assms(1)]])
  fix e assume e: "sds_inv e \<and> sds_val e = []"
  then have "sdslen e = 0" using length_sds_val[of e] by simp
  then have room: "sds_room e (length (repr (take (length v) v)))"
    using assms(2) length_repr[of v] unfolding sds_room_def take_all [OF order_refl] by linarith
  show "yields m (bindE (sdscatrepr m e v (length v)) (\<lambda>s. sdssplitargs m (sds_buf s)))
      (\<lambda>r. \<exists>t. r = Some [t] \<and> sds_inv t \<and> sds_val t = v)"
  proof (rule yields_bindE [OF sdscatrepr_appended [OF assms(1)]])
    fix s assume "sds_appended e (repr (take (length v) v)) s"
    then have s: "sds_inv s" "sds_val s = repr v" using e by (simp_all add: sds_appended_def)
    obtain t where t: "sds_buf s = repr v @ 0 # t" using sds_inv_cstring[OF s(1)] s(2) by auto
    have "length (repr v) + 2 ^ 20 + 18 < 2 ^ 64" using assms(2) length_repr[of v] by linarith
    then have "yields m (sdssplitargs m (sds_buf s)) (sds_list_is (split_spec (repr_line [v]) []))"
      using sdssplitargs_refines[OF assms(1) repr_nonzero] by (simp add: t)
    then show "yields m (sdssplitargs m (sds_buf s)) (\<lambda>r. \<exists>t. r = Some [t] \<and> sds_inv t \<and> sds_val t = v)"
      unfolding split_spec_repr_line by (rule yields_mono) (auto simp: sds_list_is_def)
  qed (use e room in auto)
qed

theorem sdscatrepr_sdssplitargs_witness:
  "yields calloc_alloc
      (bindE (sdsempty calloc_alloc) (\<lambda>e.
         bindE (sdscatrepr calloc_alloc e [0, 34, 92, 10, 65, 255] (length [0, 34, 92, 10, 65, 255 :: byte]))
           (\<lambda>s. sdssplitargs calloc_alloc (sds_buf s))))
      (\<lambda>r. \<exists>t. r = Some [t] \<and> sds_inv t \<and> sds_val t = [0, 34, 92, 10, 65, 255])"
  by (rule sdscatrepr_sdssplitargs) simp_all

end
