(* ===== verification/SdsTextCorrect.thy ===== *)
theory SdsTextCorrect
  imports SdsText "HOL-Library.Sublist"
begin

text \<open>
  Correctness of the text operations of \<open>src/redis/src/sds.c\<close> that build on several others:
  splitting at a separator, joining, and formatted append. Each is compared with a definition on
  plain byte lists.
\<close>

section \<open>Reference definitions and refinement\<close>


subsection \<open>Splitting\<close>

text \<open>The reference: cut at the leftmost occurrences of the separator.\<close>

function split_on :: "'a list \<Rightarrow> 'a list \<Rightarrow> 'a list \<Rightarrow> 'a list list" where
  "split_on sep cur s =
     (if length s < length sep \<or> sep = [] then [cur @ s]
      else if take (length sep) s = sep then cur # split_on sep [] (drop (length sep) s)
      else split_on sep (cur @ [hd s]) (tl s))"
  by pat_completeness auto
termination
  by (relation "measure (\<lambda>(sep, cur, s). length s)") (auto simp: not_less neq_Nil_conv)

declare split_on.simps [simp del]

fun join_with :: "'a list \<Rightarrow> 'a list list \<Rightarrow> 'a list" where
  "join_with sep [] = []"
| "join_with sep [v] = v"
| "join_with sep (v # vs) = v @ sep @ join_with sep vs"

lemma join_with_Cons: "vs \<noteq> [] \<Longrightarrow> join_with sep (v # vs) = v @ sep @ join_with sep vs"
  by (cases vs) simp_all

lemma split_on_nonempty: "split_on sep cur s \<noteq> []"
  by (induction sep cur s rule: split_on.induct) (subst split_on.simps, simp)

lemma join_split_on: "join_with sep (split_on sep cur s) = cur @ s"
proof (induction sep cur s rule: split_on.induct)
  case (1 sep cur s)
  consider (fin) "length s < length sep \<or> sep = []"
    | (hit) "\<not> (length s < length sep \<or> sep = [])" "take (length sep) s = sep"
    | (miss) "\<not> (length s < length sep \<or> sep = [])" "take (length sep) s \<noteq> sep" by blast
  then show ?case
  proof cases
    case fin
    then show ?thesis by (simp add: split_on.simps)
  next
    case hit
    have "sep @ drop (length sep) s = s" using hit(2) append_take_drop_id[of "length sep" s] by simp
    with hit "1.IH"(1) show ?thesis by (simp add: split_on.simps[of sep cur] join_with_Cons split_on_nonempty)
  next
    case miss
    then have "s \<noteq> []" by auto
    with miss "1.IH"(2) show ?thesis by (simp add: split_on.simps[of sep cur])
  qed
qed

text \<open>No token contains the separator: no occurrence starts before the position reached.\<close>

lemma no_sublist_snoc:
  assumes "\<forall>i < length cur. take (length sep) (drop i (cur @ s)) \<noteq> sep"
    and "take (length sep) s \<noteq> sep" "s \<noteq> []"
  shows "\<forall>i < length (cur @ [hd s]). take (length sep) (drop i ((cur @ [hd s]) @ tl s)) \<noteq> sep"
proof (intro allI impI)
  fix i assume "i < length (cur @ [hd s])"
  then consider "i < length cur" | "i = length cur" by fastforce
  then show "take (length sep) (drop i ((cur @ [hd s]) @ tl s)) \<noteq> sep"
    using assms by cases simp_all
qed

lemma split_on_no_sep:
  assumes "sep \<noteq> []" "\<forall>i < length cur. take (length sep) (drop i (cur @ s)) \<noteq> sep"
  shows "\<forall>v \<in> set (split_on sep cur s). \<not> sublist sep v"
  using assms
proof (induction sep cur s rule: split_on.induct)
  case (1 sep cur s)
  have cur: "\<not> sublist sep (cur @ r)" if r: "prefix r s" "length r < length sep" for r
  proof
    assume "sublist sep (cur @ r)"
    then obtain us vs where e: "cur @ r = us @ sep @ vs" by (auto simp: sublist_def)
    obtain q where q: "s = r @ q" using r(1) by (auto simp: prefix_def)
    have "length us < length cur"
      using arg_cong[OF e, of length] r(2) by simp
    moreover have "take (length sep) (drop (length us) (cur @ s)) = sep"
    proof -
      have "cur @ s = us @ sep @ vs @ q" using e q by (metis append.assoc)
      then show ?thesis by simp
    qed
    ultimately show False using "1.prems"(2) by blast
  qed
  consider (fin) "length s < length sep"
    | (hit) "\<not> length s < length sep" "take (length sep) s = sep"
    | (miss) "\<not> length s < length sep" "take (length sep) s \<noteq> sep" by blast
  then show ?case
  proof cases
    case fin
    then show ?thesis using cur[of s] by (simp add: split_on.simps)
  next
    case hit
    then show ?thesis using "1.IH"(1) "1.prems"(1) cur[of "[]"] by (simp add: split_on.simps[of sep cur])
  next
    case miss
    then have "s \<noteq> []" using "1.prems"(1) by auto
    then show ?thesis
      using miss "1.IH"(2) "1.prems" no_sublist_snoc[OF "1.prems"(2) miss(2)]
      by (simp add: split_on.simps[of sep cur])
  qed
qed

text \<open>The array has five slots, doubled some number of times, and is not doubled once it has \<open>5 * 2 ^ 28\<close>.\<close>

definition split_slots :: "nat \<Rightarrow> bool" where
  "split_slots slots \<longleftrightarrow> (\<exists>k. slots = 5 * 2 ^ k)"

lemma split_slots_double:
  assumes "split_slots slots" "slots < 5 * 2 ^ 28"
  shows "split_slots (slots * 2)" "slots * 2 < 2 ^ 31"
proof -
  obtain k where k: "slots = 5 * 2 ^ k" using assms(1) by (auto simp: split_slots_def)
  then show "split_slots (slots * 2)" unfolding split_slots_def by (intro exI[of _ "Suc k"]) simp
  have "(2::nat) ^ k < 2 ^ 28" using assms(2) unfolding k by (rule nat_mult_less_cancel_disj[THEN iffD1, THEN conjunct2])
  then have "k < 28" by (rule power_less_imp_less_exp[rotated]) simp
  then have "(2::nat) ^ k \<le> 2 ^ 27" by (intro power_increasing) auto
  then show "slots * 2 < 2 ^ 31" unfolding k by simp
qed

lemma sdssplitlen_grow_yields:
  assumes "malloc_ok m" "e < slots" "split_slots slots" "e + 1 < 5 * 2 ^ 28"
  shows "yields m (sdssplitlen_grow m slots e) (\<lambda>slots'. e + 1 < slots' \<and> split_slots slots')"
proof (cases "slots < e + 2")
  case True
  then have d: "split_slots (slots * 2)" "slots * 2 < 2 ^ 31" using split_slots_double[OF assms(3)] assms(4) by auto
  moreover have "1 < slots"
  proof -
    obtain k where "slots = 5 * 2 ^ k" using assms(3) by (auto simp: split_slots_def)
    moreover have "(1::nat) \<le> 2 ^ k" by simp
    ultimately show ?thesis by linarith
  qed
  ultimately show ?thesis using assms(1,2) True
    by (simp add: sdssplitlen_grow_def) (rule yields_bindE [OF yields_s_malloc], auto)
next
  case False
  then show ?thesis using assms by (simp add: sdssplitlen_grow_def)
qed

lemma sdssplitlen_store_yields:
  assumes "malloc_ok m" "length tokens < slots" "n \<le> length t" "n + 18 < 2 ^ 64"
  shows "yields m (sdssplitlen_store m slots tokens t n)
    (\<lambda>r. \<exists>x. r = tokens @ [x] \<and> sds_inv x \<and> sds_val x = take n t)"
proof -
  have "yields m (sdsnewlen m (Some t) n) (\<lambda>x. sds_inv x \<and> sds_val x = take n t)"
    using sdsnewlen_yields[OF assms(1,4), of "Some t"] assms(3) by simp
  then show ?thesis
    using assms(2) by (auto simp: sdssplitlen_store_def elim!: yields_bindE)
qed

lemma split_match_iff:
  assumes "1 \<le> seplen" "j + (seplen - 1) < len" "len \<le> length s" "seplen \<le> length sep"
  shows "(seplen = 1 \<and> s ! j = sep ! 0) \<or> memcmp (take seplen (drop j s)) (take seplen sep) = 0 \<longleftrightarrow>
    take seplen (drop j (take len s)) = take seplen sep"
proof -
  have t: "take seplen (drop j (take len s)) = take seplen (drop j s)"
    using assms by (simp add: drop_take min_def)
  have "memcmp (take seplen (drop j s)) (take seplen sep) = 0 \<longleftrightarrow> take seplen (drop j s) = take seplen sep"
    using memcmp_eq[of "take seplen (drop j s)" "take seplen sep"] assms by auto
  moreover have "take 1 (drop j s) = [s ! j]" if "seplen = 1"
    using that assms by (simp add: take_Suc_conv_app_nth)
  moreover have "take 1 sep = [sep ! 0]" if "seplen = 1"
    using that assms by (cases sep) simp_all
  ultimately show ?thesis unfolding t by auto
qed

lemma take_drop_split:
  "start \<le> j \<Longrightarrow> j \<le> len \<Longrightarrow>
   take (j - start) (drop start s) @ drop j (take len s) = take (len - start) (drop start s)"
  using take_add[of "j - start" "len - j" "drop start s"] by (simp add: drop_take)

lemma take_drop_snoc:
  "start \<le> j \<Longrightarrow> j < length s \<Longrightarrow>
   take (j + 1 - start) (drop start s) = take (j - start) (drop start s) @ [s ! j]"
  by (simp add: Suc_diff_le take_Suc_conv_app_nth)

lemma sdssplitlen_loop_yields:
  assumes "malloc_ok m" "1 \<le> seplen" "len \<le> length s" "seplen \<le> length sep" "len < 2 ^ 31"
    and "start \<le> j" "j \<le> len" "length tokens < slots" "split_slots slots" "\<forall>t \<in> set tokens. sds_inv t"
    and "length tokens * seplen \<le> j" "len < 5 * 2 ^ 28 * seplen"
  shows "yields m (sdssplitlen_loop m s len sep seplen j start slots tokens)
    (\<lambda>ts. (\<forall>t \<in> set ts. sds_inv t) \<and> map sds_val ts = map sds_val tokens @
       split_on (take seplen sep) (take (j - start) (drop start s)) (drop j (take len s)))"
  using assms
proof (induction m s len sep seplen j start slots tokens rule: sdssplitlen_loop.induct)
  case (1 m s len sep seplen j start slots tokens)
  let ?sep = "take seplen sep" and ?cur = "take (j - start) (drop start s)" and ?s = "drop j (take len s)"
  let ?P = "\<lambda>ts. (\<forall>t \<in> set ts. sds_inv t) \<and> map sds_val ts = map sds_val tokens @ split_on ?sep ?cur ?s"
  note len = "1.prems"(2-7)
  have sep: "length ?sep = seplen" "?sep \<noteq> []" using len by auto
  show ?case
  proof (cases "j + (seplen - 1) < len")
    case False
    then have "split_on ?sep ?cur ?s = [?cur @ ?s]"
      using len by (subst split_on.simps) (simp add: min_def, linarith)
    moreover have "?cur @ ?s = take (len - start) (drop start s)"
      using len by (simp add: take_drop_split)
    moreover have "yields m (sdssplitlen_store m slots tokens (drop start s) (len - start))
        (\<lambda>r. \<exists>x. r = tokens @ [x] \<and> sds_inv x \<and> sds_val x = take (len - start) (drop start s))"
      using "1.prems"(1,8) len by (intro sdssplitlen_store_yields) auto
    ultimately show ?thesis
      using False "1.prems"(10) by (subst sdssplitlen_loop.simps) (auto elim!: yields_mono)
  next
    case True
    let ?hit = "(seplen = 1 \<and> s ! j = sep ! 0) \<or> memcmp (take seplen (drop j s)) (take seplen sep) = 0"
    note hit = split_match_iff[OF len(1) True len(2,3)]
    have few: "length tokens + 1 < 5 * 2 ^ 28"
    proof -
      have "(length tokens + 1) * seplen \<le> len" using "1.prems"(2,11) True by simp
      then have "(length tokens + 1) * seplen < (5 * 2 ^ 28) * seplen" using "1.prems"(12) by (rule le_less_trans)
      then show ?thesis by (rule mult_less_cancel2[THEN iffD1, THEN conjunct2])
    qed
    have "yields m (bindE (sdssplitlen_grow m slots (length tokens)) (\<lambda>slots'.
          if ?hit
          then bindE (sdssplitlen_store m slots' tokens (drop start s) (j - start)) (\<lambda>tokens'.
                 sdssplitlen_loop m s len sep seplen (j + (seplen - 1) + 1) (j + seplen) slots' tokens')
          else sdssplitlen_loop m s len sep seplen (j + 1) start slots' tokens)) ?P"
    proof (rule yields_bindE_eq [OF sdssplitlen_grow_yields [OF "1.prems"(1,8,9) few]])
      fix slots' assume eq: "sdssplitlen_grow m slots (length tokens) = Inr slots'"
        and sl: "length tokens + 1 < slots' \<and> split_slots slots'"
      show "yields m (if ?hit
          then bindE (sdssplitlen_store m slots' tokens (drop start s) (j - start)) (\<lambda>tokens'.
                 sdssplitlen_loop m s len sep seplen (j + (seplen - 1) + 1) (j + seplen) slots' tokens')
          else sdssplitlen_loop m s len sep seplen (j + 1) start slots' tokens) ?P"
      proof (cases ?hit)
        case h: True
        have so: "split_on ?sep ?cur ?s = ?cur # split_on ?sep [] (drop (j + seplen) (take len s))"
          using h[unfolded hit] sep True len
          by (subst split_on.simps) (simp add: min_def add.commute, linarith)
        have st: "yields m (sdssplitlen_store m slots' tokens (drop start s) (j - start))
            (\<lambda>r. \<exists>x. r = tokens @ [x] \<and> sds_inv x \<and> sds_val x = ?cur)"
          using sl len "1.prems"(1) by (intro sdssplitlen_store_yields) auto
        have "yields m (bindE (sdssplitlen_store m slots' tokens (drop start s) (j - start)) (\<lambda>tokens'.
                 sdssplitlen_loop m s len sep seplen (j + (seplen - 1) + 1) (j + seplen) slots' tokens')) ?P"
        proof (rule yields_bindE_eq [OF st])
          fix tokens' assume e: "sdssplitlen_store m slots' tokens (drop start s) (j - start) = Inr tokens'"
            and "\<exists>x. tokens' = tokens @ [x] \<and> sds_inv x \<and> sds_val x = ?cur"
          then obtain x where x: "tokens' = tokens @ [x]" "sds_inv x" "sds_val x = ?cur" by blast
          show "yields m (sdssplitlen_loop m s len sep seplen (j + (seplen - 1) + 1) (j + seplen) slots' tokens') ?P"
            using "1.IH"(1)[OF True eq h e] "1.prems" x sl len True by (simp add: so add.commute)
        qed
        with h show ?thesis by (simp only: if_True)
      next
        case h: False
        have "hd ?s = s ! j" "tl ?s = drop (j + 1) (take len s)" "start \<le> j" "j < length s"
          using True len by (simp_all add: hd_drop_conv_nth tl_drop drop_Suc)
        then have so: "split_on ?sep ?cur ?s = split_on ?sep (take (j + 1 - start) (drop start s)) (drop (j + 1) (take len s))"
          using h[unfolded hit] sep True len
          by (subst split_on.simps) (simp add: min_def take_drop_snoc[symmetric], linarith)
        have "yields m (sdssplitlen_loop m s len sep seplen (j + 1) start slots' tokens) ?P"
          unfolding so using sl len True "1.prems"(1,10-12) by (intro "1.IH"(2)[OF True eq h]) auto
        with h show ?thesis by (simp only: if_False)
      qed
    qed
    with True show ?thesis by (simp only: sdssplitlen_loop.simps[of m s len sep seplen j start slots tokens] if_True)
  qed
qed

lemma sdssplitlen_yields:
  assumes "malloc_ok m" "1 \<le> seplen" "0 < len" "len < 2 ^ 31"
    and "nat len \<le> length s" "nat seplen \<le> length sep" "len < 5 * 2 ^ 28 * seplen"
  shows "yields m (sdssplitlen m s len sep seplen) (\<lambda>r. \<exists>ts. r = Some ts \<and> (\<forall>t \<in> set ts. sds_inv t) \<and>
     map sds_val ts = split_on (take (nat seplen) sep) [] (take (nat len) s))"
proof -
  have split_slots: "split_slots 5" "nat len < 5 * 2 ^ 28 * nat seplen"
    using assms(2,3,7) by (auto simp: split_slots_def nat_less_iff intro!: exI[of _ 0])
  have "yields m (sdssplitlen_loop m s (nat len) sep (nat seplen) 0 0 5 [])
     (\<lambda>ts. (\<forall>t \<in> set ts. sds_inv t) \<and> map sds_val ts = split_on (take (nat seplen) sep) [] (take (nat len) s))"
    using sdssplitlen_loop_yields[of m "nat seplen" "nat len" s sep 0 0 "[]" 5] assms split_slots by simp
  then show ?thesis
    using assms by (auto simp: sdssplitlen_def not_less intro!: yields_bindE [OF yields_s_malloc] elim!: yields_bindE)
qed


subsection \<open>Joining\<close>

lemma sdscatsds_appended:
  assumes "malloc_ok m" "sds_inv s" "sds_inv t" "sds_room s (sdslen t)"
  shows "yields m (sdscatsds m s t) (sds_appended s (sds_val t))"
proof -
  have "sdslen t \<le> length (sds_buf t)" using assms(3) by (simp add: sds_inv_def)
  then show ?thesis
    using sdscatlen_yields[of m s "sdslen t" "sds_buf t"] assms
    by (simp add: sdscatsds_def sds_room_def sds_appended_def[abs_def] sds_val_def)
qed

lemma sdsjoinsds_loop_appended:
  assumes "malloc_ok m" "sds_inv join" "\<forall>a \<in> set argv. sds_inv a" "seplen \<le> length sep"
    and "sds_room join (length (join_with (take seplen sep) (map sds_val argv)))"
  shows "yields m (sdsjoinsds_loop m join argv sep seplen)
     (sds_appended join (join_with (take seplen sep) (map sds_val argv)))"
  using assms
proof (induction m join argv sep seplen rule: sdsjoinsds_loop.induct)
  case (1 m join sep seplen)
  then show ?case by (simp add: sds_appended_def)
next
  case (2 m join a sep seplen)
  then show ?case using sdscatsds_appended[of m join a] by simp
next
  case (3 m join a b argv sep seplen)
  let ?sep = "take seplen sep" and ?rest = "join_with (take seplen sep) (map sds_val (b # argv))"
  have a: "yields m (deref (sdscatsds m join a)) (sds_appended join (sds_val a))"
    using "3.prems" by (intro yields_deref sdscatsds_appended) (auto simp: sds_room_def)
  show ?case unfolding sdsjoinsds_loop.simps
  proof (rule yields_bindE_eq [OF a])
    fix j1 assume e1: "deref (sdscatsds m join a) = Inr j1" and j1: "sds_appended join (sds_val a) j1"
    have r1: "sds_room j1 (seplen + length ?rest)"
      using "3.prems" by (intro sds_appended_room[OF _ j1]) (simp_all add: sds_room_def)
    then have s: "yields m (deref (sdscatlen m j1 sep seplen)) (sds_appended j1 ?sep)"
      using sdscatlen_yields[of m j1 seplen sep] "3.prems"(1,4) j1
      by (intro yields_deref) (simp add: sds_room_def sds_appended_def[abs_def])
    show "yields m (bindE (deref (sdscatlen m j1 sep seplen)) (\<lambda>j2. sdsjoinsds_loop m j2 (b # argv) sep seplen))
      (sds_appended join (join_with ?sep (map sds_val (a # b # argv))))"
    proof (rule yields_bindE_eq [OF s])
      fix j2 assume e2: "deref (sdscatlen m j1 sep seplen) = Inr j2" and j2: "sds_appended j1 ?sep j2"
      have "sds_room j2 (length ?rest)"
        using r1 "3.prems"(4) j1 by (intro sds_appended_room[OF _ j2]) (simp_all add: sds_appended_def)
      then have "yields m (sdsjoinsds_loop m j2 (b # argv) sep seplen) (sds_appended j2 ?rest)"
        using "3.prems" j2 by (intro "3.IH"[OF e1 e2]) (auto simp: sds_appended_def)
      then show "yields m (sdsjoinsds_loop m j2 (b # argv) sep seplen)
          (sds_appended join (join_with ?sep (map sds_val (a # b # argv))))"
        by (rule yields_mono) (use j1 j2 in \<open>auto simp: sds_appended_def\<close>)
    qed
  qed
qed

lemma sdsjoinsds_yields:
  assumes "malloc_ok m" "\<forall>a \<in> set argv. sds_inv a" "seplen \<le> length sep"
    and "length (join_with (take seplen sep) (map sds_val argv)) + 2 ^ 20 + 18 < 2 ^ 64"
  shows "yields m (sdsjoinsds m argv sep seplen)
     (\<lambda>s. sds_inv s \<and> sds_val s = join_with (take seplen sep) (map sds_val argv))"
proof -
  have e: "yields m (if argv = [] then sdsempty m else deref (sdsempty m)) (\<lambda>s. sds_inv s \<and> sds_val s = [])"
    using sdsempty_yields[OF assms(1)] by (auto intro: yields_deref)
  show ?thesis unfolding sdsjoinsds_def
  proof (rule yields_bindE [OF e])
    fix j assume j: "sds_inv j \<and> sds_val j = []"
    then have "sdslen j = 0" using length_sds_val[of j] by simp
    then show "yields m (sdsjoinsds_loop m j argv sep seplen)
       (\<lambda>s. sds_inv s \<and> sds_val s = join_with (take seplen sep) (map sds_val argv))"
      using sdsjoinsds_loop_appended[of m j argv seplen sep] assms j
      by (simp add: sds_room_def sds_appended_def[abs_def])
  qed
qed

lemma sdsjoin_loop_appended:
  assumes "malloc_ok m" "sds_inv join" "0 \<notin> set sep" "\<forall>v \<in> set vs. 0 \<notin> set v"
    and "sds_room join (length (join_with sep vs))"
  shows "yields m (sdsjoin_loop m join (map (\<lambda>v. v @ [0]) vs) (sep @ [0])) (sds_appended join (join_with sep vs))"
  using assms
proof (induction sep vs arbitrary: join rule: join_with.induct)
  case (1 sep)
  then show ?case by (simp add: sds_appended_def)
next
  case (2 sep v)
  then show ?case using sdscat_appended[of m join v] by simp
next
  case (3 sep v w vs)
  let ?rest = "join_with sep (w # vs)"
  have a: "yields m (deref (sdscat m join (v @ [0]))) (sds_appended join v)"
    using "3.prems" by (intro yields_deref sdscat_appended) (auto simp: sds_room_def)
  show ?case unfolding sdsjoin_loop.simps list.map
  proof (rule yields_bindE [OF a])
    fix j1 assume j1: "sds_appended join v j1"
    have r1: "sds_room j1 (length sep + length ?rest)"
      using "3.prems" by (intro sds_appended_room[OF _ j1]) (simp_all add: sds_room_def)
    then have s: "yields m (deref (sdscat m j1 (sep @ [0]))) (sds_appended j1 sep)"
      using "3.prems" j1 by (intro yields_deref sdscat_appended) (auto simp: sds_room_def sds_appended_def)
    show "yields m (bindE (deref (sdscat m j1 (sep @ [0])))
        (\<lambda>j2. sdsjoin_loop m j2 ((w @ [0]) # map (\<lambda>v. v @ [0]) vs) (sep @ [0])))
      (sds_appended join (join_with sep (v # w # vs)))"
    proof (rule yields_bindE [OF s])
      fix j2 assume j2: "sds_appended j1 sep j2"
      have "sds_room j2 (length ?rest)"
        using r1 j1 by (intro sds_appended_room[OF _ j2]) (simp_all add: sds_appended_def)
      then have "yields m (sdsjoin_loop m j2 (map (\<lambda>v. v @ [0]) (w # vs)) (sep @ [0])) (sds_appended j2 ?rest)"
        using "3.prems" j2 by (intro "3.IH") (auto simp: sds_appended_def)
      then show "yields m (sdsjoin_loop m j2 ((w @ [0]) # map (\<lambda>v. v @ [0]) vs) (sep @ [0]))
          (sds_appended join (join_with sep (v # w # vs)))"
        unfolding list.map by (rule yields_mono) (use j1 j2 in \<open>auto simp: sds_appended_def\<close>)
    qed
  qed
qed


subsection \<open>Formatting\<close>

text \<open>The text a format produces; \<open>None\<close> when a directive has no argument of its type.\<close>

fun fmt_text :: "byte \<Rightarrow> fmtarg \<Rightarrow> byte list option" where
  "fmt_text d (FmtStr t) = (if d = 0x73 then Some (takeWhile (\<lambda>c. c \<noteq> 0) t) else None)"
| "fmt_text d (FmtSds t) = (if d = 0x53 then Some (sds_val t) else None)"
| "fmt_text d (FmtInt n) = (if d = 0x69 then Some (dec_int n) else None)"
| "fmt_text d (FmtLong n) = (if d = 0x49 then Some (dec_int n) else None)"
| "fmt_text d (FmtUInt n) = (if d = 0x75 then Some (dec_nat n) else None)"
| "fmt_text d (FmtULong n) = (if d = 0x55 then Some (dec_nat n) else None)"

fun render :: "byte list \<Rightarrow> fmtarg list \<Rightarrow> byte list option" where
  "render [] args = Some []"
| "render (c # f) args =
     (if c = 0x25 then
        (case f of
           [] \<Rightarrow> None
         | d # f' \<Rightarrow>
             if fmt_directive d then
               (case args of
                  [] \<Rightarrow> None
                | a # args' \<Rightarrow>
                    (case fmt_text d a of
                       None \<Rightarrow> None
                     | Some t \<Rightarrow> map_option ((@) t) (render f' args')))
             else map_option ((#) d) (render f' args))
      else map_option ((#) c) (render f args))"

text \<open>Arguments of the types the directives name, within the ranges of those types.\<close>

fun fmtarg_ok :: "fmtarg \<Rightarrow> bool" where
  "fmtarg_ok (FmtStr t) \<longleftrightarrow> 0 \<in> set t"
| "fmtarg_ok (FmtSds t) \<longleftrightarrow> sds_inv t"
| "fmtarg_ok (FmtInt n) \<longleftrightarrow> - (2 ^ 31) \<le> n \<and> n < 2 ^ 31"
| "fmtarg_ok (FmtLong n) \<longleftrightarrow> - (2 ^ 63) \<le> n \<and> n < 2 ^ 63"
| "fmtarg_ok (FmtUInt n) \<longleftrightarrow> n < 2 ^ 32"
| "fmtarg_ok (FmtULong n) \<longleftrightarrow> n < 2 ^ 64"

definition fmt_state :: "sds \<Rightarrow> byte list \<Rightarrow> sds \<times> int \<Rightarrow> bool" where
  "fmt_state s out r \<longleftrightarrow> sds_wf (fst r) \<and> sds_val (fst r) = sds_val s @ out \<and> snd r = int (sdslen (fst r))"

lemma sdsinclen_setlen: "sdsinclen s k = sdssetlen s (sdslen s + k)"
  by (cases "sds_hdr s") (simp_all add: sds_acc_defs)

lemma length_sds_val_wf: "sds_wf s \<Longrightarrow> length (sds_val s) = sdslen s"
  by (simp add: sds_wf_def sds_val_def)

lemma fmt_write_state:
  assumes "sds_wf s" "sdslen s + length bs \<le> sdsalloc s" "sdslen s + length bs < 2 ^ 31"
  shows "\<exists>r. fmt_write s (int (sdslen s)) bs = Inr r \<and> fmt_state s bs r"
proof -
  let ?n = "sdslen s + length bs"
  have fits: "sds_fits s ?n" using sds_fits_alloc assms(2) by (rule sds_fits_mono)
  have len: "?n < length (sds_buf s)" using assms(1,2) by (simp add: sds_wf_def)
  let ?b = "take (sdslen s) (sds_buf s) @ bs @ drop ?n (sds_buf s)"
  let ?s = "sdssetlen s ?n\<lparr>sds_buf := ?b\<rparr>"
  have "fmt_write s (int (sdslen s)) bs = Inr (?s, int ?n)"
    using len assms(3) by (simp add: fmt_write_def sdsinclen_setlen)
  moreover have "sdsalloc (sdssetlen s ?n) = (if sds_type s = SDS_TYPE_5 then ?n else sdsalloc s)"
    using fits by (simp add: sdsalloc_type5)
  then have "fmt_state s bs (?s, int ?n)"
    using fits len assms(1,2)
    by (auto simp: fmt_state_def sds_wf_def sds_val_def sds_setlen_flags)
  ultimately show ?thesis by blast
qed

lemma fmt_room:
  assumes "malloc_ok m" "sds_wf s" "sds_room s l"
  shows "yields m (if sdsavail s < l then deref (sdsMakeRoomFor m s l) else Inr s)
    (\<lambda>s'. sds_wf s' \<and> sdslen s' = sdslen s \<and> sds_val s' = sds_val s \<and> sdslen s' + l \<le> sdsalloc s')"
proof (cases "sdsavail s < l")
  case True
  have "yields m (deref (sdsMakeRoomFor m s l)) (sds_extends_wf s l)"
    using assms by (intro yields_deref sdsMakeRoomFor_wf) (simp_all add: sds_room_def)
  moreover have "sds_wf s' \<and> sdslen s' = sdslen s \<and> sds_val s' = sds_val s \<and> sdslen s' + l \<le> sdsalloc s'"
    if "sds_extends_wf s l s'" for s'
    using that assms(2) take_le_eq[of "sdslen s + 1" "sds_buf s'" "sds_buf s" "sdslen s"]
    by (auto simp: sds_extends_wf_def sds_wf_def sds_val_def sdsavail_eq)
  ultimately show ?thesis using True by (auto elim!: yields_mono)
next
  case False
  then show ?thesis using assms by (auto simp: sds_wf_def sdsavail_eq)
qed

lemma fmt_append_state:
  assumes "malloc_ok m" "sds_wf s" "l \<le> length str" "sdslen s + l < 2 ^ 31"
  shows "yields m (fmt_append m s (int (sdslen s)) str l) (fmt_state s (take l str))"
proof -
  have "sds_room s l" using assms(4) by (simp add: sds_room_def)
  show ?thesis unfolding fmt_append_def
  proof (rule yields_bindE [OF fmt_room [OF assms(1,2) \<open>sds_room s l\<close>]], goal_cases)
    case (1 s')
    then show ?case
      using fmt_write_state[of s' "take l str"] assms(3,4) by (auto simp: fmt_state_def)
  qed
qed

lemma fmt_arg_state:
  assumes "malloc_ok m" "sds_wf s" "length buf = SDS_LLSTR_SIZE" "fmtarg_ok a" "fmt_text d a = Some t"
    "sdslen s + length t < 2 ^ 31"
  shows "yields m (fmt_arg m buf s (int (sdslen s)) d a) (fmt_state s t)"
proof -
  have app: "yields m (fmt_append m s (int (sdslen s)) (t @ r) (length t)) (fmt_state s t)" for r
    using fmt_append_state[of m s "length t" "t @ r"] assms(1,2,6) by simp
  have dl: "length (dec_int n) < length buf" if "- (2 ^ 63) \<le> n" "n < 2 ^ 63" for n
    using length_dec_int[of n] that assms(3) by (simp add: SDS_LLSTR_SIZE_def)
  have dn: "length (dec_nat n) < length buf" if "n < 2 ^ 64" for n
    using length_dec_nat[of n 20] that assms(3) by (simp add: SDS_LLSTR_SIZE_def)
  show ?thesis
  proof (cases a)
    case (FmtStr x)
    have "\<exists>r. x = takeWhile (\<lambda>c. c \<noteq> 0) x @ r" by (metis takeWhile_dropWhile_id)
    then show ?thesis using assms app FmtStr by (auto simp: strlen_def split: if_splits)
  next
    case (FmtSds x)
    then obtain r where "sds_buf x = sds_val x @ 0 # r" using assms(4) sds_inv_cstring by auto
    then show ?thesis using assms app[of "0 # r"] FmtSds by (auto split: if_splits)
  next
    case (FmtInt n)
    then show ?thesis using assms app dl[of n] by (auto simp: sdsll2str_eq split: if_splits)
  next
    case (FmtLong n)
    then show ?thesis using assms app dl[of n] by (auto simp: sdsll2str_eq split: if_splits)
  next
    case (FmtUInt n)
    then show ?thesis using assms app dn[of n] by (auto simp: sdsull2str_eq split: if_splits)
  next
    case (FmtULong n)
    then show ?thesis using assms app dn[of n] by (auto simp: sdsull2str_eq split: if_splits)
  qed
qed


lemma fmt_state_len: "sds_wf s \<Longrightarrow> fmt_state s out (s', i) \<Longrightarrow> sdslen s' = sdslen s + length out"
  using length_sds_val_wf[of s] length_sds_val_wf[of s'] by (simp add: fmt_state_def)

lemma fmt_state_trans: "fmt_state s a (s', i) \<Longrightarrow> fmt_state s' b r \<Longrightarrow> fmt_state s (a @ b) r"
  by (simp add: fmt_state_def)

text \<open>A piece of output followed by the rest of the loop.\<close>

lemma fmt_step:
  assumes "sds_wf s" "yields m r (fmt_state s t)"
    and "\<And>s'. sds_wf s' \<Longrightarrow> sdslen s' = sdslen s + length t \<Longrightarrow>
        yields m (k (s', int (sdslen s'))) (fmt_state s' out)"
  shows "yields m (bindE r k) (fmt_state s (t @ out))"
proof (rule yields_bindE [OF assms(2)])
  fix x assume x: "fmt_state s t x"
  obtain s' i where xs: "x = (s', i)" by (cases x)
  have "i = int (sdslen s')" "sds_wf s'" using x xs by (auto simp: fmt_state_def)
  with assms(3)[of s'] fmt_state_len[OF assms(1)] x xs have "yields m (k x) (fmt_state s' out)" by simp
  then show "yields m (k x) (fmt_state s (t @ out))"
    using x xs by (auto elim!: yields_mono intro: fmt_state_trans)
qed

lemma fmt_write_yields:
  assumes "sds_wf s" "sdslen s + length bs \<le> sdsalloc s" "sdslen s + length bs < 2 ^ 31"
  shows "yields m (fmt_write s (int (sdslen s)) bs) (fmt_state s bs)"
  using fmt_write_state[OF assms] by auto

lemma sdscatfmt_loop_state:
  assumes "malloc_ok m" "length buf = SDS_LLSTR_SIZE" "sds_wf s" "0 \<notin> set fmt" "\<forall>a \<in> set args. fmtarg_ok a"
    and "render fmt args = Some out" "sdslen s + length out < 2 ^ 31"
  shows "yields m (sdscatfmt_loop m buf s (int (sdslen s)) (fmt @ [0]) args) (fmt_state s out)"
  using assms(3-)
proof (induction fmt args arbitrary: s out rule: render.induct)
  case (1 args)
  then show ?case by (simp add: fmt_state_def)
next
  case (2 c f args)
  let ?rest = "\<lambda>s1. if c = 0x25 then
          (case f @ [0] of
             [] \<Rightarrow> Inl OutOfBounds
           | next # f' \<Rightarrow>
               if fmt_directive next then
                 (case args of
                    [] \<Rightarrow> Inl UndefBehaviour
                  | a # args' \<Rightarrow>
                      bindE (fmt_arg m buf s1 (int (sdslen s)) next a) (\<lambda>(s2, i').
                        sdscatfmt_loop m buf s2 i' f' args'))
               else bindE (fmt_write s1 (int (sdslen s)) [next]) (\<lambda>(s2, i').
                      sdscatfmt_loop m buf s2 i' f' args))
        else bindE (fmt_write s1 (int (sdslen s)) [c]) (\<lambda>(s2, i'). sdscatfmt_loop m buf s2 i' (f @ [0]) args)"
  have "sds_room s 1" using "2.prems"(5) by (simp add: sds_room_def)
  note room = fmt_room[OF assms(1) "2.prems"(1) this]
  have "yields m (bindE (if sdsavail s < 1 then deref (sdsMakeRoomFor m s 1) else Inr s) ?rest) (fmt_state s out)"
  proof (rule yields_bindE [OF room])
    fix s1 assume s1: "sds_wf s1 \<and> sdslen s1 = sdslen s \<and> sds_val s1 = sds_val s \<and> sdslen s1 + 1 \<le> sdsalloc s1"
    note s1l = s1[THEN conjunct2, THEN conjunct1]
    have same: "fmt_state s x = fmt_state s1 x" for x using s1 by (intro ext) (simp add: fmt_state_def)
    have byte: "yields m (bindE (fmt_write s1 (int (sdslen s1)) [b]) (\<lambda>(s2, i'). sdscatfmt_loop m buf s2 i' (g @ [0]) args))
        (fmt_state s1 ([b] @ o'))"
      if "\<And>s2. sds_wf s2 \<Longrightarrow> sdslen s2 = sdslen s1 + length [b] \<Longrightarrow>
          yields m (sdscatfmt_loop m buf s2 (int (sdslen s2)) (g @ [0]) args) (fmt_state s2 o')"
        "length o' < length out" for b g o'
      using that s1 "2.prems"(5) by (intro fmt_step[OF _ fmt_write_yields]) auto
    show "yields m (?rest s1) (fmt_state s out)"
    proof (cases "c = 0x25")
      case False
      with "2.prems"(4) obtain o' where o: "render f args = Some o'" "out = c # o'" by auto
      have "yields m (bindE (fmt_write s1 (int (sdslen s1)) [c]) (\<lambda>(s2, i'). sdscatfmt_loop m buf s2 i' (f @ [0]) args))
        (fmt_state s1 ([c] @ o'))"
        using s1 o "2.prems" by (intro byte "2.IH"(3)[OF False]) auto
      with False show ?thesis by (simp add: same o(2) s1l)
    next
      case True
      with "2.prems"(4) obtain d f' where f: "f = d # f'" by (cases f) auto
      show ?thesis
      proof (cases "fmt_directive d")
        case dir: False
        with "2.prems"(4) True f obtain o' where o: "render f' args = Some o'" "out = d # o'" by auto
        have "yields m (bindE (fmt_write s1 (int (sdslen s1)) [d]) (\<lambda>(s2, i'). sdscatfmt_loop m buf s2 i' (f' @ [0]) args))
          (fmt_state s1 ([d] @ o'))"
          using s1 o "2.prems" f by (intro byte "2.IH"(2)[OF True f dir]) auto
        with True dir f show ?thesis by (simp add: same o(2) s1l)
      next
        case dir: True
        with "2.prems"(4) True f obtain a args' t o' where o: "args = a # args'" "fmt_text d a = Some t"
          "render f' args' = Some o'" "out = t @ o'"
          by (auto split: list.splits option.splits)
        have "yields m (bindE (fmt_arg m buf s1 (int (sdslen s1)) d a) (\<lambda>(s2, i'). sdscatfmt_loop m buf s2 i' (f' @ [0]) args'))
          (fmt_state s1 (t @ o'))"
        proof (rule fmt_step)
          show "yields m (fmt_arg m buf s1 (int (sdslen s1)) d a) (fmt_state s1 t)"
            using s1 o "2.prems" assms(1,2) by (intro fmt_arg_state) auto
          fix s2 assume "sds_wf s2" "sdslen s2 = sdslen s1 + length t"
          then show "yields m (case (s2, int (sdslen s2)) of (s2, i') \<Rightarrow> sdscatfmt_loop m buf s2 i' (f' @ [0]) args')
              (fmt_state s2 o')"
            using s1 o "2.prems" f "2.IH"(1)[OF True f dir o(1,2), of s2 o'] by auto
        qed (use s1 in simp)
        with True dir f o(1) show ?thesis by (simp add: same o(4) s1l)
      qed
    qed
  qed
  moreover have "c \<noteq> 0" using "2.prems"(2) by auto
  ultimately show ?case by (simp add: less_Suc0)
qed

lemma sds_terminate_wf:
  assumes "sds_wf s"
  shows "\<exists>b. mem_write (sds_buf s) (sdslen s) [0] = Inr b \<and> sds_inv (s\<lparr>sds_buf := b\<rparr>) \<and>
    sds_val (s\<lparr>sds_buf := b\<rparr>) = sds_val s"
  using assms by (auto simp: sds_wf_def sds_inv_iff sds_val_def nth_append)

lemma sdscatfmt_appended:
  assumes "malloc_ok m" "length buf = SDS_LLSTR_SIZE" "sds_inv s" "0 \<notin> set fmt" "\<forall>a \<in> set args. fmtarg_ok a"
    and "render fmt args = Some out" "sdslen s + length out < 2 ^ 31"
  shows "yields m (sdscatfmt m buf s (fmt @ [0]) args) (sds_appended s out)"
proof -
  have wf: "sds_wf s" using assms(3) by (simp add: sds_inv_iff)
  have i: "s32 (int (sdslen s)) = int (sdslen s)" using assms(7) by simp
  show ?thesis unfolding sdscatfmt_def i
  proof (rule yields_bindE [OF sdscatfmt_loop_state [OF assms(1,2) wf assms(4-7)]], goal_cases)
    case (1 r)
    obtain s' j where r: "r = (s', j)" by (cases r)
    with 1 have s': "sds_wf s'" "sds_val s' = sds_val s @ out" "j = int (sdslen s')" by (auto simp: fmt_state_def)
    with sds_terminate_wf[OF s'(1)] r show ?case by (auto simp: sds_appended_def)
  qed
qed

section \<open>Main properties\<close>

text \<open>
  C29. \<open>sdssplitlen\<close> cuts the input at the separator: the tokens, joined with the separator, are the
  input again, and no token contains the separator. The token array is always large enough for the
  token stored, and every token is a well-formed string. The input is at most \<open>INT_MAX\<close> bytes long, as its
  length is an \<open>int\<close>, and for a separator of one byte less than \<open>5 * 2 ^ 28\<close> bytes long: with that many tokens
  doubling the \<open>int\<close> number of slots would overflow.
\<close>

theorem sdssplitlen_correct:
  assumes "malloc_ok m" "1 \<le> seplen" "0 < len" "len < 2 ^ 31"
    and "nat len \<le> length s" "nat seplen \<le> length sep" "len < 5 * 2 ^ 28 * seplen"
  shows "yields m (sdssplitlen m s len sep seplen) (\<lambda>r. \<exists>ts. r = Some ts \<and> (\<forall>t \<in> set ts. sds_inv t) \<and>
     join_with (take (nat seplen) sep) (map sds_val ts) = take (nat len) s \<and>
     (\<forall>t \<in> set ts. \<not> sublist (take (nat seplen) sep) (sds_val t)))"
proof (rule yields_mono [OF sdssplitlen_yields [OF assms]])
  let ?sep = "take (nat seplen) sep" and ?s = "take (nat len) s"
  fix r assume "\<exists>ts. r = Some ts \<and> (\<forall>t \<in> set ts. sds_inv t) \<and> map sds_val ts = split_on ?sep [] ?s"
  then obtain ts where ts: "r = Some ts" "\<forall>t \<in> set ts. sds_inv t" "map sds_val ts = split_on ?sep [] ?s" by blast
  have "?sep \<noteq> []" using assms(2,6) by auto
  then have "\<forall>t \<in> set ts. \<not> sublist ?sep (sds_val t)"
    using split_on_no_sep[of ?sep "[]" ?s] unfolding ts(3)[symmetric] by simp
  with ts show "\<exists>ts. r = Some ts \<and> (\<forall>t \<in> set ts. sds_inv t) \<and> join_with ?sep (map sds_val ts) = ?s \<and>
      (\<forall>t \<in> set ts. \<not> sublist ?sep (sds_val t))"
    using join_split_on[of ?sep "[]" ?s] by auto
qed

theorem sdssplitlen_witness:
  "yields calloc_alloc (sdssplitlen calloc_alloc [65, 44, 66] 3 [44] 1) (\<lambda>r. \<exists>ts. r = Some ts \<and>
     (\<forall>t \<in> set ts. sds_inv t) \<and> join_with [44] (map sds_val ts) = [65, 44, 66] \<and>
     (\<forall>t \<in> set ts. \<not> sublist [44] (sds_val t)))"
  using sdssplitlen_correct[of calloc_alloc 1 3 "[65, 44, 66]" "[44]"] by simp

text \<open>
  C35. Splitting and joining are inverse: \<open>sdsjoinsds\<close> on the tokens of \<open>sdssplitlen\<close>, with the same
  separator, gives the input back, for an input within the bounds of \<open>sdssplitlen\<close>: less than \<open>2 ^ 31\<close> bytes,
  and less than \<open>5 * 2 ^ 28\<close> bytes if the separator is a single byte.
\<close>

theorem sdssplitlen_sdsjoinsds:
  assumes "malloc_ok m" "1 \<le> seplen" "0 < len" "len < 2 ^ 31"
    and "nat len \<le> length s" "nat seplen \<le> length sep" "len < 5 * 2 ^ 28 * seplen"
  shows "yields m (bindE (sdssplitlen m s len sep seplen) (\<lambda>r. sdsjoinsds m (the r) sep (nat seplen)))
     (\<lambda>x. sds_inv x \<and> sds_val x = take (nat len) s)"
proof (rule yields_bindE [OF sdssplitlen_yields [OF assms]])
  fix r assume "\<exists>ts. r = Some ts \<and> (\<forall>t \<in> set ts. sds_inv t) \<and>
     map sds_val ts = split_on (take (nat seplen) sep) [] (take (nat len) s)"
  then obtain ts where ts: "r = Some ts" "\<forall>t \<in> set ts. sds_inv t"
    and j: "join_with (take (nat seplen) sep) (map sds_val ts) = take (nat len) s"
    using join_split_on[of "take (nat seplen) sep" "[]" "take (nat len) s"] by auto
  show "yields m (sdsjoinsds m (the r) sep (nat seplen)) (\<lambda>x. sds_inv x \<and> sds_val x = take (nat len) s)"
    using sdsjoinsds_yields[of m ts "nat seplen" sep] assms ts j by auto
qed

theorem sdssplitlen_sdsjoinsds_witness:
  "yields calloc_alloc
     (bindE (sdssplitlen calloc_alloc [65, 44, 66] 3 [44] 1) (\<lambda>r. sdsjoinsds calloc_alloc (the r) [44] (nat 1)))
     (\<lambda>x. sds_inv x \<and> sds_val x = [65, 44, 66])"
  using sdssplitlen_sdsjoinsds[of calloc_alloc 1 3 "[65, 44, 66]" "[44]"] by simp

text \<open>
  C30. \<open>sdscatfmt\<close> appends the rendered format: literal bytes as they are, each directive replaced by
  its argument (decimal for integers, without the terminator for C strings), for a format with an
  argument of the right type per directive.
\<close>

theorem sdscatfmt_correct:
  assumes "malloc_ok m" "length buf = SDS_LLSTR_SIZE" "sds_inv s" "0 \<notin> set fmt" "\<forall>a \<in> set args. fmtarg_ok a"
    and "render fmt args = Some out" "sdslen s + length out < 2 ^ 31"
  shows "yields m (sdscatfmt m buf s (fmt @ [0]) args) (\<lambda>s'. sds_inv s' \<and> sds_val s' = sds_val s @ out)"
  using sdscatfmt_appended[OF assms] by (simp add: sds_appended_def [abs_def])

theorem sdscatfmt_witness:
  "yields calloc_alloc
     (sdscatfmt calloc_alloc (replicate SDS_LLSTR_SIZE 0) (sds_of [65]) ([0x25, 0x73, 0x3A, 0x25, 0x25] @ [0]) [FmtStr [66, 67, 0]])
     (\<lambda>s'. sds_inv s' \<and> sds_val s' = [65, 66, 67, 0x3A, 0x25])"
  using sdscatfmt_correct[of calloc_alloc "replicate SDS_LLSTR_SIZE 0" "sds_of [65]"
      "[0x25, 0x73, 0x3A, 0x25, 0x25]" "[FmtStr [66, 67, 0]]" "[66, 67, 0x3A, 0x25]"]
  by (simp add: fmt_directive_def)

end
