(* ===== verification/Util.thy ===== *)
theory Util
  imports Decimal
begin

text \<open>
  \<open>src/redis/src/util.c\<close>: conversions between integers and decimal strings, memory amounts, and
  glob-style pattern matching. An output buffer is passed and returned; an \<open>int\<close> result that
  reports success together with an output parameter is an option.
\<close>

section \<open>Integers to strings\<close>

fun digits10 :: "nat \<Rightarrow> nat" where
  "digits10 v =
     (if v < 10 then 1 else if v < 100 then 2 else if v < 1000 then 3
      else if v < 1000000000000 then
        (if v < 100000000 then
           (if v < 1000000 then
              (if v < 10000 then 4 else 5 + of_bool (v \<ge> 100000))
            else 7 + of_bool (v \<ge> 10000000))
         else if v < 10000000000 then 9 + of_bool (v \<ge> 1000000000)
         else 11 + of_bool (v \<ge> 100000000000))
      else 12 + digits10 (v div 1000000000000))"

declare digits10.simps [simp del]

definition ll_abs :: "int \<Rightarrow> nat" where
  "ll_abs v = (if v \<noteq> - (2 ^ 63) then to_size (- v) else (2 ^ 63 - 1) + 1)"

definition sdigits10 :: "int \<Rightarrow> nat" where
  "sdigits10 v = (if v < 0 then digits10 (ll_abs v) + 1 else digits10 (nat v))"

definition digits_table :: "byte list" where
  "digits_table = bytes_of (
     ''0001020304050607080910111213141516171819'' @
     ''2021222324252627282930313233343536373839'' @
     ''4041424344454647484950515253545556575859'' @
     ''6061626364656667686970717273747576777879'' @
     ''8081828384858687888990919293949596979899'')"

text \<open>The loop that stores two digits per iteration, then the last one or two digits.\<close>

fun ll2string_loop :: "byte list \<Rightarrow> nat \<Rightarrow> nat \<Rightarrow> byte list res" where
  "ll2string_loop dst next value =
     (if value \<ge> 100 then
        let i = (value mod 100) * 2 in
        bindE (mem_write dst next [digits_table ! (i + 1)]) (\<lambda>dst1.
        bindE (mem_write dst1 (u32sub next 1) [digits_table ! i]) (\<lambda>dst2.
          ll2string_loop dst2 (u32sub next 2) (value div 100)))
      else if value < 10 then mem_write dst next [word_of_nat (48 + value)]
      else let i = value * 2 in
        bindE (mem_write dst next [digits_table ! (i + 1)]) (\<lambda>dst1.
          mem_write dst1 (u32sub next 1) [digits_table ! i]))"

declare ll2string_loop.simps [simp del]

definition ll2string :: "byte list \<Rightarrow> nat \<Rightarrow> int \<Rightarrow> (byte list \<times> nat) res" where
  "ll2string dst dstlen svalue =
     (let negative = svalue < 0;
          value = (if negative then ll_abs svalue else nat svalue);
          len = digits10 value + of_bool negative in
      if len \<ge> dstlen then Inr (dst, 0) else
      bindE (mem_write dst len [0]) (\<lambda>dst1.
      bindE (ll2string_loop dst1 (len - 1) value) (\<lambda>dst2.
      bindE (if negative then mem_write dst2 0 [45] else Inr dst2) (\<lambda>dst3.
        Inr (dst3, len)))))"

section \<open>Strings to integers\<close>

text \<open>The digit loop; \<open>None\<close> is the return on overflow.\<close>

function string2ll_loop :: "byte list \<Rightarrow> nat \<Rightarrow> nat \<Rightarrow> nat \<Rightarrow> (nat \<times> nat) option res" where
  "string2ll_loop s slen plen v =
     (if plen < slen then
        bindE (getb s plen) (\<lambda>c.
          if c \<ge> 48 \<and> c \<le> 57 then
            if v > (2 ^ 64 - 1) div 10 then Inr None
            else if v * 10 > (2 ^ 64 - 1) - (unat c - 48) then Inr None
            else string2ll_loop s slen (plen + 1) (v * 10 + (unat c - 48))
          else Inr (Some (plen, v)))
      else Inr (Some (plen, v)))"
  by pat_completeness auto
termination by (relation "measure (\<lambda>(s, slen, plen, v). slen - plen)") auto

declare string2ll_loop.simps [simp del]

definition string2ll_finish :: "nat \<Rightarrow> bool \<Rightarrow> (nat \<times> nat) option \<Rightarrow> int option" where
  "string2ll_finish slen negative r =
     (case r of
        None \<Rightarrow> None
      | Some (plen, v) \<Rightarrow>
          if plen < slen then None
          else if negative then (if v > 2 ^ 63 then None else Some (- int v))
          else (if v > 2 ^ 63 - 1 then None else Some (int v)))"

definition string2ll :: "byte list \<Rightarrow> nat \<Rightarrow> int option res" where
  "string2ll s slen =
     (if slen = 0 then Inr None else
      bindE (getb s 0) (\<lambda>c0.
        if slen = 1 \<and> c0 = 48 then Inr (Some 0) else
        let negative = (c0 = 45); plen = (if negative then 1 else 0) in
        if plen = slen then Inr None else
        bindE (getb s plen) (\<lambda>c.
          if c \<ge> 49 \<and> c \<le> 57 then
            bindE (string2ll_loop s slen (plen + 1) (unat c - 48)) (\<lambda>r.
              Inr (string2ll_finish slen negative r))
          else if c = 48 \<and> slen = 1 then Inr (Some 0)
          else Inr None)))"

text \<open>\<open>long\<close> has 64 bits.\<close>

definition string2l :: "byte list \<Rightarrow> nat \<Rightarrow> int option res" where
  "string2l s slen =
     bindE (string2ll s slen) (\<lambda>r. Inr (case r of
        None \<Rightarrow> None
      | Some llval \<Rightarrow> if llval < - (2 ^ 63) \<or> llval > 2 ^ 63 - 1 then None else Some llval))"

section \<open>Amounts of memory\<close>

text \<open>\<open>strcasecmp\<close> with a literal, as the test for equality.\<close>

definition strcaseeq :: "byte list \<Rightarrow> string \<Rightarrow> bool" where
  "strcaseeq u lit \<longleftrightarrow> map tolower (takeWhile (\<lambda>b. b \<noteq> 0) u) = map tolower (bytes_of lit)"

text \<open>
  \<open>strtoll\<close> in base 10 on a terminated string: blanks, a sign, digits; the value is clamped to the
  range of \<open>long long\<close>. The second component is the number of bytes up to \<open>endptr\<close>, zero when there
  are no digits.
\<close>

definition strtoll10 :: "byte list \<Rightarrow> int \<times> nat" where
  "strtoll10 buf =
     (let blanks = length (takeWhile isspace buf);
          rest = drop blanks buf;
          signed = (rest \<noteq> [] \<and> (hd rest = 45 \<or> hd rest = 43));
          ds = takeWhile isdigit (if signed then tl rest else rest);
          v = int (digits_val ds);
          x = (if signed \<and> hd rest = 45 then - v else v) in
      if ds = [] then (0, 0)
      else (max (- (2 ^ 63)) (min (2 ^ 63 - 1) x), blanks + of_bool signed + length ds))"

text \<open>
  The result is the value together with \<open>*err\<close>. The product is a signed multiplication, undefined
  when it overflows.
\<close>

definition memtoll_unit :: "byte list \<Rightarrow> int option" where
  "memtoll_unit u =
     (if takeWhile (\<lambda>b. b \<noteq> 0) u = [] \<or> strcaseeq u ''b'' then Some 1
      else if strcaseeq u ''k'' then Some 1000
      else if strcaseeq u ''kb'' then Some 1024
      else if strcaseeq u ''m'' then Some (1000 * 1000)
      else if strcaseeq u ''mb'' then Some (1024 * 1024)
      else if strcaseeq u ''g'' then Some (1000 * 1000 * 1000)
      else if strcaseeq u ''gb'' then Some (1024 * 1024 * 1024)
      else None)"

definition memtoll :: "byte list \<Rightarrow> (int \<times> bool) res" where
  "memtoll p =
     bindE (strlen p) (\<lambda>n.
       let str = take n p;
           sign = (if str \<noteq> [] \<and> hd str = 45 then 1 else 0);
           digits = sign + length (takeWhile isdigit (drop sign str)) in
       case memtoll_unit (drop digits str) of
         None \<Rightarrow> Inr (0, True)
       | Some mul \<Rightarrow>
           if digits \<ge> 128 then Inr (0, True)
           else
             let buf = take digits str; (val, stop) = strtoll10 buf in
             if stop < length buf then Inr (0, True)
             else if val * mul < - (2 ^ 63) \<or> val * mul > 2 ^ 63 - 1 then Inl UndefBehaviour
             else Inr (val * mul, False))"

section \<open>The number of digits\<close>

lemma dec_nat_step: "10 \<le> n \<Longrightarrow> dec_nat n = dec_nat (n div 10) @ [word_of_nat (48 + n mod 10)]"
  by (simp add: dec_nat.simps[of n] del: of_nat_add)

lemma length_dec_nat_div: "10 ^ k \<le> n \<Longrightarrow> length (dec_nat n) = k + length (dec_nat (n div 10 ^ k))"
proof (induction k arbitrary: n)
  case (Suc k)
  have "(10::nat) \<le> 10 ^ Suc k" by simp
  then have n: "10 \<le> n" using Suc.prems by (rule order_trans)
  moreover have "10 ^ k \<le> n div 10" using Suc.prems by (simp add: less_eq_div_iff_mult_less_eq mult.commute)
  ultimately show ?case
    using Suc.IH[of "n div 10"] by (simp add: dec_nat_step[OF n] div_mult2_eq[symmetric])
qed simp

lemma length_dec_nat_eq: "10 ^ k \<le> n \<Longrightarrow> n < 10 ^ Suc k \<Longrightarrow> length (dec_nat n) = Suc k"
  using length_dec_nat[of n "Suc k"] length_dec_nat_ge[of k n] by simp

lemma digits10_eq: "digits10 v = length (dec_nat v)"
proof (induction v rule: digits10.induct)
  case (1 v)
  show ?case
  proof (cases "v < 1000000000000")
    case True
    have *: "length (dec_nat v) = Suc k" if "10 ^ k \<le> v" "v < 10 ^ Suc k" for k
      using length_dec_nat_eq that .
    show ?thesis
      using True *[of 1] *[of 2] *[of 3] *[of 4] *[of 5] *[of 6] *[of 7] *[of 8] *[of 9] *[of 10] *[of 11]
      by (subst digits10.simps) (auto simp: dec_nat.simps[of v] not_le not_less)
  next
    case False
    then have "length (dec_nat v) = 12 + length (dec_nat (v div 10 ^ 12))"
      using length_dec_nat_div[of 12 v] by simp
    with False "1.IH" show ?thesis by (subst digits10.simps) simp
  qed
qed

lemma ll_abs_eq: "- (2 ^ 63) \<le> v \<Longrightarrow> v < 0 \<Longrightarrow> ll_abs v = nat (- v)"
  by (auto simp: ll_abs_def)

lemma sdigits10_eq: "- (2 ^ 63) \<le> v \<Longrightarrow> v < 2 ^ 63 \<Longrightarrow> sdigits10 v = length (dec_int v)"
  by (simp add: sdigits10_def dec_int_def digits10_eq ll_abs_eq)

section \<open>Printing\<close>

lemma digits_table_eq:
  "digits_table = concat (map (\<lambda>k. [word_of_nat (48 + k div 10), word_of_nat (48 + k mod 10)]) [0..<100])"
  by code_simp

lemma concat_pairs_nth:
  "k < n \<Longrightarrow> concat (map (\<lambda>k. [f k, g k]) [0..<n]) ! (2 * k) = f k
     \<and> concat (map (\<lambda>k. [f k, g k]) [0..<n]) ! (2 * k + 1) = g k"
proof (induction n)
  case (Suc n)
  have "length (concat (map (\<lambda>k. [f k, g k]) [0..<n])) = 2 * n" by (induction n) simp_all
  with Suc show ?case by (auto simp: nth_append less_Suc_eq)
qed simp

lemma digits_table_nth:
  "k < 100 \<Longrightarrow> digits_table ! (2 * k) = word_of_nat (48 + k div 10)"
  "k < 100 \<Longrightarrow> digits_table ! (2 * k + 1) = word_of_nat (48 + k mod 10)"
  unfolding digits_table_eq by (simp_all only: concat_pairs_nth)

lemma dec_nat_two:
  assumes "100 \<le> v"
  shows "dec_nat v = dec_nat (v div 100) @ [digits_table ! (v mod 100 * 2), digits_table ! (v mod 100 * 2 + 1)]"
proof -
  have "dec_nat v = dec_nat (v div 10) @ [word_of_nat (48 + v mod 10)]" using assms by (intro dec_nat_step) simp
  moreover have "dec_nat (v div 10) = dec_nat (v div 10 div 10) @ [word_of_nat (48 + v div 10 mod 10)]"
    using assms by (intro dec_nat_step) simp
  moreover have "v mod 100 = 10 * (v div 10 mod 10) + v mod 10" using mod_mult2_eq[of v 10 10] by simp
  then have "v div 10 mod 10 = v mod 100 div 10" by simp
  moreover have "v mod 10 = v mod 100 mod 10" by (simp add: mod_mod_cancel)
  moreover have "v div 10 div 10 = v div 100" by (simp flip: div_mult2_eq)
  ultimately show ?thesis
    using digits_table_nth[of "v mod 100"] by (simp add: mult.commute del: of_nat_add)
qed

lemma dec_nat_last2: "10 \<le> v \<Longrightarrow> v < 100 \<Longrightarrow> dec_nat v = [digits_table ! (v * 2), digits_table ! (v * 2 + 1)]"
  using digits_table_nth[of v] dec_nat_step[of v] dec_nat.simps[of "v div 10"]
  by (simp add: mult.commute del: of_nat_add)

lemma ll2string_loop_eq:
  assumes "length (dec_nat v) \<le> nxt + 1" "nxt < length dst" "nxt < 2 ^ 32"
  shows "ll2string_loop dst nxt v =
    Inr (take (nxt + 1 - length (dec_nat v)) dst @ dec_nat v @ drop (nxt + 1) dst)"
  using assms
proof (induction v arbitrary: dst nxt rule: less_induct)
  case (less v)
  let ?i = "v mod 100 * 2"
  consider (big) "100 \<le> v" | (one) "v < 10" | (two) "10 \<le> v" "v < 100" by linarith
  then show ?case
  proof cases
    case big
    note d = dec_nat_two[OF big]
    have "length (dec_nat v) = length (dec_nat (v div 100)) + 2" by (simp add: d)
    moreover have "1 \<le> length (dec_nat (v div 100))" by (simp add: Suc_le_eq)
    ultimately have n: "2 \<le> nxt" "length (dec_nat (v div 100)) \<le> nxt - 2 + 1"
      using less.prems(1) by linarith+
    define d2 where "d2 = take (nxt - 1) dst @ [digits_table ! ?i, digits_table ! (?i + 1)] @ drop (nxt + 1) dst"
    have "ll2string_loop dst nxt v = ll2string_loop d2 (nxt - 2) (v div 100)"
      using big n(1) less.prems by (subst ll2string_loop.simps) (simp add: Let_def d2_def)
    also have "\<dots> = Inr (take (nxt - 2 + 1 - length (dec_nat (v div 100))) d2 @ dec_nat (v div 100) @ drop (nxt - 2 + 1) d2)"
      using n less.prems(2,3) big by (intro less.IH) (simp_all add: d2_def)
    also have "\<dots> = Inr (take (nxt + 1 - length (dec_nat v)) dst @ dec_nat v @ drop (nxt + 1) dst)"
      using n less.prems by (simp add: d d2_def)
    finally show ?thesis .
  next
    case one
    then show ?thesis using less.prems by (subst ll2string_loop.simps) (simp add: dec_nat.simps[of v] del: of_nat_add)
  next
    case two
    then have "1 \<le> nxt" using less.prems(1) by (simp add: dec_nat_last2)
    with two less.prems show ?thesis by (subst ll2string_loop.simps) (simp add: dec_nat_last2 Let_def)
  qed
qed

lemma ll2string_eq:
  assumes "- (2 ^ 63) \<le> x" "x < 2 ^ 63" "dstlen \<le> length dst"
  shows "ll2string dst dstlen x =
    (if dstlen \<le> length (dec_int x) then Inr (dst, 0)
     else Inr (dec_int x @ 0 # drop (length (dec_int x) + 1) dst, length (dec_int x)))"
proof -
  define v where "v = (if x < 0 then ll_abs x else nat x)"
  define len where "len = digits10 v + of_bool (x < 0)"
  have v: "v = nat \<bar>x\<bar>" using assms by (simp add: v_def ll_abs_eq)
  have len: "len = length (dec_int x)" by (simp add: len_def v digits10_eq dec_int_def)
  have l20: "len \<le> 20" using length_dec_int[OF assms(1,2)] len by simp
  have l1: "1 \<le> length (dec_nat v)" by (simp add: Suc_le_eq)
  have lenv: "len = length (dec_nat v) + of_bool (x < 0)" by (simp add: len_def digits10_eq)
  show ?thesis
  proof (cases "dstlen \<le> len")
    case True
    then show ?thesis by (simp add: ll2string_def Let_def len[symmetric] v_def[symmetric] len_def[symmetric])
  next
    case False
    define d1 where "d1 = take len dst @ 0 # drop (len + 1) dst"
    have d1: "length d1 = length dst" using False assms(3) by (simp add: d1_def)
    have "ll2string_loop d1 (len - 1) v =
        Inr (take (len - 1 + 1 - length (dec_nat v)) d1 @ dec_nat v @ drop (len - 1 + 1) d1)"
      using lenv l1 l20 d1 False assms(3) by (intro ll2string_loop_eq) auto
    then have loop: "ll2string_loop d1 (len - 1) v =
        Inr (take (of_bool (x < 0)) dst @ dec_nat v @ 0 # drop (len + 1) dst)"
      using lenv l1 False assms(3) by (simp add: d1_def)
    have "ll2string dst dstlen x = bindE (ll2string_loop d1 (len - 1) v) (\<lambda>dst2.
        bindE (if x < 0 then mem_write dst2 0 [45] else Inr dst2) (\<lambda>dst3. Inr (dst3, len)))"
      unfolding ll2string_def Let_def v_def[symmetric] len_def[symmetric] using False assms(3)
      by (simp add: d1_def)
    moreover have "drop (Suc 0) (take (Suc 0) dst @ dec_nat v @ 0 # drop (len + 1) dst) = dec_nat v @ 0 # drop (len + 1) dst"
      using False assms(3) by (cases dst) auto
    ultimately show ?thesis
      using False loop unfolding len[symmetric]
      by (cases "x < 0") (simp_all add: dec_int_def v)
  qed
qed

section \<open>Parsing\<close>

lemma foldl_digits_ge: "v \<le> foldl (\<lambda>a d. a * 10 + (unat (d :: byte) - 48)) v ds"
proof (induction ds arbitrary: v)
  case (Cons d ds)
  have "v \<le> v * 10 + (unat d - 48)" by simp
  also note Cons.IH
  finally show ?case by simp
qed simp

lemma string2ll_loop_eq:
  assumes "slen \<le> length s" "plen \<le> slen"
  shows "string2ll_loop s slen plen v =
    (let ds = takeWhile isdigit (drop plen (take slen s));
         w = foldl (\<lambda>a d. a * 10 + (unat d - 48)) v ds
     in Inr (if w < 2 ^ 64 \<or> ds = [] then Some (plen + length ds, w) else None))"
  using assms
proof (induction s slen plen v rule: string2ll_loop.induct)
  case (1 s slen plen v)
  let ?f = "\<lambda>a d. a * 10 + (unat (d :: byte) - 48)"
  show ?case
  proof (cases "plen < slen \<and> isdigit (s ! plen)")
    case False
    have ds: "takeWhile isdigit (drop plen (take slen s)) = []"
      using False "1.prems" by (cases "plen < slen") (simp_all add: takeWhile_eq_Nil_iff hd_drop_conv_nth)
    have "string2ll_loop s slen plen v = Inr (Some (plen, v))"
      using False "1.prems" by (subst string2ll_loop.simps) (cases "plen < slen"; auto simp: isdigit_def)
    then show ?thesis unfolding ds by simp
  next
    case True
    let ?c = "s ! plen" and ?ds = "takeWhile isdigit (drop (plen + 1) (take slen s))"
    have ds: "takeWhile isdigit (drop plen (take slen s)) = ?c # ?ds"
      using True "1.prems" by (subst Cons_nth_drop_Suc[symmetric]) simp_all
    have c: "unat ?c - 48 \<le> 9" using True by (auto simp: isdigit_unat)
    have c2: "?c \<ge> 48 \<and> ?c \<le> 57" using True by (simp add: isdigit_def)
    show ?thesis
    proof (cases "?f v ?c < 2 ^ 64")
      case fit: True
      then have "\<not> v > (2 ^ 64 - 1) div 10" "\<not> v * 10 > (2 ^ 64 - 1) - (unat ?c - 48)" by auto
      then have "string2ll_loop s slen plen v = string2ll_loop s slen (plen + 1) (?f v ?c)"
        using True c2 "1.prems" by (subst string2ll_loop.simps) simp
      also have "\<dots> = Inr (if foldl ?f (?f v ?c) ?ds < 2 ^ 64 \<or> ?ds = [] then Some (plen + 1 + length ?ds, foldl ?f (?f v ?c) ?ds) else None)"
        using "1.IH"[of ?c] True c2 \<open>\<not> v > _\<close> \<open>\<not> v * 10 > _\<close> "1.prems" by (simp add: Let_def)
      finally show ?thesis using fit by (auto simp: ds Let_def)
    next
      case over: False
      then have "v > (2 ^ 64 - 1) div 10 \<or> v * 10 > (2 ^ 64 - 1) - (unat ?c - 48)" using c by auto
      then have "string2ll_loop s slen plen v = Inr None"
        using True c2 "1.prems" by (subst string2ll_loop.simps) auto
      moreover have "\<not> foldl ?f (?f v ?c) ?ds < 2 ^ 64" using over foldl_digits_ge[of "?f v ?c" ?ds] by linarith
      ultimately show ?thesis by (simp add: ds Let_def)
    qed
  qed
qed

lemma digits_val_Cons: "digits_val (c # cs) = foldl (\<lambda>a d. a * 10 + (unat d - 48)) (unat c - 48) cs"
  by (simp add: digits_val_def)

text \<open>The canonical digit strings are the representations.\<close>

lemma digits_val_pos: "ds \<noteq> [] \<Longrightarrow> unat (hd ds) > 48 \<Longrightarrow> 0 < digits_val ds"
  using foldl_digits_ge[of "unat (hd ds) - 48" "tl ds"] by (cases ds) (auto simp: digits_val_Cons)

lemma dec_nat_digits_val:
  "ds \<noteq> [] \<Longrightarrow> \<forall>d \<in> set ds. isdigit d \<Longrightarrow> unat (hd ds) > 48 \<Longrightarrow> dec_nat (digits_val ds) = ds"
proof (induction ds rule: rev_induct)
  case (snoc d ds)
  have d: "48 \<le> unat d" "unat d \<le> 57" using snoc.prems(2) by (auto simp: isdigit_unat)
  have w: "word_of_nat (48 + (unat d - 48)) = d" using d(1) by (simp del: of_nat_add)
  show ?case
  proof (cases "ds = []")
    case True
    then show ?thesis using d w by (simp add: dec_nat.simps[of "unat d - 48"] del: of_nat_add)
  next
    case False
    then have IH: "dec_nat (digits_val ds) = ds" and "0 < digits_val ds"
      using snoc.IH snoc.prems(2,3) digits_val_pos[of ds] by simp_all
    moreover have "unat d - 48 < 10" using d by auto
    ultimately show ?thesis
      using w by (subst dec_nat.simps) (simp del: of_nat_add)
  qed
qed simp

definition ll_bound :: "bool \<Rightarrow> nat" where
  "ll_bound negative = (if negative then 2 ^ 63 else 2 ^ 63 - 1)"

lemma string2ll_digits:
  assumes "slen \<le> length s" "plen < slen" "unat (s ! plen) > 48" "isdigit (s ! plen)"
  shows "bindE (string2ll_loop s slen (plen + 1) (unat (s ! plen) - 48)) (\<lambda>r. Inr (string2ll_finish slen negative r)) =
    (let ds = drop plen (take slen s) in
     Inr (if (\<forall>d \<in> set ds. isdigit d) \<and> digits_val ds \<le> ll_bound negative
          then Some (if negative then - int (digits_val ds) else int (digits_val ds)) else None))"
proof -
  let ?f = "\<lambda>a d. a * 10 + (unat (d :: byte) - 48)"
  define cs where "cs = drop (plen + 1) (take slen s)"
  have ds: "drop plen (take slen s) = s ! plen # cs"
    using assms(1,2) by (simp add: cs_def Cons_nth_drop_Suc[symmetric])
  define w where "w = foldl ?f (unat (s ! plen) - 48) (takeWhile isdigit cs)"
  have c9: "unat (s ! plen) - 48 < 2 ^ 64" using assms(4) by (auto simp: isdigit_unat)
  have loop: "string2ll_loop s slen (plen + 1) (unat (s ! plen) - 48) =
      Inr (if w < 2 ^ 64 then Some (plen + 1 + length (takeWhile isdigit cs), w) else None)"
    using c9 assms(1,2) by (subst string2ll_loop_eq) (auto simp: Let_def cs_def w_def)
  have lcs: "plen + 1 + length cs = slen" using assms(1,2) by (simp add: cs_def)
  show ?thesis
  proof (cases "\<forall>d \<in> set cs. isdigit d")
    case True
    then have tw: "takeWhile isdigit cs = cs" by (simp add: takeWhile_eq_all_conv)
    then have "w = digits_val (s ! plen # cs)" by (simp only: w_def digits_val_Cons)
    with True lcs assms(4) show ?thesis
      unfolding loop ds by (auto simp: string2ll_finish_def Let_def ll_bound_def tw)
  next
    case False
    then have "takeWhile isdigit cs \<noteq> cs" by (metis takeWhile_eq_all_conv)
    then have "length (takeWhile isdigit cs) < length cs"
      by (metis length_takeWhile_le linorder_not_le order_antisym takeWhile_eq_take take_all)
    with False lcs show ?thesis unfolding loop ds by (auto simp: string2ll_finish_def Let_def)
  qed
qed

definition ll_of_string :: "byte list \<Rightarrow> int option" where
  "ll_of_string bs =
     (if bs = [48] then Some 0
      else let negative = (bs \<noteq> [] \<and> hd bs = 45); ds = (if negative then tl bs else bs) in
        if ds \<noteq> [] \<and> unat (hd ds) > 48 \<and> (\<forall>d \<in> set ds. isdigit d) \<and> digits_val ds \<le> ll_bound negative
        then Some (if negative then - int (digits_val ds) else int (digits_val ds)) else None)"

lemma ll_of_string_sign:
  assumes "bs \<noteq> []" "bs \<noteq> [48]"
  shows "ll_of_string bs =
    (let negative = (hd bs = 45); ds = drop (if negative then 1 else 0) bs in
       if ds \<noteq> [] \<and> unat (hd ds) > 48 \<and> (\<forall>d \<in> set ds. isdigit d) \<and> digits_val ds \<le> ll_bound negative
       then Some (if negative then - int (digits_val ds) else int (digits_val ds)) else None)"
  using assms by (cases bs) (simp_all add: ll_of_string_def Let_def)

lemma string2ll_eq:
  assumes "slen \<le> length s"
  shows "string2ll s slen = Inr (ll_of_string (take slen s))"
proof (cases "slen = 0 \<or> (slen = 1 \<and> s ! 0 = 48)")
  case True
  then show ?thesis using assms by (cases s) (auto simp: string2ll_def ll_of_string_def Let_def getb_def)
next
  case False
  define plen where "plen = (if s ! 0 = 45 then 1 else 0 :: nat)"
  let ?ds = "drop plen (take slen s)" and ?n = "s ! 0 = 45"
  have bs: "take slen s \<noteq> []" "hd (take slen s) = s ! 0" using False assms by (cases s; auto)+
  have "take slen s \<noteq> [48]"
  proof
    assume e: "take slen s = [48]"
    from arg_cong [OF this, of length] assms have "slen = 1" by simp
    with e bs(2) False show False by simp
  qed
  note spec = ll_of_string_sign[OF bs(1) this, unfolded bs(2) Let_def, folded plen_def]
  show ?thesis
  proof (cases "plen < slen")
    case True
    have c: "(49 \<le> s ! plen \<and> s ! plen \<le> 57) = (unat (s ! plen) > 48 \<and> isdigit (s ! plen))"
      by (auto simp: isdigit_unat word_le_nat_alt)
    have ds: "?ds \<noteq> []" "hd ?ds = s ! plen" using True assms by (simp_all add: hd_drop_conv_nth)
    have "string2ll s slen = (if 49 \<le> s ! plen \<and> s ! plen \<le> 57
        then bindE (string2ll_loop s slen (plen + 1) (unat (s ! plen) - 48)) (\<lambda>r. Inr (string2ll_finish slen ?n r))
        else Inr None)"
      using False True assms order.strict_trans2[OF True assms]
      by (auto simp: string2ll_def Let_def plen_def getb_def)
    also have "\<dots> = Inr (ll_of_string (take slen s))"
      unfolding c spec using ds string2ll_digits[OF assms True, of ?n] hd_in_set[OF ds(1)]
      by (auto simp: Let_def)
    finally show ?thesis .
  next
    case plen: False
    then have "?ds = []" by simp
    moreover have "slen = 1" "s ! 0 = 45" "0 < length s"
      using plen False assms by (auto simp: plen_def split: if_splits)
    ultimately show ?thesis unfolding spec by (simp add: string2ll_def Let_def)
  qed
qed

lemma ll_of_string_iff:
  "ll_of_string bs = Some x \<longleftrightarrow> bs = dec_int x \<and> - (2 ^ 63) \<le> x \<and> x < 2 ^ 63"
proof
  assume a: "ll_of_string bs = Some x"
  show "bs = dec_int x \<and> - (2 ^ 63) \<le> x \<and> x < 2 ^ 63"
  proof (cases "bs = [48]")
    case True
    with a show ?thesis by (simp add: ll_of_string_def dec_int_def dec_nat.simps)
  next
    case False
    define neg ds where "neg = (bs \<noteq> [] \<and> hd bs = 45)" and "ds = (if neg then tl bs else bs)"
    have d: "ds \<noteq> []" "unat (hd ds) > 48" "\<forall>d \<in> set ds. isdigit d" "digits_val ds \<le> ll_bound neg"
      "x = (if neg then - int (digits_val ds) else int (digits_val ds))"
      using a False unfolding ll_of_string_def Let_def neg_def[symmetric] ds_def[symmetric]
      by (simp_all split: if_splits)
    have "bs = (if neg then 45 # ds else ds)" by (cases bs) (auto simp: neg_def ds_def)
    with d digits_val_pos[OF d(1,2)] dec_nat_digits_val[OF d(1,3,2)] show ?thesis
      by (auto simp: dec_int_def ll_bound_def split: if_splits)
  qed
next
  assume a: "bs = dec_int x \<and> - (2 ^ 63) \<le> x \<and> x < 2 ^ 63"
  have hd: "unat (hd (dec_nat n)) > 48" if "n \<noteq> 0" for n
    using hd_dec_nat[OF that] dec_nat_digits[of n] by (cases "dec_nat n") (auto simp: isdigit_unat)
  show "ll_of_string bs = Some x"
  proof (cases "x = 0")
    case True
    with a show ?thesis by (simp add: ll_of_string_def dec_int_def dec_nat.simps)
  next
    case False
    then have "dec_nat (nat \<bar>x\<bar>) \<noteq> [48]" using hd[of "nat \<bar>x\<bar>"] by auto
    with a False hd[of "nat \<bar>x\<bar>"] dec_nat_digits[of "nat \<bar>x\<bar>"] dec_nat_not_minus[of "nat \<bar>x\<bar>"]
    show ?thesis by (auto simp: ll_of_string_def dec_int_def Let_def ll_bound_def)
  qed
qed

section \<open>Memory amounts\<close>

lemma isdigit_not_space: "isdigit d \<Longrightarrow> \<not> isspace d"
  by (auto simp: isdigit_unat isspace_def word_le_nat_alt)

lemma takeWhile_dec_nat: "takeWhile isdigit (dec_nat n) = dec_nat n"
  using dec_nat_digits by (simp add: takeWhile_eq_all_conv)

lemma hd_dec_nat_neq: "hd (dec_nat n) \<noteq> 45" "hd (dec_nat n) \<noteq> 43" "\<not> isspace (hd (dec_nat n))"
proof -
  have d: "isdigit (hd (dec_nat n))" using dec_nat_digits[of n] by simp
  from isdigit_not_space[OF d] show "\<not> isspace (hd (dec_nat n))" .
  from d show "hd (dec_nat n) \<noteq> 45" "hd (dec_nat n) \<noteq> 43" by (auto simp: isdigit_unat)
qed

lemma strtoll10_dec_int:
  assumes "- (2 ^ 63) \<le> x" "x < 2 ^ 63"
  shows "strtoll10 (dec_int x) = (x, length (dec_int x))"
proof -
  have sp: "takeWhile isspace (dec_int x) = []"
    using hd_dec_nat_neq(3)[of "nat x"]
    by (cases "x < 0") (simp_all add: dec_int_def takeWhile_eq_Nil_iff isspace_def)
  show ?thesis
    unfolding strtoll10_def sp using assms
    by (cases "x < 0") (simp_all add: Let_def dec_int_def hd_dec_nat_neq takeWhile_dec_nat)
qed

lemma isdigit_tolower: "isdigit d \<Longrightarrow> tolower d = d"
  by (auto simp: isdigit_unat tolower_def word_le_nat_alt)

lemma strcaseeq_hd:
  assumes "strcaseeq u (c # cs)" "u \<noteq> []" "0 \<notin> set u" "\<not> isdigit (tolower (word_of_nat (of_char c)))"
  shows "\<not> isdigit (hd u)"
proof
  assume d: "isdigit (hd u)"
  have "tolower (hd u) = tolower (word_of_nat (of_char c))"
    using assms(1-3) by (cases u) (auto simp: strcaseeq_def bytes_of_def)
  with isdigit_tolower[OF d] d assms(4) show False by simp
qed

lemma memtoll_unit_Some:
  assumes "memtoll_unit u = Some mul" "0 \<notin> set u"
  shows "takeWhile isdigit u = []" "1 \<le> mul"
proof -
  show "1 \<le> mul" using assms(1) by (auto simp: memtoll_unit_def split: if_splits)
  have "\<not> isdigit (hd u)" if "u \<noteq> []"
  proof -
    have "takeWhile (\<lambda>b. b \<noteq> 0) u \<noteq> []" using that assms(2) by (cases u) auto
    with assms(1) have "\<exists>c cs. strcaseeq u (c # cs) \<and> c \<in> {CHR ''b'', CHR ''k'', CHR ''m'', CHR ''g''}"
      by (auto simp: memtoll_unit_def split: if_splits)
    then obtain c cs where c: "strcaseeq u (c # cs)" "c \<in> {CHR ''b'', CHR ''k'', CHR ''m'', CHR ''g''}" by blast
    from c(2) have "\<not> isdigit (tolower (word_of_nat (of_char c)))" by (auto simp: tolower_def isdigit_def)
    from strcaseeq_hd[OF c(1) that assms(2) this] show ?thesis .
  qed
  then show "takeWhile isdigit u = []" by (auto simp: takeWhile_eq_Nil_iff)
qed

lemma memtoll_dec_int:
  assumes "memtoll_unit u = Some mul" "0 \<notin> set u" "- (2 ^ 63) \<le> x * mul" "x * mul < 2 ^ 63"
  shows "memtoll (dec_int x @ u @ [0]) = Inr (x * mul, False)"
proof -
  note u = memtoll_unit_Some[OF assms(1,2)]
  let ?d = "dec_nat (nat \<bar>x\<bar>)"
  have "\<bar>x\<bar> * 1 \<le> \<bar>x\<bar> * mul" using u(2) by (intro mult_left_mono) simp_all
  then have ax: "\<bar>x\<bar> \<le> \<bar>x * mul\<bar>" using u(2) by (simp add: abs_mult)
  have x: "- (2 ^ 63) \<le> x \<and> x < 2 ^ 63"
  proof (cases "x < 0")
    case True
    then have "x * mul \<le> 0" using u(2) by (simp add: mult_le_0_iff)
    then show ?thesis using ax assms(3) True by linarith
  next
    case False
    then have "0 \<le> x * mul" using u(2) by simp
    then show ?thesis using ax assms(4) False by linarith
  qed
  have l: "length (dec_int x) < 128" using length_dec_int[of x] x by simp
  have "strlen ((dec_int x @ u) @ 0 # []) = Inr (length (dec_int x @ u))"
    using assms(2) dec_int_nonzero[of x] by (intro strlen_cstring) simp
  then have sl: "strlen (dec_int x @ u @ [0]) = Inr (length (dec_int x @ u))" by simp
  define sign :: nat where "sign = (if dec_int x @ u \<noteq> [] \<and> hd (dec_int x @ u) = 45 then 1 else 0)"
  have sign: "sign = (if x < 0 then 1 else 0)"
    using dec_nat_not_minus[of "nat x"] by (auto simp: sign_def dec_int_def)
  have "takeWhile isdigit (?d @ u) = ?d"
    using dec_nat_digits[of "nat \<bar>x\<bar>"] u(1) by (simp add: takeWhile_append)
  then have digits: "sign + length (takeWhile isdigit (drop sign (dec_int x @ u))) = length (dec_int x)"
    by (auto simp: sign dec_int_def)
  have str: "take (length (dec_int x @ u)) (dec_int x @ u @ [0]) = dec_int x @ u" by simp
  show ?thesis
    unfolding memtoll_def sl bindE_simps str Let_def sign_def[symmetric] digits
    using assms l x by (simp add: strtoll10_dec_int)
qed

section \<open>Main properties\<close>

text \<open>
  C22. \<open>string2ll\<close> accepts exactly the canonical decimal representations of the values of \<open>long long\<close>:
  it returns \<open>x\<close> if and only if the bytes are the representation of \<open>x\<close>, with no blank, no plus sign,
  no leading zero and no overflow, and it never reads outside the string.
\<close>

theorem string2ll_exact:
  assumes "slen \<le> length s"
  shows "\<exists>r. string2ll s slen = Inr r \<and>
    (\<forall>x. r = Some x \<longleftrightarrow> take slen s = dec_int x \<and> - (2 ^ 63) \<le> x \<and> x < 2 ^ 63)"
  using string2ll_eq[OF assms] ll_of_string_iff by simp

theorem string2ll_exact_witness:
  "\<exists>r. string2ll [45, 52, 50, 0] 3 = Inr r \<and>
    (\<forall>x. r = Some x \<longleftrightarrow> [45, 52, 50] = dec_int x \<and> - (2 ^ 63) \<le> x \<and> x < 2 ^ 63)"
  using string2ll_exact[of 3 "[45, 52, 50, 0]"] by simp

text \<open>
  C27. Printing with \<open>ll2string\<close> and parsing with \<open>string2ll\<close> gives the value back, for every
  \<open>long long\<close>; \<open>ll2string\<close> stores the representation, its terminator and nothing else, and returns
  its length, which is the one \<open>sdigits10\<close> predicts.
\<close>

theorem ll2string_string2ll:
  assumes "- (2 ^ 63) \<le> x" "x < 2 ^ 63" "sdigits10 x < dstlen" "dstlen \<le> length dst"
  shows "ll2string dst dstlen x = Inr (dec_int x @ 0 # drop (sdigits10 x + 1) dst, sdigits10 x) \<and>
    bindE (ll2string dst dstlen x) (\<lambda>(buf, len). string2ll buf len) = Inr (Some x)"
proof -
  have e: "ll2string dst dstlen x = Inr (dec_int x @ 0 # drop (sdigits10 x + 1) dst, sdigits10 x)"
    using ll2string_eq[OF assms(1,2,4)] assms(3) sdigits10_eq[OF assms(1,2)] by simp
  have "ll_of_string (dec_int x) = Some x" using assms(1,2) by (simp add: ll_of_string_iff)
  with e sdigits10_eq[OF assms(1,2)] show ?thesis by (simp add: string2ll_eq)
qed

theorem ll2string_string2ll_witness:
  "bindE (ll2string (replicate 32 7) 32 (- 9223372036854775808)) (\<lambda>(buf, len). string2ll buf len)
     = Inr (Some (- 9223372036854775808))"
  by (rule ll2string_string2ll [THEN conjunct2]) (simp_all add: sdigits10_def ll_abs_def digits10.simps)

text \<open>
  \<open>memtoll\<close> multiplies the number by the unit: a decimal integer followed by one of the units of
  the table, in any letter case, gives the product, as long as that is a \<open>long long\<close>.
\<close>

lemma memtoll_correct:
  assumes "memtoll_unit u = Some mul" "0 \<notin> set u" "- (2 ^ 63) \<le> x * mul" "x * mul < 2 ^ 63"
  shows "memtoll (dec_int x @ u @ [0]) = Inr (x * mul, False)"
  using memtoll_dec_int[OF assms] .

theorem memtoll_witness: "memtoll (dec_int 2 @ [71, 98] @ [0]) = Inr (2 * 1073741824, False)"
proof (rule memtoll_correct)
  show "memtoll_unit [71, 98] = Some 1073741824" by code_simp
qed simp_all

end
