(* ===== verification/Glob.thy ===== *)
theory Glob
  imports Prelude
begin

text \<open>
  \<open>stringmatchlen\<close> and \<open>stringmatch\<close> of \<open>src/redis/src/util.c\<close>: glob-style pattern matching. The two
  strings are memory regions with a position and the \<open>int\<close> length the code counts down; a read
  outside a region is \<open>OutOfBounds\<close>. The result is compared with a matcher on parsed patterns.
\<close>

section \<open>The code\<close>

text \<open>\<open>while (pattern[1] == '*')\<close>.\<close>

function star_skip :: "byte list \<Rightarrow> nat \<Rightarrow> int \<Rightarrow> (nat \<times> int) res" where
  "star_skip P i pl =
     bindE (getb P (i + 1)) (\<lambda>c. if c = 42 then star_skip P (i + 1) (pl - 1) else Inr (i, pl))"
  by pat_completeness auto
termination
  by (relation "measure (\<lambda>(P, i, pl). length P - i)") (auto simp: getb_def split: if_splits)

text \<open>\<open>while (*pattern == '*')\<close>, after the whole string has been consumed.\<close>

function star_tail :: "byte list \<Rightarrow> nat \<Rightarrow> int \<Rightarrow> int res" where
  "star_tail P i pl =
     bindE (getb P i) (\<lambda>c. if c = 42 then star_tail P (i + 1) (pl - 1) else Inr pl)"
  by pat_completeness auto
termination
  by (relation "measure (\<lambda>(P, i, pl). length P - i)") (auto simp: getb_def split: if_splits)

text \<open>A \<open>char\<close> is signed; \<open>tolower\<close> changes only the ASCII capitals.\<close>

definition range_hit :: "bool \<Rightarrow> byte \<Rightarrow> byte \<Rightarrow> byte \<Rightarrow> bool" where
  "range_hit nocase p0 p2 c =
     (let start = (if sint p0 > sint p2 then p2 else p0);
          end' = (if sint p0 > sint p2 then p0 else p2);
          low = (\<lambda>b. if nocase then tolower b else b) in
      sint (low start) \<le> sint (low c) \<and> sint (low c) \<le> sint (low end'))"

definition char_eq :: "bool \<Rightarrow> byte \<Rightarrow> byte \<Rightarrow> bool" where
  "char_eq nocase a b \<longleftrightarrow> (if nocase then tolower a = tolower b else a = b)"

text \<open>The loop over a character class; \<open>str0\<close> is the read of \<open>string[0]\<close>.\<close>

function class_loop :: "byte list \<Rightarrow> nat \<Rightarrow> int \<Rightarrow> byte res \<Rightarrow> bool \<Rightarrow> bool \<Rightarrow> (nat \<times> int \<times> bool) res" where
  "class_loop P i pl str0 nocase hit =
     bindE (getb P i) (\<lambda>c.
       if c = 92 \<and> pl \<ge> 2 then
         bindE (getb P (i + 1)) (\<lambda>d. bindE str0 (\<lambda>s0.
           class_loop P (i + 2) (pl - 2) str0 nocase (hit \<or> d = s0)))
       else if c = 93 then Inr (i, pl, hit)
       else if pl = 0 then Inr (i - 1, pl + 1, hit)
       else bindE (getb P (i + 1)) (\<lambda>d.
         if d = 45 \<and> pl \<ge> 3 then
           bindE (getb P (i + 2)) (\<lambda>e. bindE str0 (\<lambda>s0.
             class_loop P (i + 3) (pl - 3) str0 nocase (hit \<or> range_hit nocase c e s0)))
         else bindE str0 (\<lambda>s0.
             class_loop P (i + 1) (pl - 1) str0 nocase (hit \<or> char_eq nocase c s0))))"
  by pat_completeness auto
termination
  by (relation "measure (\<lambda>(P, i, pl, str0, nocase, hit). length P - i)") (auto simp: getb_def split: if_splits)

declare star_skip.simps [simp del] star_tail.simps [simp del] class_loop.simps [simp del]

text \<open>\<open>while (stringLen)\<close> of the star: the rest of the pattern is tried on every non-empty suffix.\<close>

function star_try :: "(nat \<Rightarrow> int \<Rightarrow> bool res) \<Rightarrow> nat \<Rightarrow> nat \<Rightarrow> int \<Rightarrow> bool res" where
  "star_try f slen j sl =
     (if sl = 0 then Inr False
      else bindE (f j sl) (\<lambda>b.
        if b then Inr True
        else if j < slen then star_try f slen (j + 1) (sl - 1) else Inl OutOfBounds))"
  by pat_completeness auto
termination by (relation "measure (\<lambda>(f, slen, j, sl). slen - j)") auto

declare star_try.simps [simp del]

lemma star_try_cong [fundef_cong]:
  "(\<And>j sl. f j sl = g j sl) \<Longrightarrow> slen = slen' \<Longrightarrow> j = j' \<Longrightarrow> sl = sl' \<Longrightarrow>
   star_try f slen j sl = star_try g slen' j' sl'"
  by (metis ext)

lemma star_skip_ge: "star_skip P i pl = Inr (i', pl') \<Longrightarrow> i \<le> i'"
proof (induction P i pl rule: star_skip.induct)
  case (1 P i pl)
  from "1.prems" obtain c where c: "getb P (i + 1) = Inr c"
    "(if c = 42 then star_skip P (i + 1) (pl - 1) else Inr (i, pl)) = Inr (i', pl')"
    by (subst (asm) star_skip.simps) (auto simp: bindE_eq_Inr)
  then show ?case using "1.IH"[OF c(1)] by (cases "c = 42") auto
qed

lemma class_loop_ge: "class_loop P i pl str0 nocase hit = Inr (i', pl', h) \<Longrightarrow> i - 1 \<le> i'"
proof (induction P i pl str0 nocase hit rule: class_loop.induct)
  case (1 P i pl str0 nocase hit)
  from "1.prems" obtain c where c: "getb P i = Inr c"
    by (subst (asm) class_loop.simps) (auto simp: bindE_eq_Inr)
  consider (esc) "c = 92 \<and> pl \<ge> 2" | (stop) "\<not> (c = 92 \<and> pl \<ge> 2)" "c = 93 \<or> pl = 0"
    | (item) "\<not> (c = 92 \<and> pl \<ge> 2)" "c \<noteq> 93" "pl \<noteq> 0" by blast
  then show ?case
  proof cases
    case esc
    with "1.prems" c obtain d s0 where d: "getb P (i + 1) = Inr d" "str0 = Inr s0"
      "class_loop P (i + 2) (pl - 2) str0 nocase (hit \<or> d = s0) = Inr (i', pl', h)"
      by (subst (asm) class_loop.simps) (auto simp: bindE_eq_Inr)
    from "1.IH"(1)[OF c esc d] show ?thesis by simp
  next
    case stop
    with "1.prems" c show ?thesis by (subst (asm) class_loop.simps) (auto split: if_splits)
  next
    case item
    with "1.prems" c obtain d where d: "getb P (i + 1) = Inr d"
      by (subst (asm) class_loop.simps) (auto simp: bindE_eq_Inr)
    show ?thesis
    proof (cases "d = 45 \<and> pl \<ge> 3")
      case True
      with "1.prems" c item d obtain e s0 where e: "getb P (i + 2) = Inr e" "str0 = Inr s0"
        "class_loop P (i + 3) (pl - 3) str0 nocase (hit \<or> range_hit nocase c e s0) = Inr (i', pl', h)"
        by (subst (asm) class_loop.simps) (auto simp: bindE_eq_Inr)
      from "1.IH"(2)[OF c item d True e] show ?thesis by simp
    next
      case False
      with "1.prems" c item d obtain s0 where e: "str0 = Inr s0"
        "class_loop P (i + 1) (pl - 1) str0 nocase (hit \<or> char_eq nocase c s0) = Inr (i', pl', h)"
        by (subst (asm) class_loop.simps) (auto simp: bindE_eq_Inr)
      from "1.IH"(3)[OF c item d False e] show ?thesis by simp
    qed
  qed
qed

text \<open>
  One pattern element against one character, for \<open>?\<close>, a class and a literal: the position of the
  last byte of the element, the length left there, and whether it matches.
\<close>

definition match_one :: "byte list \<Rightarrow> nat \<Rightarrow> int \<Rightarrow> byte \<Rightarrow> byte res \<Rightarrow> bool \<Rightarrow> (nat \<times> int \<times> bool) res" where
  "match_one P i pl c str0 nocase =
     (if c = 63 then Inr (i, pl, True)
      else if c = 91 then
        bindE (getb P (i + 1)) (\<lambda>c1.
          let neg = (c1 = 94) in
          bindE (class_loop P (if neg then i + 2 else i + 1) (if neg then pl - 2 else pl - 1) str0 nocase False)
            (\<lambda>(i', pl', hit). Inr (i', pl', hit \<noteq> neg)))
      else
        let esc = (c = 92 \<and> pl \<ge> 2); i' = (if esc then i + 1 else i); pl' = (if esc then pl - 1 else pl) in
        bindE (getb P i') (\<lambda>p0. bindE str0 (\<lambda>s0. Inr (i', pl', char_eq nocase p0 s0))))"

lemma match_one_ge: "match_one P i pl c str0 nocase = Inr (i', pl', ok) \<Longrightarrow> i \<le> i'"
  by (auto simp: match_one_def Let_def bindE_eq_Inr split: if_splits dest: class_loop_ge)

text \<open>The main loop.\<close>

function stringmatchlen ::
    "byte list \<Rightarrow> nat \<Rightarrow> int \<Rightarrow> byte list \<Rightarrow> nat \<Rightarrow> int \<Rightarrow> bool \<Rightarrow> bool res" where
  "stringmatchlen P i pl S j sl nocase =
     (if pl = 0 then Inr (sl = 0) else
      bindE (getb P i) (\<lambda>c.
        if c = 42 then
          bindE (star_skip P i pl) (\<lambda>(i', pl').
            if pl' = 1 then Inr True
            else star_try (\<lambda>j sl. stringmatchlen P (i' + 1) (pl' - 1) S j sl nocase) (length S) j sl)
        else if c = 63 \<and> sl = 0 then Inr False
        else
          bindE (match_one P i pl c (getb S j) nocase) (\<lambda>(i', pl', ok).
            if \<not> ok then Inr False
            else if sl - 1 = 0 then bindE (star_tail P (i' + 1) (pl' - 1)) (\<lambda>pl''. Inr (pl'' = 0))
            else stringmatchlen P (i' + 1) (pl' - 1) S (j + 1) (sl - 1) nocase)))"
  by pat_completeness auto
termination
  by (relation "measure (\<lambda>(P, i, pl, S, j, sl, nocase). length P - i)")
    (auto simp: getb_def split: if_splits dest!: star_skip_ge match_one_ge)

declare stringmatchlen.simps [simp del]

definition stringmatch :: "byte list \<Rightarrow> byte list \<Rightarrow> bool \<Rightarrow> bool res" where
  "stringmatch pattern str nocase =
     bindE (strlen pattern) (\<lambda>pl. bindE (strlen str) (\<lambda>sl.
       stringmatchlen pattern 0 (s32 (int pl)) str 0 (s32 (int sl)) nocase))"

section \<open>Reference matcher\<close>

datatype gitem = Exact byte | Single byte | Range byte byte

datatype gtok = Star | AnyChar | Class bool "gitem list" | Lit byte

text \<open>The items of a class and the pattern after it; a class that is not closed ends the pattern.\<close>

fun parse_items :: "byte list \<Rightarrow> gitem list \<times> byte list" where
  "parse_items [] = ([], [])"
| "parse_items (c # p) =
     (if c = 92 \<and> p \<noteq> [] then (let (is, r) = parse_items (tl p) in (Exact (hd p) # is, r))
      else if c = 93 then ([], p)
      else if 2 \<le> length p \<and> hd p = 45
        then (let (is, r) = parse_items (drop 2 p) in (Range c (p ! 1) # is, r))
      else (let (is, r) = parse_items p in (Single c # is, r)))"

lemma parse_items_rest: "length (snd (parse_items p)) \<le> length p"
  by (induction p rule: parse_items.induct) (auto simp: Let_def split: prod.splits if_splits)

definition class_body :: "byte list \<Rightarrow> byte list" where
  "class_body p = (if p \<noteq> [] \<and> hd p = 94 then tl p else p)"

function parse_glob :: "byte list \<Rightarrow> gtok list" where
  "parse_glob [] = []"
| "parse_glob (c # p) =
     (if c = 42 then Star # parse_glob p
      else if c = 63 then AnyChar # parse_glob p
      else if c = 91 then
        Class (p \<noteq> [] \<and> hd p = 94) (fst (parse_items (class_body p))) # parse_glob (snd (parse_items (class_body p)))
      else if c = 92 \<and> p \<noteq> [] then Lit (hd p) # parse_glob (tl p)
      else Lit c # parse_glob p)"
  by pat_completeness auto
termination
proof (relation "measure length", goal_cases)
  case (4 c p)
  have "length (class_body p) \<le> length p" by (simp add: class_body_def)
  then show ?case using parse_items_rest[of "class_body p"] by simp
qed auto

text \<open>
  The characters an item stands for. A range is given by its two ends in either order, compared as
  signed characters; letter case is dropped from the ends after they have been ordered.
\<close>

definition fold_case :: "bool \<Rightarrow> byte \<Rightarrow> byte" where
  "fold_case nocase = (if nocase then tolower else id)"

fun item_hit :: "bool \<Rightarrow> byte \<Rightarrow> gitem \<Rightarrow> bool" where
  "item_hit nocase s (Exact c) = (c = s)"
| "item_hit nocase s (Single c) = (fold_case nocase c = fold_case nocase s)"
| "item_hit nocase s (Range a b) =
     (\<exists>(lo, hi) \<in> {(a, b), (b, a)}. sint lo \<le> sint hi
        \<and> sint (fold_case nocase lo) \<le> sint (fold_case nocase s) \<and> sint (fold_case nocase s) \<le> sint (fold_case nocase hi))"

fun tok_hit :: "bool \<Rightarrow> byte \<Rightarrow> gtok \<Rightarrow> bool" where
  "tok_hit nocase s Star = True"
| "tok_hit nocase s AnyChar = True"
| "tok_hit nocase s (Class neg is) = ((\<exists>i \<in> set is. item_hit nocase s i) \<noteq> neg)"
| "tok_hit nocase s (Lit c) = (fold_case nocase c = fold_case nocase s)"

lemma char_eq_fold [simp]: "char_eq nc a b \<longleftrightarrow> fold_case nc a = fold_case nc b"
  by (simp add: char_eq_def fold_case_def)

lemma range_hit_fold [simp]: "range_hit nc a b c = item_hit nc c (Range a b)"
proof (cases "a = b")
  case False
  then have "sint a \<noteq> sint b" using uint_sint[of a] uint_sint[of b] word_uint_eq_iff[of a b] by auto
  then consider "sint a < sint b" | "sint b < sint a" by linarith
  then show ?thesis by cases (auto simp: range_hit_def fold_case_def Let_def)
qed (simp add: range_hit_def fold_case_def Let_def)

text \<open>A star stands for any string, every other element for one character.\<close>

fun glob_match :: "bool \<Rightarrow> gtok list \<Rightarrow> byte list \<Rightarrow> bool" where
  "glob_match nocase [] s = (s = [])"
| "glob_match nocase (Star # ts) s = (\<exists>k \<in> {0..length s}. glob_match nocase ts (drop k s))"
| "glob_match nocase (t # ts) [] = False"
| "glob_match nocase (t # ts) (c # s) = (tok_hit nocase c t \<and> glob_match nocase ts s)"

lemma glob_match_Star_iff: "glob_match nc (Star # ts) s = (\<exists>u v. s = u @ v \<and> glob_match nc ts v)"
proof
  assume "glob_match nc (Star # ts) s"
  then obtain k where "k \<le> length s" "glob_match nc ts (drop k s)" by auto
  then show "\<exists>u v. s = u @ v \<and> glob_match nc ts v" by (metis append_take_drop_id)
next
  assume "\<exists>u v. s = u @ v \<and> glob_match nc ts v"
  then obtain u v where "s = u @ v" "glob_match nc ts v" by blast
  then have "glob_match nc ts (drop (length u) s)" "length u \<le> length s" by simp_all
  then show "glob_match nc (Star # ts) s" by auto
qed

lemma glob_match_other:
  "t \<noteq> Star \<Longrightarrow> glob_match nc (t # ts) s = (\<exists>c s'. s = c # s' \<and> tok_hit nc c t \<and> glob_match nc ts s')"
  by (cases t; cases s) auto

section \<open>The code refines the reference\<close>

text \<open>The memory at a position.\<close>

lemma getb_drop: "drop i P = c # q \<Longrightarrow> getb P i = Inr c"
  by (metis getb_ok drop_eq_Nil2 hd_drop_conv_nth list.sel(1) list.simps(3) linorder_not_le)

lemma drop_next: "drop i P = c # q \<Longrightarrow> drop (i + 1) P = q"
  by (metis drop_Suc drop_tl list.sel(3) Suc_eq_plus1)

lemma class_loop_parse:
  assumes "drop i P = p @ [0]" "str0 = Inr s0" "0 < i"
  shows "\<exists>i' pl'. class_loop P i (int (length p)) str0 nc hit =
      Inr (i', pl', hit \<or> (\<exists>x \<in> set (fst (parse_items p)). item_hit nc s0 x)) \<and>
    pl' - 1 = int (length (snd (parse_items p))) \<and> drop (i' + 1) P = snd (parse_items p) @ [0]"
  using assms(1,3)
proof (induction p arbitrary: i hit rule: parse_items.induct)
  case 1
  then show ?case by (subst class_loop.simps) (simp add: getb_drop)
next
  case (2 c p)
  let ?n = "int (length (c # p))"
  have c: "getb P i = Inr c" "drop (i + 1) P = p @ [0]"
    using "2.prems" getb_drop[of i P c] drop_next[of i P c] by simp_all
  consider (esc) "c = 92" "p \<noteq> []" | (stop) "\<not> (c = 92 \<and> p \<noteq> [])" "c = 93"
    | (range) "\<not> (c = 92 \<and> p \<noteq> [])" "c \<noteq> 93" "2 \<le> length p \<and> hd p = 45"
    | (one) "\<not> (c = 92 \<and> p \<noteq> [])" "c \<noteq> 93" "\<not> (2 \<le> length p \<and> hd p = 45)" by blast
  then show ?case
  proof cases
    case esc
    then obtain d q where p: "p = d # q" by (cases p) auto
    then have d: "getb P (i + 1) = Inr d" "drop (i + 2) P = q @ [0]"
      using c(2) getb_drop[of "i + 1" P d] drop_next[of "i + 1" P d] by simp_all
    have "class_loop P i ?n str0 nc hit = class_loop P (i + 2) (int (length q)) str0 nc (hit \<or> d = s0)"
      using esc p c(1) d(1) assms(2) by (subst class_loop.simps) simp
    with "2.IH"(1)[of "i + 2" "hit \<or> d = s0"] esc p d(2) show ?thesis
      by (auto simp: Let_def split: prod.splits)
  next
    case stop
    then show ?thesis using c by (subst class_loop.simps) auto
  next
    case range
    then obtain e q where p: "p = 45 # e # q" by (cases p; cases "tl p") auto
    then have d: "getb P (i + 1) = Inr 45" "drop (i + 2) P = e # q @ [0]"
      using c(2) getb_drop[of "i + 1" P 45] drop_next[of "i + 1" P 45] by simp_all
    then have e: "getb P (i + 2) = Inr e" "drop (i + 3) P = q @ [0]"
      using getb_drop[of "i + 2" P e] drop_next[of "i + 2" P e] by (simp_all add: numeral_3_eq_3)
    have "class_loop P i ?n str0 nc hit = class_loop P (i + 3) (int (length q)) str0 nc (hit \<or> range_hit nc c e s0)"
      using range p c(1) d(1) e(1) assms(2) by (subst class_loop.simps) simp
    with "2.IH"(2)[of "i + 3" "hit \<or> range_hit nc c e s0"] range p e(2) show ?thesis
      by (auto simp: Let_def split: prod.splits)
  next
    case one
    obtain d q where d: "p @ [0] = d # q" by (cases "p @ [0]") auto
    have g: "getb P (i + 1) = Inr d" using c(2) d by (simp add: getb_drop)
    have nr: "\<not> (d = 45 \<and> int (length p) + 1 \<ge> 3)" using one(3) d by (cases p) auto
    have "class_loop P i ?n str0 nc hit = class_loop P (i + 1) (int (length p)) str0 nc (hit \<or> char_eq nc c s0)"
      using one c(1) g nr assms(2) by (subst class_loop.simps) auto
    with "2.IH"(3)[of "i + 1" "hit \<or> char_eq nc c s0"] one c(2) show ?thesis
      by (auto simp: Let_def split: prod.splits)
  qed
qed

lemma match_one_class:
  assumes "drop i P = (91 # p) @ [0]" "str0 = Inr s0"
  shows "\<exists>i' pl'. match_one P i (int (length (91 # p))) 91 str0 nc =
      Inr (i', pl', tok_hit nc s0 (Class (p \<noteq> [] \<and> hd p = 94) (fst (parse_items (class_body p))))) \<and>
    pl' - 1 = int (length (snd (parse_items (class_body p)))) \<and> drop (i' + 1) P = snd (parse_items (class_body p)) @ [0]"
proof -
  have c: "drop (i + 1) P = p @ [0]" using assms(1) drop_next[of i P 91] by simp
  obtain d q where d: "p @ [0] = d # q" by (cases "p @ [0]") auto
  have g: "getb P (i + 1) = Inr d" using c d by (simp add: getb_drop)
  have neg: "(d = 94) = (p \<noteq> [] \<and> hd p = 94)" using d by (cases p) auto
  let ?b = "class_body p" and ?j = "if d = 94 then i + 2 else i + 1"
  have b: "drop ?j P = ?b @ [0]"
    using neg c d drop_next[of "i + 1" P d] by (auto simp: class_body_def neq_Nil_conv)
  have l: "(if d = 94 then int (length (91 # p)) - 2 else int (length (91 # p)) - 1) = int (length ?b)"
    using neg by (auto simp: class_body_def neq_Nil_conv)
  have jpos: "0 < ?j" by simp
  obtain i' pl' where cl: "class_loop P ?j (int (length ?b)) str0 nc False =
      Inr (i', pl', \<exists>x \<in> set (fst (parse_items ?b)). item_hit nc s0 x)"
    "pl' - 1 = int (length (snd (parse_items ?b)))" "drop (i' + 1) P = snd (parse_items ?b) @ [0]"
    using class_loop_parse[OF b assms(2) jpos, of nc False] by auto
  have "match_one P i (int (length (91 # p))) 91 str0 nc =
      Inr (i', pl', tok_hit nc s0 (Class (p \<noteq> [] \<and> hd p = 94) (fst (parse_items ?b))))"
    using g cl(1) unfolding match_one_def l[symmetric] by (simp add: Let_def neg)
  then show ?thesis using cl(2,3) by blast
qed

lemma match_one_parse:
  assumes "drop i P = (c # p) @ [0]" "c \<noteq> 42" "str0 = Inr s0"
  shows "\<exists>i' pl' t r. parse_glob (c # p) = t # parse_glob r \<and> t \<noteq> Star \<and> length r \<le> length p \<and>
    match_one P i (int (length (c # p))) c str0 nc = Inr (i', pl', tok_hit nc s0 t) \<and>
    pl' - 1 = int (length r) \<and> drop (i' + 1) P = r @ [0]"
proof -
  have c: "getb P i = Inr c" "drop (i + 1) P = p @ [0]"
    using assms(1) getb_drop[of i P c] drop_next[of i P c] by simp_all
  consider (any) "c = 63" | (cls) "c = 91" | (esc) "c = 92" "p \<noteq> []"
    | (lit) "c \<noteq> 63" "c \<noteq> 91" "\<not> (c = 92 \<and> p \<noteq> [])" by blast
  then show ?thesis
  proof cases
    case any
    then show ?thesis using c(2) by (intro exI[of _ i] exI[of _ "int (length (c # p))"] exI[of _ AnyChar] exI[of _ p])
        (simp add: match_one_def)
  next
    case cls
    let ?b = "class_body p"
    obtain i' pl' where m: "match_one P i (int (length (c # p))) c str0 nc =
        Inr (i', pl', tok_hit nc s0 (Class (p \<noteq> [] \<and> hd p = 94) (fst (parse_items ?b))))"
      and cl: "pl' - 1 = int (length (snd (parse_items ?b)))" "drop (i' + 1) P = snd (parse_items ?b) @ [0]"
      using match_one_class[of i P p str0 s0 nc] assms(1,3) cls by blast
    have "length (snd (parse_items ?b)) \<le> length p"
    proof -
      have "length ?b \<le> length p" by (simp add: class_body_def)
      with parse_items_rest[of ?b] show ?thesis by linarith
    qed
    then show ?thesis
      using cls cl m
      by (intro exI[of _ i'] exI[of _ pl'] exI[of _ "Class (p \<noteq> [] \<and> hd p = 94) (fst (parse_items ?b))"]
          exI[of _ "snd (parse_items ?b)"]) simp
  next
    case esc
    then obtain d q where p: "p = d # q" by (cases p) auto
    then have d: "getb P (i + 1) = Inr d" "drop (i + 2) P = q @ [0]"
      using c(2) getb_drop[of "i + 1" P d] drop_next[of "i + 1" P d] by simp_all
    then show ?thesis using esc p assms(3)
      by (intro exI[of _ "i + 1"] exI[of _ "int (length p)"] exI[of _ "Lit d"] exI[of _ q]) (simp add: match_one_def Let_def)
  next
    case lit
    then show ?thesis using c assms(2,3)
      by (intro exI[of _ i] exI[of _ "int (length (c # p))"] exI[of _ "Lit c"] exI[of _ p]) (auto simp: match_one_def Let_def)
  qed
qed

lemma star_skip_eq:
  "drop i P = (42 # p) @ [0] \<Longrightarrow>
   \<exists>i'. star_skip P i (int (length (42 # p))) = Inr (i', int (length (dropWhile (\<lambda>c. c = 42) p)) + 1) \<and>
     drop (i' + 1) P = dropWhile (\<lambda>c. c = 42) p @ [0]"
proof (induction p arbitrary: i)
  case Nil
  then have "getb P (i + 1) = Inr 0" "drop (i + 1) P = [0]"
    using drop_next[of i P 42 "[0]"] getb_drop[of "i + 1" P 0] by simp_all
  then show ?case by (subst star_skip.simps) simp
next
  case (Cons d p)
  have d: "drop (i + 1) P = (d # p) @ [0]" using Cons.prems drop_next[of i P 42] by simp
  then have g: "getb P (i + 1) = Inr d" by (simp add: getb_drop)
  show ?case
  proof (cases "d = 42")
    case True
    then show ?thesis using Cons.IH[of "i + 1"] d g by (subst star_skip.simps) simp
  next
    case False
    then show ?thesis using d g by (subst star_skip.simps) simp
  qed
qed

lemma star_tail_eq:
  "drop i P = p @ [0] \<Longrightarrow> star_tail P i (int (length p)) = Inr (int (length (dropWhile (\<lambda>c. c = 42) p)))"
proof (induction p arbitrary: i)
  case Nil
  then show ?case by (subst star_tail.simps) (simp add: getb_drop)
next
  case (Cons d p)
  have d: "getb P i = Inr d" "drop (i + 1) P = p @ [0]"
    using Cons.prems getb_drop[of i P d] drop_next[of i P d] by simp_all
  show ?case using Cons.IH[of "i + 1"] d by (subst star_tail.simps) simp
qed

lemma parse_glob_stars: "p \<noteq> [] \<Longrightarrow> hd p \<noteq> 42 \<Longrightarrow> \<exists>t ts. parse_glob p = t # ts \<and> t \<noteq> Star"
  by (cases p) auto

lemma glob_match_Nil: "glob_match nc (parse_glob p) [] \<longleftrightarrow> dropWhile (\<lambda>c. c = 42) p = []"
proof (induction p)
  case (Cons c p)
  show ?case
  proof (cases "c = 42")
    case False
    then obtain t ts where "parse_glob (c # p) = t # ts" "t \<noteq> Star" using parse_glob_stars[of "c # p"] by auto
    then show ?thesis using False by (auto simp: glob_match_other)
  qed (use Cons in simp)
qed simp

lemma glob_match_stars:
  "glob_match nc (Star # parse_glob p) s = glob_match nc (Star # parse_glob (dropWhile (\<lambda>c. c = 42) p)) s"
proof (induction p arbitrary: s)
  case (Cons c p)
  show ?case
  proof (cases "c = 42")
    case True
    have "glob_match nc (Star # Star # parse_glob p) s = glob_match nc (Star # parse_glob p) s"
      unfolding glob_match_Star_iff by (metis append.assoc append_Nil)
    with Cons.IH[of s] True show ?thesis by (simp del: glob_match.simps)
  qed simp
qed simp

lemma star_try_eq:
  assumes "drop j S = s @ [0]"
    and "\<And>j v. drop j S = v @ [0] \<Longrightarrow> v \<noteq> [] \<Longrightarrow> f j (int (length v)) = Inr (g v)"
  shows "star_try f (length S) j (int (length s)) = Inr (\<exists>u v. s = u @ v \<and> v \<noteq> [] \<and> g v)"
  using assms(1)
proof (induction s arbitrary: j)
  case Nil
  then show ?case by (subst star_try.simps) simp
next
  case (Cons c s)
  have j: "j < length S" using Cons.prems by (metis append_is_Nil_conv drop_eq_Nil2 list.simps(3) linorder_not_le)
  have "drop (j + 1) S = s @ [0]" using Cons.prems drop_next[of j S c] by simp
  moreover have "(\<exists>u v. c # s = u @ v \<and> v \<noteq> [] \<and> g v) \<longleftrightarrow> g (c # s) \<or> (\<exists>u v. s = u @ v \<and> v \<noteq> [] \<and> g v)"
    by (auto simp: Cons_eq_append_conv)
  ultimately show ?case
    using Cons.IH[of "j + 1"] assms(2)[of j "c # s"] Cons.prems j by (subst star_try.simps) simp
qed

lemma star_step:
  assumes "drop i P = (42 # p) @ [0]" "drop j S = s @ [0]"
    and IH: "\<And>r i j v. length r \<le> length p \<Longrightarrow> drop i P = r @ [0] \<Longrightarrow> drop j S = v @ [0] \<Longrightarrow> v \<noteq> [] \<Longrightarrow>
      stringmatchlen P i (int (length r)) S j (int (length v)) nc = Inr (glob_match nc (parse_glob r) v)"
  shows "stringmatchlen P i (int (length (42 # p))) S j (int (length s)) nc = Inr (glob_match nc (parse_glob (42 # p)) s)"
proof -
  define r where "r = dropWhile (\<lambda>c. c = 42) p"
  obtain i' where i': "star_skip P i (int (length (42 # p))) = Inr (i', int (length r) + 1)" "drop (i' + 1) P = r @ [0]"
    using star_skip_eq[OF assms(1)] by (auto simp: r_def)
  have c: "getb P i = Inr 42" using assms(1) by (simp add: getb_drop)
  have rl: "length r \<le> length p" by (simp add: r_def length_dropWhile_le)
  have spec: "glob_match nc (parse_glob (42 # p)) s = (\<exists>u v. s = u @ v \<and> glob_match nc (parse_glob r) v)"
    using glob_match_stars[of nc p s] by (simp add: r_def glob_match_Star_iff del: glob_match.simps)
  show ?thesis
  proof (cases "r = []")
    case True
    then show ?thesis using c i' unfolding spec by (subst stringmatchlen.simps) simp
  next
    case False
    then have "hd r \<noteq> 42" using hd_dropWhile[of "\<lambda>c. c = 42" p] by (simp add: r_def)
    then have nil: "\<not> glob_match nc (parse_glob r) []"
      using False by (cases r) (simp_all add: glob_match_Nil)
    have "stringmatchlen P i (int (length (42 # p))) S j (int (length s)) nc =
        star_try (\<lambda>j sl. stringmatchlen P (i' + 1) (int (length r)) S j sl nc) (length S) j (int (length s))"
      using c i'(1) False by (subst stringmatchlen.simps) simp
    also have "\<dots> = Inr (\<exists>u v. s = u @ v \<and> v \<noteq> [] \<and> glob_match nc (parse_glob r) v)"
      by (rule star_try_eq[OF assms(2)]) (rule IH[OF rl i'(2)])
    also have "\<dots> = Inr (glob_match nc (parse_glob (42 # p)) s)"
      unfolding spec using nil by auto
    finally show ?thesis .
  qed
qed

lemma fold_case_0: "fold_case nc c = fold_case nc 0 \<longleftrightarrow> c = 0"
  by (auto simp: fold_case_def tolower_def add_eq_0_iff2 split: if_splits)

lemma stringmatchlen_eq:
  assumes "drop i P = p @ [0]" "drop j S = s @ [0]" "s \<noteq> [] \<or> (0 \<notin> set p \<and> (p \<noteq> [] \<longrightarrow> hd p \<noteq> 91))"
  shows "stringmatchlen P i (int (length p)) S j (int (length s)) nc = Inr (glob_match nc (parse_glob p) s)"
  using assms
proof (induction p arbitrary: i j s rule: length_induct)
  case (1 p)
  show ?case
  proof (cases p)
    case Nil
    then show ?thesis by (subst stringmatchlen.simps) simp
  next
    case (Cons c q)
    have IH: "stringmatchlen P i (int (length r)) S j (int (length v)) nc = Inr (glob_match nc (parse_glob r) v)"
      if "length r \<le> length q" "drop i P = r @ [0]" "drop j S = v @ [0]" "v \<noteq> []" for r i j v
      using "1.IH" that Cons by simp
    have c: "getb P i = Inr c" using "1.prems"(1) Cons by (simp add: getb_drop)
    obtain s0 where s0: "getb S j = Inr s0" "s = [] \<Longrightarrow> s0 = 0" "s \<noteq> [] \<Longrightarrow> s0 = hd s"
      using "1.prems"(2) by (cases s) (auto simp: getb_drop)
    show ?thesis
    proof (cases "c = 42")
      case True
      then have "drop i P = (42 # q) @ [0]" using "1.prems"(1) Cons by simp
      then show ?thesis unfolding Cons True by (rule star_step[OF _ "1.prems"(2)]) (rule IH)
    next
      case False
      obtain i' pl' t r where m: "parse_glob p = t # parse_glob r" "t \<noteq> Star" "length r \<le> length q"
        "match_one P i (int (length p)) c (getb S j) nc = Inr (i', pl', tok_hit nc s0 t)"
        "pl' - 1 = int (length r)" "drop (i' + 1) P = r @ [0]"
        using match_one_parse[of i P c q "getb S j" s0 nc] "1.prems"(1) Cons False s0(1) by auto
      have step: "stringmatchlen P i (int (length p)) S j (int (length s)) nc =
         (if c = 63 \<and> s = [] then Inr False
          else if \<not> tok_hit nc s0 t then Inr False
          else if int (length s) - 1 = 0 then bindE (star_tail P (i' + 1) (int (length r))) (\<lambda>pl''. Inr (pl'' = 0))
          else stringmatchlen P (i' + 1) (int (length r)) S (j + 1) (int (length s) - 1) nc)"
        using c False m(4,5) Cons by (subst stringmatchlen.simps) simp
      show ?thesis
      proof (cases s)
        case s: Nil
        have "c \<noteq> 63 \<Longrightarrow> \<not> tok_hit nc s0 t"
          using s s0(2) "1.prems"(3) m(1) Cons False
          by (auto simp: fold_case_0 split: if_splits dest: hd_in_set)
        then show ?thesis unfolding step using s m(1,2) by (auto simp: glob_match_other)
      next
        case s: (Cons a s')
        have d: "drop (j + 1) S = s' @ [0]" using "1.prems"(2) s drop_next[of j S a] by simp
        have spec: "glob_match nc (parse_glob p) s = (tok_hit nc s0 t \<and> glob_match nc (parse_glob r) s')"
          using m(1,2) s s0(3) by (simp add: glob_match_other)
        show ?thesis
          unfolding step spec
          using s star_tail_eq[OF m(6)] IH[OF m(3,6) d]
          by (cases s') (auto simp: glob_match_Nil)
      qed
    qed
  qed
qed

section \<open>Main properties\<close>

text \<open>
  C16. \<open>stringmatch\<close> decides the reference matcher on the parsed pattern, with or without regard to
  letter case, and reads neither string outside its memory; an empty string is excluded when the
  pattern starts with a class.
\<close>

theorem stringmatch_correct:
  assumes "0 \<notin> set p" "0 \<notin> set s" "length p < 2 ^ 31" "length s < 2 ^ 31"
    and "s \<noteq> [] \<or> p = [] \<or> hd p \<noteq> 91"
  shows "stringmatch (p @ [0]) (s @ [0]) nocase = Inr (glob_match nocase (parse_glob p) s)"
  using assms stringmatchlen_eq[of 0 "p @ [0]" p 0 "s @ [0]" s nocase] by (auto simp: stringmatch_def)

theorem stringmatch_witness:
  "stringmatch ([104, 42, 91, 97, 45, 99, 93] @ [0]) ([104, 120, 98] @ [0]) False =
     Inr (glob_match False (parse_glob [104, 42, 91, 97, 45, 99, 93]) [104, 120, 98])"
  by (rule stringmatch_correct) simp_all

text \<open>After the string length has become negative, a literal is compared with a byte outside the string.\<close>

lemma stringmatchlen_past_end:
  assumes "drop i P = r @ [0]" "r \<noteq> []" "hd r \<notin> {42, 63, 91}" "sl \<noteq> 0" "length S \<le> j"
  shows "stringmatchlen P i (int (length r)) S j sl nc = Inl OutOfBounds"
proof -
  obtain c q where r: "r = c # q" using assms(2) by (cases r) auto
  obtain d u where d: "q @ [0] = d # u" by (cases "q @ [0]") auto
  have g: "getb P i = Inr c" "getb P (i + 1) = Inr d" "getb S j = Inl OutOfBounds"
    using assms(1,5) r d getb_drop[of i P c] getb_drop[of "i + 1" P d] drop_next[of i P c] by (simp_all add: getb_def)
  then show ?thesis using assms(3) r by (subst stringmatchlen.simps) (simp add: match_one_def Let_def)
qed

lemma stringmatchlen_star_end:
  assumes "drop i P = r @ [0]" "r \<noteq> []" "set r = {42}"
  shows "stringmatchlen P i (int (length r)) S j sl nc = Inr True"
proof -
  obtain q where r: "r = 42 # q" using assms(2,3) by (cases r) auto
  have "dropWhile (\<lambda>c. c = 42) q = []" using assms(3) r by auto
  then show ?thesis using star_skip_eq[of i P q] getb_drop[of i P 42] assms(1) r
    by (subst stringmatchlen.simps) auto
qed

text \<open>
  C40. What \<open>stringmatch\<close> does with the empty string and a pattern that starts with a class, the case
  in which the length of the string is not looked at. The class is compared with the terminator. If it
  does not accept the zero byte the result is \<open>0\<close>. If it does, as a negated class of non-zero characters
  like \<open>[^a]\<close> does, the string length becomes \<open>-1\<close>: the result is still \<open>0\<close> when the pattern ends there,
  but it is \<open>1\<close> when only stars follow, so that \<open>[^a]*\<close> matches the empty string, and when a literal
  follows, as in \<open>[^a]b\<close>, a byte after the terminator is read.
\<close>

theorem stringmatch_empty_overrun:
  assumes "0 \<notin> set q" "length q < 2 ^ 31 - 1"
  shows "let r = snd (parse_items (class_body q));
      hit = tok_hit nocase 0 (Class (q \<noteq> [] \<and> hd q = 94) (fst (parse_items (class_body q)))) in
    (\<not> hit \<or> r = [] \<longrightarrow> stringmatch (91 # q @ [0]) [0] nocase = Inr False)
    \<and> (hit \<and> r \<noteq> [] \<and> set r = {42} \<longrightarrow> stringmatch (91 # q @ [0]) [0] nocase = Inr True)
    \<and> (hit \<and> r \<noteq> [] \<and> hd r \<notin> {42, 63, 91} \<longrightarrow> stringmatch (91 # q @ [0]) [0] nocase = Inl OutOfBounds)"
proof -
  define r where "r = snd (parse_items (class_body q))"
  define hit where "hit = tok_hit nocase 0 (Class (q \<noteq> [] \<and> hd q = 94) (fst (parse_items (class_body q))))"
  let ?P = "91 # q @ [0]" and ?n = "int (length (91 # q))"
  have "strlen [0] = Inr 0" using strlen_cstring[of "[]" "[]"] by simp
  then have s: "stringmatch ?P [0] nocase = stringmatchlen ?P 0 ?n [0] 0 0 nocase"
    using strlen_cstring[of "91 # q" "[]"] assms by (simp add: stringmatch_def)
  obtain i' pl' where m: "match_one ?P 0 ?n 91 (Inr 0) nocase = Inr (i', pl', hit)"
    and r: "pl' - 1 = int (length r)" "drop (i' + 1) ?P = r @ [0]"
    using match_one_class[of 0 ?P q "Inr 0" 0 nocase] unfolding r_def hit_def by auto
  have g: "getb ?P 0 = Inr 91" "getb [0 :: byte] 0 = Inr 0" by (simp_all add: getb_def)
  have "stringmatch ?P [0] nocase = (if \<not> hit then Inr False else stringmatchlen ?P (i' + 1) (int (length r)) [0] 1 (- 1) nocase)"
    unfolding s using m r(1) g by (subst stringmatchlen.simps) simp
  then show ?thesis unfolding r_def[symmetric] hit_def[symmetric] Let_def
    using stringmatchlen_past_end[OF r(2), of "- 1" "[0]" 1 nocase] stringmatchlen_star_end[OF r(2), of "[0]" 1 "- 1" nocase]
      stringmatchlen.simps[of ?P "i' + 1" 0] by auto
qed

theorem stringmatch_empty_overrun_witness:
  "stringmatch (91 # bytes_of ''^a]'' @ [0]) [0] False = Inr False
   \<and> stringmatch (91 # bytes_of ''^a]*'' @ [0]) [0] False = Inr True
   \<and> stringmatch (91 # bytes_of ''^a]b'' @ [0]) [0] False = Inl OutOfBounds"
  using stringmatch_empty_overrun[of "bytes_of ''^a]''" False] stringmatch_empty_overrun[of "bytes_of ''^a]*''" False]
    stringmatch_empty_overrun[of "bytes_of ''^a]b''" False]
  by (simp add: bytes_of_def class_body_def fold_case_def)

end
