(* ===== verification/Endian.thy ===== *)
theory Endian
  imports Prelude
begin

text \<open>
  \<open>src/redis/src/endianconv.c\<close>, and the two's complement integers stored in packed structures. The
  host is little-endian, so the \<open>...ifbe\<close> macros of \<open>endianconv.h\<close> do nothing.
\<close>

section \<open>Reversal of bytes\<close>

definition swap_bytes :: "byte list \<Rightarrow> nat \<Rightarrow> nat \<Rightarrow> byte list res" where
  "swap_bytes x i j =
     bindE (getb x i) (\<lambda>t. bindE (getb x j) (\<lambda>u.
     bindE (mem_write x i [u]) (\<lambda>x'. mem_write x' j [t])))"

definition memrev16 :: "byte list \<Rightarrow> byte list res" where
  "memrev16 x = swap_bytes x 0 1"

definition memrev32 :: "byte list \<Rightarrow> byte list res" where
  "memrev32 x = bindE (swap_bytes x 0 3) (\<lambda>x. swap_bytes x 1 2)"

definition memrev64 :: "byte list \<Rightarrow> byte list res" where
  "memrev64 x =
     bindE (swap_bytes x 0 7) (\<lambda>x. bindE (swap_bytes x 1 6) (\<lambda>x.
     bindE (swap_bytes x 2 5) (\<lambda>x. swap_bytes x 3 4)))"

text \<open>The integer variants work on the bytes of their argument.\<close>

definition intrev16 :: "nat \<Rightarrow> nat res" where
  "intrev16 v = bindE (memrev16 (le_bytes 2 v)) (\<lambda>x. Inr (le_val x))"

definition intrev32 :: "nat \<Rightarrow> nat res" where
  "intrev32 v = bindE (memrev32 (le_bytes 4 v)) (\<lambda>x. Inr (le_val x))"

definition intrev64 :: "nat \<Rightarrow> nat res" where
  "intrev64 v = bindE (memrev64 (le_bytes 8 v)) (\<lambda>x. Inr (le_val x))"

section \<open>Signed little-endian integers\<close>

definition sle_val :: "byte list \<Rightarrow> int" where
  "sle_val bs = (let k = length bs; v = int (le_val bs) in if 2 * v \<ge> 256 ^ k then v - 256 ^ k else v)"

definition sle_bytes :: "nat \<Rightarrow> int \<Rightarrow> byte list" where
  "sle_bytes k x = le_bytes k (nat (x mod 256 ^ k))"

definition sle_fits :: "nat \<Rightarrow> int \<Rightarrow> bool" where
  "sle_fits k x \<longleftrightarrow> - (256 ^ k) \<le> 2 * x \<and> 2 * x < 256 ^ k"

lemma length_sle_bytes [simp]: "length (sle_bytes k x) = k"
  by (simp add: sle_bytes_def)

lemma sle_val_bytes [simp]:
  assumes "sle_fits k x"
  shows "sle_val (sle_bytes k x) = x"
proof -
  have pos: "(0::int) < 256 ^ k" by simp
  have "le_val (sle_bytes k x) = nat (x mod 256 ^ k)"
    unfolding sle_bytes_def by (intro le_val_bytes_id) (simp add: nat_less_iff)
  then have v: "int (le_val (sle_bytes k x)) = x mod 256 ^ k" by simp
  show ?thesis
  proof (cases "0 \<le> x")
    case True
    then have "x mod 256 ^ k = x" using assms pos by (simp add: sle_fits_def)
    with v True assms show ?thesis by (simp add: sle_val_def Let_def sle_fits_def)
  next
    case False
    have "x mod 256 ^ k = (x + 256 ^ k) mod 256 ^ k" by simp
    also have "\<dots> = x + 256 ^ k" using False assms by (intro mod_pos_pos_trivial) (auto simp: sle_fits_def)
    finally show ?thesis using v False assms by (simp add: sle_val_def Let_def sle_fits_def)
  qed
qed

lemma sle_fits_val [simp]: "sle_fits (length bs) (sle_val bs)"
proof -
  define K :: int where "K = 256 ^ length bs"
  have "int (le_val bs) < K" using le_val_bound[of bs] unfolding K_def by (metis of_nat_less_iff of_nat_numeral of_nat_power)
  then show ?thesis unfolding sle_fits_def sle_val_def Let_def K_def[symmetric] by auto
qed

lemma sle_fits_mono:
  assumes "sle_fits k x" "k \<le> l"
  shows "sle_fits l x"
proof -
  have "(256::int) ^ k \<le> 256 ^ l" using assms(2) by (intro power_increasing) simp_all
  then show ?thesis using assms(1) unfolding sle_fits_def by linarith
qed

section \<open>Reversal is reversal\<close>

lemma list_len2: "length x = 2 \<Longrightarrow> \<exists>a b. x = [a, b]"
  by (auto simp: numeral_2_eq_2 length_Suc_conv)

lemma list_len4: "length x = 4 \<Longrightarrow> \<exists>a b c d. x = [a, b, c, d]"
  by (auto simp: numeral_eq_Suc length_Suc_conv)

lemma list_len8: "length x = 8 \<Longrightarrow> \<exists>a b c d e f g h. x = [a, b, c, d, e, f, g, h]"
  by (auto simp: numeral_eq_Suc length_Suc_conv)

lemmas memrev_defs = memrev16_def memrev32_def memrev64_def swap_bytes_def getb_def mem_write_def

lemma memrev16_rev: "length x = 2 \<Longrightarrow> memrev16 x = Inr (rev x)"
  using list_len2[of x] by (auto simp: memrev_defs)

lemma memrev32_rev: "length x = 4 \<Longrightarrow> memrev32 x = Inr (rev x)"
  using list_len4[of x] by (auto simp: memrev_defs)

lemma memrev64_rev: "length x = 8 \<Longrightarrow> memrev64 x = Inr (rev x)"
  using list_len8[of x] by (auto simp: memrev_defs)

lemmas memrev_rev = memrev16_rev memrev32_rev memrev64_rev

text \<open>
  The byte reversals are involutions: reversing a 16, 32 or 64 bit integer twice gives the integer
  back, and the reversed integer is the big-endian reading of the bytes.
\<close>

lemma intrev_involution:
  assumes "a < 2 ^ 16" "b < 2 ^ 32" "c < 2 ^ 64"
  shows "bindE (intrev16 a) intrev16 = Inr a \<and> bindE (intrev32 b) intrev32 = Inr b \<and>
    bindE (intrev64 c) intrev64 = Inr c"
proof -
  have le: "le_bytes k (le_val (rev (le_bytes k n))) = rev (le_bytes k n)" for k n
    using le_bytes_val[of "rev (le_bytes k n)"] by simp
  show ?thesis
    using assms by (simp add: intrev16_def intrev32_def intrev64_def memrev_rev le)
qed

lemma intrev_involution_witness:
  "bindE (intrev16 258) intrev16 = Inr 258 \<and> bindE (intrev32 16909060) intrev32 = Inr 16909060 \<and>
    bindE (intrev64 72623859790382856) intrev64 = Inr 72623859790382856"
  by (rule intrev_involution) simp_all

end
