(* ===== verification/SetSpec.thy ===== *)
theory SetSpec
  imports Prelude
begin

text \<open>
  The interface of a mutable finite set, as the set commands use it: insertion and removal report
  whether they changed the set. \<open>room s k\<close> says that \<open>k\<close> more elements can be stored. The loops over
  several elements are those of the commands with a variable number of members.
\<close>

fun add_all :: "('s \<Rightarrow> 'e \<Rightarrow> ('s \<times> bool) res) \<Rightarrow> 's \<Rightarrow> 'e list \<Rightarrow> ('s \<times> nat) res" where
  "add_all add s [] = Inr (s, 0)"
| "add_all add s (x # xs) =
     bindE (add s x) (\<lambda>(s', b). bindE (add_all add s' xs) (\<lambda>(s'', n). Inr (s'', n + of_bool b)))"

fun remove_all :: "('s \<Rightarrow> 'e \<Rightarrow> ('s \<times> bool) res) \<Rightarrow> 's \<Rightarrow> 'e list \<Rightarrow> ('s \<times> nat) res" where
  "remove_all remove s [] = Inr (s, 0)"
| "remove_all remove s (x # xs) =
     bindE (remove s x) (\<lambda>(s', b). bindE (remove_all remove s' xs) (\<lambda>(s'', n). Inr (s'', n + of_bool b)))"

locale finite_set_impl =
  fixes inv :: "'s \<Rightarrow> bool" and elems :: "'s \<Rightarrow> 'e set" and ok :: "'e \<Rightarrow> bool" and room :: "'s \<Rightarrow> nat \<Rightarrow> bool"
    and add :: "allocator \<Rightarrow> 's \<Rightarrow> 'e \<Rightarrow> ('s \<times> bool) res"
    and remove :: "allocator \<Rightarrow> 's \<Rightarrow> 'e \<Rightarrow> ('s \<times> bool) res"
    and find :: "'s \<Rightarrow> 'e \<Rightarrow> bool res"
  assumes elems_finite: "inv s \<Longrightarrow> finite (elems s)"
    and add_yields: "malloc_ok m \<Longrightarrow> inv s \<Longrightarrow> ok x \<Longrightarrow> room s (Suc k) \<Longrightarrow>
      yields m (add m s x) (\<lambda>(s', b). inv s' \<and> elems s' = insert x (elems s) \<and> b = (x \<notin> elems s) \<and> room s' k)"
    and remove_yields: "malloc_ok m \<Longrightarrow> inv s \<Longrightarrow> ok x \<Longrightarrow> room s k \<Longrightarrow>
      yields m (remove m s x) (\<lambda>(s', b). inv s' \<and> elems s' = elems s - {x} \<and> b = (x \<in> elems s) \<and> room s' k)"
    and find_eq: "inv s \<Longrightarrow> ok x \<Longrightarrow> room s k \<Longrightarrow> find s x = Inr (x \<in> elems s)"
begin

lemma add_all_yields:
  "malloc_ok m \<Longrightarrow> inv s \<Longrightarrow> \<forall>x \<in> set xs. ok x \<Longrightarrow> room s (length xs + k) \<Longrightarrow>
   yields m (add_all (add m) s xs)
     (\<lambda>(s', n). inv s' \<and> elems s' = elems s \<union> set xs \<and> n = card (set xs - elems s) \<and> room s' k)"
proof (induction xs arbitrary: s)
  case (Cons x xs)
  have "yields m (bindE (add m s x) (\<lambda>(s', b). bindE (add_all (add m) s' xs) (\<lambda>(s'', n). Inr (s'', n + of_bool b))))
     (\<lambda>(s', n). inv s' \<and> elems s' = elems s \<union> set (x # xs) \<and> n = card (set (x # xs) - elems s) \<and> room s' k)"
  proof (rule yields_bindE [OF add_yields [of m s x "length xs + k"]], goal_cases)
    case (5 r)
    obtain s' b where r: "r = (s', b)" by (cases r)
    with 5 have s': "inv s'" "elems s' = insert x (elems s)" "b = (x \<notin> elems s)" "room s' (length xs + k)" by auto
    have "set (x # xs) - elems s = (if x \<in> elems s then set xs - elems s' else insert x (set xs - elems s'))"
      using s'(2) by auto
    then have card: "card (set (x # xs) - elems s) = card (set xs - elems s') + of_bool b"
      using s'(2,3) by simp
    have "yields m (bindE (add_all (add m) s' xs) (\<lambda>(s'', n). Inr (s'', n + of_bool b)))
       (\<lambda>(s', n). inv s' \<and> elems s' = elems s \<union> set (x # xs) \<and> n = card (set (x # xs) - elems s) \<and> room s' k)"
      by (rule yields_bindE [OF Cons.IH [OF Cons.prems(1) s'(1) _ s'(4)]]) (use Cons.prems s'(2) card in auto)
    then show ?case by (simp add: r)
  qed (use Cons.prems in auto)
  then show ?case by simp
qed simp

lemma remove_all_yields:
  "malloc_ok m \<Longrightarrow> inv s \<Longrightarrow> \<forall>x \<in> set xs. ok x \<Longrightarrow> room s k \<Longrightarrow>
   yields m (remove_all (remove m) s xs)
     (\<lambda>(s', n). inv s' \<and> elems s' = elems s - set xs \<and> n = card (set xs \<inter> elems s) \<and> room s' k)"
proof (induction xs arbitrary: s)
  case (Cons x xs)
  have "yields m (bindE (remove m s x) (\<lambda>(s', b). bindE (remove_all (remove m) s' xs) (\<lambda>(s'', n). Inr (s'', n + of_bool b))))
     (\<lambda>(s', n). inv s' \<and> elems s' = elems s - set (x # xs) \<and> n = card (set (x # xs) \<inter> elems s) \<and> room s' k)"
  proof (rule yields_bindE [OF remove_yields [of m s x k]], goal_cases)
    case (5 r)
    obtain s' b where r: "r = (s', b)" by (cases r)
    with 5 have s': "inv s'" "elems s' = elems s - {x}" "b = (x \<in> elems s)" "room s' k" by auto
    have "set (x # xs) \<inter> elems s = (if x \<in> elems s then insert x (set xs \<inter> elems s') else set xs \<inter> elems s')"
      using s'(2) by auto
    then have card: "card (set (x # xs) \<inter> elems s) = card (set xs \<inter> elems s') + of_bool b"
      using s'(2,3) by simp
    have "yields m (bindE (remove_all (remove m) s' xs) (\<lambda>(s'', n). Inr (s'', n + of_bool b)))
       (\<lambda>(s', n). inv s' \<and> elems s' = elems s - set (x # xs) \<and> n = card (set (x # xs) \<inter> elems s) \<and> room s' k)"
      by (rule yields_bindE [OF Cons.IH [OF Cons.prems(1) s'(1) _ s'(4)]]) (use Cons.prems s'(2) card in auto)
    then show ?case by (simp add: r)
  qed (use Cons.prems in auto)
  then show ?case by simp
qed simp

text \<open>A membership test after a run of insertions sees exactly the old and the new elements.\<close>

lemma find_after_add_all:
  assumes "malloc_ok m" "inv s" "\<forall>x \<in> set xs. ok x" "room s (length xs + k)" "ok y"
  shows "yields m (bindE (add_all (add m) s xs) (\<lambda>(s', _). find s' y)) (\<lambda>b. b = (y \<in> elems s \<or> y \<in> set xs))"
  by (rule yields_bindE [OF add_all_yields [OF assms(1-4)]]) (auto simp: find_eq [OF _ assms(5)])

end

end
