(* ===== verification/Intset.thy ===== *)
theory Intset
  imports Endian SetSpec
begin

text \<open>
  \<open>src/redis/src/intset.c\<close>: a sorted array of integers packed at 2, 4 or 8 bytes per element. The
  contents are bytes; the encoding is the element width, as in the source. Positions and lengths are
  \<open>uint32_t\<close>. \<open>zmalloc\<close> and \<open>zrealloc\<close> stop the server instead of returning NULL, which is \<open>Inl OOM\<close>.
\<close>

section \<open>The code\<close>

record intset =
  is_encoding :: nat
  is_length :: nat
  is_contents :: "byte list"

abbreviation (input) "INTSET_ENC_INT16 \<equiv> 2 :: nat"
abbreviation (input) "INTSET_ENC_INT32 \<equiv> 4 :: nat"
abbreviation (input) "INTSET_ENC_INT64 \<equiv> 8 :: nat"

definition intsetValueEncoding :: "int \<Rightarrow> nat" where
  "intsetValueEncoding v =
     (if v < - (2 ^ 31) \<or> v > 2 ^ 31 - 1 then INTSET_ENC_INT64
      else if v < - (2 ^ 15) \<or> v > 2 ^ 15 - 1 then INTSET_ENC_INT32
      else INTSET_ENC_INT16)"

definition intset_width :: "nat \<Rightarrow> nat" where
  "intset_width enc = (if enc = INTSET_ENC_INT64 then 8 else if enc = INTSET_ENC_INT32 then 4 else 2)"

definition intsetGetEncoded :: "intset \<Rightarrow> nat \<Rightarrow> nat \<Rightarrow> int res" where
  "intsetGetEncoded is pos enc =
     (let w = intset_width enc in
      bindE (mem_read (is_contents is) (pos * w) w) (\<lambda>bs. Inr (sle_val bs)))"

definition intsetGet_at :: "intset \<Rightarrow> nat \<Rightarrow> int res" where
  "intsetGet_at is pos = intsetGetEncoded is pos (is_encoding is)"

definition intsetSet_at :: "intset \<Rightarrow> nat \<Rightarrow> int \<Rightarrow> intset res" where
  "intsetSet_at is pos value =
     (let w = intset_width (is_encoding is) in
      bindE (mem_write (is_contents is) (pos * w) (sle_bytes w value)) (\<lambda>c. Inr (is\<lparr>is_contents := c\<rparr>)))"

definition intsetNew :: "allocator \<Rightarrow> intset res" where
  "intsetNew m =
     bindE (s_malloc m 8) (\<lambda>_. Inr \<lparr>is_encoding = INTSET_ENC_INT16, is_length = 0, is_contents = []\<rparr>)"

text \<open>
  The header takes 8 bytes of the block; the contents are what follows it. The size is computed in
  \<open>uint32_t\<close>.
\<close>

definition intsetResize :: "allocator \<Rightarrow> intset \<Rightarrow> nat \<Rightarrow> intset res" where
  "intsetResize m is len =
     (let sz = (len * is_encoding is) mod 2 ^ 32 in
      bindE (s_realloc m (le_bytes 4 (is_encoding is) @ le_bytes 4 (is_length is) @ is_contents is) (8 + sz)) (\<lambda>b.
        Inr (is\<lparr>is_contents := drop 8 b\<rparr>)))"

text \<open>The binary search; the result is the final \<open>cur\<close>, \<open>mid\<close> and \<open>min\<close>.\<close>

function intsetSearch_loop :: "intset \<Rightarrow> int \<Rightarrow> int \<Rightarrow> int \<Rightarrow> int \<Rightarrow> int \<Rightarrow> (int \<times> int \<times> int) res" where
  "intsetSearch_loop is value lo hi mid cur =
     (if hi \<ge> lo then
        let mid' = (lo + hi) mod 2 ^ 32 div 2 in
        if lo \<le> mid' \<and> mid' \<le> hi then
          bindE (intsetGet_at is (nat mid')) (\<lambda>cur'.
            if value > cur' then intsetSearch_loop is value (mid' + 1) hi mid' cur'
            else if value < cur' then intsetSearch_loop is value lo (mid' - 1) mid' cur'
            else Inr (cur', mid', lo))
        else Inl OutOfBounds
      else Inr (cur, mid, lo))"
  by pat_completeness auto
termination
  by (relation "measure (\<lambda>(is, value, lo, hi, mid, cur). nat (hi - lo + 1))") auto

declare intsetSearch_loop.simps [simp del]

definition intsetSearch :: "intset \<Rightarrow> int \<Rightarrow> (bool \<times> nat) res" where
  "intsetSearch is value =
     (if is_length is = 0 then Inr (False, 0)
      else
        bindE (intsetGet_at is (is_length is - 1)) (\<lambda>last.
          if value > last then Inr (False, is_length is)
          else bindE (intsetGet_at is 0) (\<lambda>first.
            if value < first then Inr (False, 0)
            else bindE (intsetSearch_loop is value 0 (s32 (int (is_length is) - 1)) (- 1) (- 1)) (\<lambda>(cur, mid, lo).
              if value = cur then Inr (True, nat mid) else Inr (False, nat lo)))))"

text \<open>The upgrade copies the elements from the last to the first.\<close>

primrec intsetUpgrade_loop :: "intset \<Rightarrow> nat \<Rightarrow> nat \<Rightarrow> nat \<Rightarrow> intset res" where
  "intsetUpgrade_loop is curenc prepend 0 = Inr is"
| "intsetUpgrade_loop is curenc prepend (Suc len) =
     bindE (intsetGetEncoded is len curenc) (\<lambda>v.
     bindE (intsetSet_at is (len + prepend) v) (\<lambda>is'. intsetUpgrade_loop is' curenc prepend len))"

definition intsetUpgradeAndAdd :: "allocator \<Rightarrow> intset \<Rightarrow> int \<Rightarrow> intset res" where
  "intsetUpgradeAndAdd m is value =
     (let curenc = is_encoding is; newenc = intsetValueEncoding value;
          prepend = (if value < 0 then 1 else 0) in
      bindE (intsetResize m (is\<lparr>is_encoding := newenc\<rparr>) ((is_length is + 1) mod 2 ^ 32)) (\<lambda>is1.
      bindE (intsetUpgrade_loop is1 curenc prepend (is_length is)) (\<lambda>is2.
      bindE (if prepend = 1 then intsetSet_at is2 0 value else intsetSet_at is2 (is_length is2) value) (\<lambda>is3.
        Inr (is3\<lparr>is_length := (is_length is3 + 1) mod 2 ^ 32\<rparr>)))))"

definition intsetMoveTail :: "intset \<Rightarrow> nat \<Rightarrow> nat \<Rightarrow> intset res" where
  "intsetMoveTail is from to =
     (let w = intset_width (is_encoding is); bytes = (u32sub (is_length is) from * w) mod 2 ^ 32 in
      bindE (mem_read (is_contents is) (from * w) bytes) (\<lambda>src.
      bindE (mem_write (is_contents is) (to * w) src) (\<lambda>c. Inr (is\<lparr>is_contents := c\<rparr>))))"

definition intsetAdd :: "allocator \<Rightarrow> intset \<Rightarrow> int \<Rightarrow> (intset \<times> bool) res" where
  "intsetAdd m is value =
     (if intsetValueEncoding value > is_encoding is then
        bindE (intsetUpgradeAndAdd m is value) (\<lambda>is'. Inr (is', True))
      else
        bindE (intsetSearch is value) (\<lambda>(found, pos).
          if found then Inr (is, False)
          else
            bindE (intsetResize m is ((is_length is + 1) mod 2 ^ 32)) (\<lambda>is1.
            bindE (if pos < is_length is1 then intsetMoveTail is1 pos (pos + 1) else Inr is1) (\<lambda>is2.
            bindE (intsetSet_at is2 pos value) (\<lambda>is3.
              Inr (is3\<lparr>is_length := (is_length is3 + 1) mod 2 ^ 32\<rparr>, True))))))"

definition intsetRemove :: "allocator \<Rightarrow> intset \<Rightarrow> int \<Rightarrow> (intset \<times> bool) res" where
  "intsetRemove m is value =
     (if intsetValueEncoding value \<le> is_encoding is then
        bindE (intsetSearch is value) (\<lambda>(found, pos).
          if found then
            let len = is_length is in
            bindE (if pos < u32sub len 1 then intsetMoveTail is (pos + 1) pos else Inr is) (\<lambda>is1.
            bindE (intsetResize m is1 (u32sub len 1)) (\<lambda>is2.
              Inr (is2\<lparr>is_length := u32sub len 1\<rparr>, True)))
          else Inr (is, False))
      else Inr (is, False))"

definition intsetFind :: "intset \<Rightarrow> int \<Rightarrow> bool res" where
  "intsetFind is value =
     (if intsetValueEncoding value \<le> is_encoding is
      then bindE (intsetSearch is value) (\<lambda>(found, _). Inr found) else Inr False)"

text \<open>The number drawn by \<open>rand\<close> is an argument; the remainder by a length of zero is undefined.\<close>

definition intsetRandom :: "intset \<Rightarrow> nat \<Rightarrow> int res" where
  "intsetRandom is rnd =
     (if is_length is = 0 then Inl UndefBehaviour else intsetGet_at is (rnd mod is_length is))"

definition intsetGet :: "intset \<Rightarrow> nat \<Rightarrow> int option res" where
  "intsetGet is pos =
     (if pos < is_length is then bindE (intsetGet_at is pos) (\<lambda>v. Inr (Some v)) else Inr None)"

definition intsetLen :: "intset \<Rightarrow> nat" where
  "intsetLen is = is_length is"

definition intsetBlobLen :: "intset \<Rightarrow> nat" where
  "intsetBlobLen is = 8 + (is_length is * is_encoding is) mod 2 ^ 32"

section \<open>Packed arrays\<close>

definition packed :: "nat \<Rightarrow> int list \<Rightarrow> byte list" where
  "packed w xs = concat (map (sle_bytes w) xs)"

lemma packed_simps [simp]: "packed w [] = []" "packed w (x # xs) = sle_bytes w x @ packed w xs"
  "packed w (xs @ ys) = packed w xs @ packed w ys"
  by (simp_all add: packed_def)

lemma length_packed [simp]: "length (packed w xs) = length xs * w"
  by (induction xs) simp_all

lemma take_packed: "take (k * w) (packed w xs) = packed w (take k xs)"
proof (induction xs arbitrary: k)
  case (Cons x xs)
  then show ?case by (cases k) simp_all
qed simp

lemma drop_packed: "drop (k * w) (packed w xs) = packed w (drop k xs)"
proof (induction xs arbitrary: k)
  case (Cons x xs)
  then show ?case by (cases k) simp_all
qed simp

lemma packed_nth:
  assumes "i < length xs"
  shows "take w (drop (i * w) (packed w xs)) = sle_bytes w (xs ! i)"
  using assms by (simp add: drop_packed Cons_nth_drop_Suc[symmetric])

lemma packed_update:
  assumes "i < length xs"
  shows "take (i * w) (packed w xs) @ sle_bytes w v @ drop (i * w + w) (packed w xs) = packed w (xs[i := v])"
  using assms drop_packed[of "Suc i" w xs] by (simp add: take_packed add.commute upd_conv_take_nth_drop)

section \<open>Abstraction\<close>

text \<open>The elements, in order; the invariant is that they are strictly increasing and fit the width.\<close>

definition intset_rep :: "intset \<Rightarrow> int list \<Rightarrow> bool" where
  "intset_rep is xs \<longleftrightarrow> is_encoding is \<in> {2, 4, 8} \<and> is_length is = length xs
     \<and> is_contents is = packed (is_encoding is) xs \<and> (\<forall>x \<in> set xs. sle_fits (is_encoding is) x)
     \<and> sorted_wrt (<) xs"

definition intset_room :: "int list \<Rightarrow> bool" where
  "intset_room xs \<longleftrightarrow> length xs + 1 < 2 ^ 29"

lemma intset_width_enc [simp]: "enc \<in> {2, 4, 8} \<Longrightarrow> intset_width enc = enc"
  by (auto simp: intset_width_def)

lemma enc_le8: "enc \<in> {2, 4, 8 :: nat} \<Longrightarrow> enc \<le> 8"
  by auto

lemma intsetValueEncoding_range [simp]: "intsetValueEncoding v \<in> {2, 4, 8}"
  by (simp add: intsetValueEncoding_def)

lemma sle_fits_encoding:
  assumes "- (2 ^ 63) \<le> v" "v < 2 ^ 63" "enc \<in> {2, 4, 8}"
  shows "sle_fits enc v \<longleftrightarrow> intsetValueEncoding v \<le> enc"
  using assms by (auto simp: sle_fits_def intsetValueEncoding_def)

lemma intsetGet_at_rep:
  assumes "intset_rep is xs" "i < length xs"
  shows "intsetGet_at is i = Inr (xs ! i)"
proof -
  let ?w = "is_encoding is"
  have w: "?w \<in> {2, 4, 8}" and c: "is_contents is = packed ?w xs" and f: "sle_fits ?w (xs ! i)"
    using assms by (auto simp: intset_rep_def)
  have "i * ?w + ?w \<le> length xs * ?w" using mult_le_mono1[of "Suc i" "length xs" ?w] assms(2) by simp
  then show ?thesis
    using w f assms(2) by (simp add: intsetGet_at_def intsetGetEncoded_def Let_def c packed_nth)
qed

section \<open>Binary search\<close>

lemma mid_bounds:
  fixes lo hi :: int
  assumes "0 \<le> lo" "lo \<le> hi" "hi < 2 ^ 31"
  shows "(lo + hi) mod 2 ^ 32 div 2 = (lo + hi) div 2" "lo \<le> (lo + hi) div 2" "(lo + hi) div 2 \<le> hi"
proof -
  have "(lo + hi) mod 2 ^ 32 = lo + hi" using assms by (intro mod_pos_pos_trivial) simp_all
  then show "(lo + hi) mod 2 ^ 32 div 2 = (lo + hi) div 2" by simp
qed (use assms in simp_all)

lemma sorted_nth_mono: "sorted_wrt (<) xs \<Longrightarrow> i \<le> j \<Longrightarrow> j < length xs \<Longrightarrow> xs ! i \<le> xs ! j"
  for xs :: "int list"
  using sorted_wrt_nth_less[of "(<)" xs i j] by (cases "i = j") simp_all

definition search_post :: "int list \<Rightarrow> int \<Rightarrow> int \<times> int \<times> int \<Rightarrow> bool" where
  "search_post xs v = (\<lambda>(cur, mid, lo).
     if cur = v then 0 \<le> mid \<and> nat mid < length xs \<and> xs ! nat mid = v
     else 0 \<le> lo \<and> nat lo \<le> length xs \<and> (\<forall>i < length xs. if i < nat lo then xs ! i < v else v < xs ! i))"

text \<open>
  While the loop runs, the elements before \<open>lo\<close> are smaller than the value and those after \<open>hi\<close>
  larger.
\<close>

lemma intsetSearch_loop_correct:
  assumes "intset_rep is xs" "length xs < 2 ^ 31"
    and "0 \<le> lo" "lo \<le> hi + 1" "hi < int (length xs)"
    and "\<forall>i < length xs. int i < lo \<longrightarrow> xs ! i < v" "\<forall>i < length xs. hi < int i \<longrightarrow> v < xs ! i"
    and "lo \<le> hi \<or> cur \<noteq> v"
  shows "\<exists>r. intsetSearch_loop is v lo hi mid cur = Inr r \<and> search_post xs v r"
  using assms
proof (induction "is" v lo hi mid cur rule: intsetSearch_loop.induct)
  case (1 "is" v lo hi mid cur)
  note p = "1.prems"
  show ?case
  proof (cases "hi \<ge> lo")
    case False
    then have "nat lo \<le> length xs" "\<forall>i < length xs. if i < nat lo then xs ! i < v else v < xs ! i"
      using p(3-7) by auto
    with False p(3,8) show ?thesis by (subst intsetSearch_loop.simps) (simp add: search_post_def)
  next
    case True
    define mid' where "mid' = (lo + hi) mod 2 ^ 32 div 2"
    have m: "lo \<le> mid'" "mid' \<le> hi" "mid' = (lo + hi) div 2"
      using mid_bounds[of lo hi] p(2,3,5) True by (simp_all add: mid'_def)
    then have i: "nat mid' < length xs" "0 \<le> mid'" using p(3,5) by auto
    note get = intsetGet_at_rep[OF p(1) i(1)]
    have sorted: "sorted_wrt (<) xs" using p(1) by (simp add: intset_rep_def)
    let ?x = "xs ! nat mid'"
    have loop: "intsetSearch_loop is v lo hi mid cur =
        (if v > ?x then intsetSearch_loop is v (mid' + 1) hi mid' ?x
         else if v < ?x then intsetSearch_loop is v lo (mid' - 1) mid' ?x
         else Inr (?x, mid', lo))"
      using True m(1,2) get by (subst intsetSearch_loop.simps, unfold Let_def mid'_def[symmetric]) simp
    consider "?x < v" | "v < ?x" | "?x = v" by linarith
    then show ?thesis
    proof cases
      case 1
      then have ne: "?x \<noteq> v" by simp
      have "\<forall>i < length xs. int i < mid' + 1 \<longrightarrow> xs ! i < v"
      proof (intro allI impI)
        fix k assume "k < length xs" "int k < mid' + 1"
        then have "k \<le> nat mid'" by linarith
        then show "xs ! k < v" using sorted_nth_mono[OF sorted _ i(1), of k] 1 by simp
      qed
      then have "\<exists>r. intsetSearch_loop is v (mid' + 1) hi mid' ?x = Inr r \<and> search_post xs v r"
        using m(1,2) p i 1 by (intro "1.IH"(1)[OF True mid'_def _ get]) (simp_all add: ne)
      with 1 show ?thesis unfolding loop by simp
    next
      case 2
      then have ne: "?x \<noteq> v" "\<not> ?x < v" by simp_all
      have "\<forall>i < length xs. mid' - 1 < int i \<longrightarrow> v < xs ! i"
      proof (intro allI impI)
        fix k assume "k < length xs" "mid' - 1 < int k"
        then have "nat mid' \<le> k" "k < length xs" by linarith+
        then show "v < xs ! k" using sorted_nth_mono[OF sorted, of "nat mid'" k] 2 by simp
      qed
      then have "\<exists>r. intsetSearch_loop is v lo (mid' - 1) mid' ?x = Inr r \<and> search_post xs v r"
        using m(1,2) p i 2 by (intro "1.IH"(2)[OF True mid'_def _ get]) (simp_all add: ne)
      with 2 show ?thesis unfolding loop by simp
    next
      case 3
      then show ?thesis unfolding loop using i by (simp add: search_post_def)
    qed
  qed
qed

definition insert_pos :: "int list \<Rightarrow> int \<Rightarrow> nat \<Rightarrow> bool" where
  "insert_pos xs v pos \<longleftrightarrow> pos \<le> length xs \<and> (\<forall>i < length xs. if i < pos then xs ! i < v else v < xs ! i)"

lemma insert_posD:
  assumes "insert_pos xs v pos"
  shows "v \<notin> set xs" "\<forall>x \<in> set (take pos xs). x < v" "\<forall>x \<in> set (drop pos xs). v < x"
proof -
  have p: "pos \<le> length xs" "\<And>i. i < pos \<Longrightarrow> i < length xs \<Longrightarrow> xs ! i < v"
    "\<And>i. pos \<le> i \<Longrightarrow> i < length xs \<Longrightarrow> v < xs ! i"
    using assms unfolding insert_pos_def by (auto split: if_splits)
  show "\<forall>x \<in> set (take pos xs). x < v" using p(1,2) by (auto simp: in_set_conv_nth)
  show "\<forall>x \<in> set (drop pos xs). v < x"
    using p(1) p(3)[of "pos + _"] by (auto simp: in_set_conv_nth)
  show "v \<notin> set xs"
  proof
    assume "v \<in> set xs"
    then obtain i where "i < length xs" "xs ! i = v" by (auto simp: in_set_conv_nth)
    then show False using p(2)[of i] p(3)[of i] by (cases "i < pos") auto
  qed
qed

lemma intsetSearch_correct:
  assumes rep: "intset_rep is xs" and len: "length xs < 2 ^ 31"
  shows "\<exists>pos. intsetSearch is v = Inr (v \<in> set xs, pos) \<and>
    (if v \<in> set xs then pos < length xs \<and> xs ! pos = v else insert_pos xs v pos)"
proof (cases "xs = []")
  case True
  then have "is_length is = 0" using rep by (simp add: intset_rep_def)
  with True show ?thesis by (simp add: intsetSearch_def insert_pos_def)
next
  case False
  let ?n = "length xs"
  have n: "is_length is = ?n" and sorted: "sorted_wrt (<) xs" using rep by (simp_all add: intset_rep_def)
  have n0: "0 < ?n" using False by simp
  have last: "intsetGet_at is (?n - 1) = Inr (xs ! (?n - 1))" and first: "intsetGet_at is 0 = Inr (xs ! 0)"
    using intsetGet_at_rep[OF rep] n0 by simp_all
  have lo: "xs ! 0 \<le> xs ! i" and hi: "xs ! i \<le> xs ! (?n - 1)" if "i < ?n" for i
    using sorted_nth_mono[OF sorted, of 0 i] sorted_nth_mono[OF sorted, of i "?n - 1"] that by auto
  consider (above) "xs ! (?n - 1) < v" | (below) "\<not> xs ! (?n - 1) < v" "v < xs ! 0"
    | (inside) "\<not> xs ! (?n - 1) < v" "\<not> v < xs ! 0" by blast
  then show ?thesis
  proof cases
    case above
    then have "insert_pos xs v ?n" using hi by (force simp: insert_pos_def)
    with insert_posD(1)[OF this] show ?thesis using above n n0 last by (simp add: intsetSearch_def)
  next
    case below
    then have "insert_pos xs v 0" using lo by (force simp: insert_pos_def)
    with insert_posD(1)[OF this] show ?thesis using below n n0 last first by (simp add: intsetSearch_def)
  next
    case inside
    have "\<exists>r. intsetSearch_loop is v 0 (int ?n - 1) (- 1) (- 1) = Inr r \<and> search_post xs v r"
      using n0 len by (intro intsetSearch_loop_correct[OF rep len]) auto
    then obtain cur mid lo' where r: "intsetSearch_loop is v 0 (int ?n - 1) (- 1) (- 1) = Inr (cur, mid, lo')"
      "search_post xs v (cur, mid, lo')" by auto
    have s: "intsetSearch is v = Inr (if v = cur then (True, nat mid) else (False, nat lo'))"
      using inside n n0 last first len r(1) by (simp add: intsetSearch_def)
    show ?thesis
    proof (cases "v = cur")
      case True
      with r(2) have "nat mid < length xs" "xs ! nat mid = v" by (simp_all add: search_post_def)
      moreover from this have "v \<in> set xs" by auto
      ultimately show ?thesis using True s by simp
    next
      case False
      with r(2) have "insert_pos xs v (nat lo')" by (simp add: search_post_def insert_pos_def)
      with False s insert_posD(1)[OF this] show ?thesis by simp
    qed
  qed
qed

section \<open>Insertion and removal\<close>

lemma intsetResize_yields:
  assumes "malloc_ok m" "len * is_encoding is < 2 ^ 32"
  shows "yields m (intsetResize m is len) (\<lambda>is'. \<exists>c. is' = is\<lparr>is_contents := c\<rparr> \<and>
    length c = len * is_encoding is \<and>
    take (min (len * is_encoding is) (length (is_contents is))) c = take (len * is_encoding is) (is_contents is))"
proof -
  let ?h = "le_bytes 4 (is_encoding is) @ le_bytes 4 (is_length is)" and ?n = "len * is_encoding is"
  have "yields m (bindE (s_realloc m (?h @ is_contents is) (8 + ?n)) (\<lambda>b. Inr (is\<lparr>is_contents := drop 8 b\<rparr>)))
    (\<lambda>is'. \<exists>c. is' = is\<lparr>is_contents := c\<rparr> \<and> length c = ?n \<and>
      take (min ?n (length (is_contents is))) c = take ?n (is_contents is))"
  proof (rule yields_bindE [OF yields_s_realloc [OF assms(1)]], goal_cases)
    case (1 b)
    then have l: "length b = 8 + ?n" and t: "take (8 + min ?n (length (is_contents is))) b = take (8 + ?n) (?h @ is_contents is)"
      by (auto simp: min_def split: if_splits)
    have "take (min ?n (length (is_contents is))) (drop 8 b) = take ?n (is_contents is)"
      using arg_cong[OF t, of "drop 8"] by (simp add: drop_take)
    then show ?case using l by (intro yields_Inr[THEN iffD2] exI[of _ "drop 8 b"]) simp
  qed
  then show ?thesis using assms(2) by (simp add: intsetResize_def Let_def)
qed

lemma mult_le_w: "i < n \<Longrightarrow> i * w + w \<le> n * (w :: nat)"
  using mult_le_mono1[of "Suc i" n w] by simp

lemma sorted_insert:
  fixes xs :: "int list"
  assumes "sorted_wrt (<) xs" "insert_pos xs v pos"
  shows "sorted_wrt (<) (take pos xs @ v # drop pos xs)"
  using assms(1) insert_posD(2,3)[OF assms(2)]
  by (auto simp: sorted_wrt_append sorted_wrt_take sorted_wrt_drop dest: less_trans)

text \<open>The four steps of an insertion: the block grows, the tail moves up, the gap is filled.\<close>

lemma intsetAdd_place:
  assumes rep: "intset_rep is xs" and pos: "insert_pos xs v pos" and room: "intset_room xs"
    and v: "sle_fits (is_encoding is) v"
    and c: "length c = (length xs + 1) * is_encoding is" "take (length xs * is_encoding is) c = packed (is_encoding is) xs"
  shows "\<exists>is'. bindE (if pos < is_length is then intsetMoveTail (is\<lparr>is_contents := c\<rparr>) pos (pos + 1) else Inr (is\<lparr>is_contents := c\<rparr>))
      (\<lambda>is2. bindE (intsetSet_at is2 pos v) (\<lambda>is3.
         Inr (is3\<lparr>is_length := (is_length is3 + 1) mod 2 ^ 32\<rparr>, True))) = Inr (is', True) \<and>
    intset_rep is' (take pos xs @ v # drop pos xs)"
proof -
  define w where "w = is_encoding is"
  have w: "w \<in> {2, 4, 8}" "intset_width w = w" and n: "is_length is = length xs" and s: "sorted_wrt (<) xs"
    using rep intset_width_enc[of w] by (auto simp: intset_rep_def w_def)
  have p: "pos \<le> length xs" using pos by (simp add: insert_pos_def)
  have n32: "(length xs + 1) * w < 2 ^ 32"
  proof -
    have "(length xs + 1) * w \<le> (length xs + 1) * 8" using enc_le8[OF w(1)] by (intro mult_le_mono) simp_all
    then show ?thesis using room by (simp add: intset_room_def)
  qed
  have n32': "length xs + 1 < 2 ^ 32" using room by (simp add: intset_room_def)
  obtain t where t: "c = packed w xs @ t" "length t = w"
    using c append_take_drop_id[of "length xs * w" c] by (metis add.commute add_diff_cancel_left' length_drop mult_Suc plus_1_eq_Suc w_def)
  define c2 where "c2 = (if pos < length xs then take (pos * w + w) c @ packed w (drop pos xs) else c)"
  have mv: "(if pos < is_length is then intsetMoveTail (is\<lparr>is_contents := c\<rparr>) pos (pos + 1) else Inr (is\<lparr>is_contents := c\<rparr>))
      = Inr (is\<lparr>is_contents := c2\<rparr>)"
  proof (cases "pos < length xs")
    case True
    have b: "(length xs - pos) * w < 2 ^ 32"
      using mult_le_mono1[of "length xs - pos" "length xs + 1" w] n32 by linarith
    have le: "pos * w + (length xs - pos) * w = length xs * w" using True by (simp add: add_mult_distrib[symmetric])
    have "take ((length xs - pos) * w) (drop (pos * w) c) = packed w (drop pos xs)"
      using le True by (simp add: t(1) drop_packed)
    moreover have "(pos + 1) * w + (length xs - pos) * w = length c" using le c(1) by (simp add: w_def)
    ultimately show ?thesis
      using True n n32' b le c(1) w
      by (simp add: intsetMoveTail_def Let_def c2_def w_def[symmetric] add.commute)
  qed (simp add: c2_def n)
  have c2: "take (pos * w) c2 = packed w (take pos xs)" "drop (pos * w + w) c2 = packed w (drop pos xs)"
    "length c2 = (length xs + 1) * w"
  proof -
    show l: "length c2 = (length xs + 1) * w"
      using p c(1) by (auto simp: c2_def w_def min_def algebra_simps add_mult_distrib[symmetric])
    show "take (pos * w) c2 = packed w (take pos xs)" using p mult_le_mono1[OF p, of w] by (auto simp: c2_def t(1) take_packed)
    show "drop (pos * w + w) c2 = packed w (drop pos xs)"
    proof (cases "pos < length xs")
      case True
      then have "pos * w + w \<le> length c" using mult_le_w[OF True, of w] c(1) by (simp add: w_def)
      then show ?thesis using True by (simp add: c2_def)
    next
      case False
      then show ?thesis using p l by simp
    qed
  qed
  define is' where "is' = is\<lparr>is_contents := packed w (take pos xs @ v # drop pos xs), is_length := length xs + 1\<rparr>"
  have "pos * w + w \<le> length c2" using c2(3) p mult_le_mono1[OF p, of w] by simp
  then have st: "intsetSet_at (is\<lparr>is_contents := c2\<rparr>) pos v = Inr (is\<lparr>is_contents := packed w (take pos xs @ v # drop pos xs)\<rparr>)"
    using w c2(1,2) by (simp add: intsetSet_at_def Let_def w_def[symmetric])
  have "\<forall>x \<in> set (take pos xs @ v # drop pos xs). sle_fits w x"
    using rep v by (auto simp: intset_rep_def w_def dest: in_set_takeD in_set_dropD)
  then have "intset_rep is' (take pos xs @ v # drop pos xs)"
    using w(1) p sorted_insert[OF s pos] by (simp add: intset_rep_def is'_def w_def min_def)
  then show ?thesis unfolding mv using st n n32' by (simp add: is'_def)
qed

section \<open>Upgrading the encoding\<close>

lemma intsetUpgrade_loop_correct:
  fixes w w' pre :: nat
  assumes w: "w \<in> {2, 4, 8}" "w' \<in> {2, 4, 8}" "w \<le> w'" and enc: "is_encoding is = w'" and pre: "pre \<le> 1"
    and fits: "\<forall>x \<in> set xs. sle_fits w x"
  shows "k \<le> length xs \<Longrightarrow> length c = (length xs + 1) * w' \<Longrightarrow> take (k * w) c = packed w (take k xs) \<Longrightarrow>
    take ((length xs - k) * w') (drop ((k + pre) * w') c) = packed w' (drop k xs) \<Longrightarrow>
    \<exists>c'. intsetUpgrade_loop (is\<lparr>is_contents := c\<rparr>) w pre k = Inr (is\<lparr>is_contents := c'\<rparr>) \<and>
      length c' = length c \<and> take (length xs * w') (drop (pre * w') c') = packed w' xs"
proof (induction k arbitrary: c)
  case 0
  then show ?case by auto
next
  case (Suc j)
  note p = Suc.prems
  have j: "j < length xs" using p(1) by simp
  define o' where "o' = (j + pre) * w'"
  have o1: "j * w \<le> o'" using w(3) by (auto simp: o'_def intro: mult_le_mono)
  have o2: "o' + w' \<le> length c" using p(1,2) pre mult_le_mono1[of "Suc (j + pre)" "length xs + 1" w'] by (simp add: o'_def)
  have "w \<le> w'" "Suc j * w \<le> length c" using w(3) p(1,2) mult_le_mono[of "Suc j" "length xs + 1" w w'] by simp_all
  have "take w (drop (j * w) c) = take w (drop (j * w) (take (Suc j * w) c))" by (simp add: drop_take)
  also have "\<dots> = sle_bytes w (xs ! j)" unfolding p(3) using packed_nth[of j "take (Suc j) xs" w] j by simp
  finally have rd: "take w (drop (j * w) c) = sle_bytes w (xs ! j)" .
  have g: "intsetGetEncoded (is\<lparr>is_contents := c\<rparr>) j w = Inr (xs ! j)"
    using rd \<open>Suc j * w \<le> length c\<close> w(1) fits j by (simp add: intsetGetEncoded_def Let_def)
  define c1 where "c1 = take o' c @ sle_bytes w' (xs ! j) @ drop (o' + w') c"
  have st: "intsetSet_at (is\<lparr>is_contents := c\<rparr>) (j + pre) (xs ! j) = Inr (is\<lparr>is_contents := c1\<rparr>)"
    using o2 w(2) enc by (simp add: intsetSet_at_def Let_def c1_def o'_def)
  have "\<exists>c'. intsetUpgrade_loop (is\<lparr>is_contents := c1\<rparr>) w pre j = Inr (is\<lparr>is_contents := c'\<rparr>) \<and>
      length c' = length c1 \<and> take (length xs * w') (drop (pre * w') c') = packed w' xs"
  proof (rule Suc.IH)
    show l1: "length c1 = (length xs + 1) * w'" using o2 p(2) by (simp add: c1_def)
    show "take (j * w) c1 = packed w (take j xs)"
    proof -
      have "take (j * w) c1 = take (j * w) (take (Suc j * w) c)" using o1 o2 by (simp add: c1_def min_def)
      then show ?thesis unfolding p(3) using j by (simp add: take_packed min_def)
    qed
    have "drop o' c1 = sle_bytes w' (xs ! j) @ drop (o' + w') c" using o2 by (simp add: c1_def)
    moreover have "(length xs - j) * w' = w' + (length xs - Suc j) * w'"
      using j by (metis Suc_diff_Suc mult_Suc)
    moreover have "take ((length xs - Suc j) * w') (drop (o' + w') c) = packed w' (drop (Suc j) xs)"
      using p(4) by (simp add: o'_def add.commute)
    ultimately show "take ((length xs - j) * w') (drop ((j + pre) * w') c1) = packed w' (drop j xs)"
      using j by (simp add: o'_def[symmetric] Cons_nth_drop_Suc[symmetric])
  qed (use j in simp)
  then show ?case using g st o2 by (auto simp: c1_def)
qed

lemma upgrade_outside:
  assumes "\<not> sle_fits w v" "sle_fits w x"
  shows "if v < 0 then v < x else x < v"
  using assms by (auto simp: sle_fits_def)

lemma intsetUpgradeAndAdd_yields:
  assumes m: "malloc_ok m" and rep: "intset_rep is xs" and room: "intset_room xs"
    and v: "- (2 ^ 63) \<le> v" "v < 2 ^ 63" "is_encoding is < intsetValueEncoding v"
  shows "yields m (intsetUpgradeAndAdd m is v)
    (\<lambda>is'. intset_rep is' (if v < 0 then v # xs else xs @ [v]))"
proof -
  define w w' where "w = is_encoding is" and "w' = intsetValueEncoding v"
  define pre :: nat where "pre = (if v < 0 then 1 else 0)"
  have pre1: "pre \<le> 1" by (simp add: pre_def)
  define is0 where "is0 = is\<lparr>is_encoding := w'\<rparr>"
  have w: "w \<in> {2, 4, 8}" "w' \<in> {2, 4, 8}" "w \<le> w'" and n: "is_length is = length xs"
    and c: "is_contents is = packed w xs" and fits: "\<forall>x \<in> set xs. sle_fits w x" and s: "sorted_wrt (<) xs"
    using rep v(3) intsetValueEncoding_range[of v]
    by (simp_all add: intset_rep_def w_def w'_def del: intsetValueEncoding_range)
  have nf: "\<not> sle_fits w v" "sle_fits w' v" using v sle_fits_encoding[OF v(1,2)] w by (auto simp: w_def w'_def)
  have out: "if v < 0 then v < x else x < v" if "x \<in> set xs" for x
    using upgrade_outside[OF nf(1)] fits that by blast
  have n32: "(length xs + 1) * w' < 2 ^ 32" "length xs + 1 < 2 ^ 32"
    using mult_le_mono2[OF enc_le8[OF w(2)], of "length xs + 1"] room by (simp_all add: intset_room_def)
  have fits': "\<forall>x \<in> set xs. sle_fits w' x" using fits w(3) sle_fits_mono by blast
  have mono: "length xs * w \<le> (length xs + 1) * w'" using w(3) by (intro mult_le_mono) simp_all
  show ?thesis
    unfolding intsetUpgradeAndAdd_def Let_def w_def[symmetric] w'_def[symmetric] pre_def[symmetric] is0_def[symmetric] n
  proof (rule yields_bindE [OF intsetResize_yields [OF m]], goal_cases)
    case 1
    show ?case using n32 by (simp add: is0_def)
  next
    case (2 is1)
    then obtain b where b: "is1 = is0\<lparr>is_contents := b\<rparr>" "length b = (length xs + 1) * w'"
      "take (length xs * w) b = packed w xs"
      using n32(2) mono c by (auto simp: is0_def min_def split: if_splits)
    obtain b' where b': "intsetUpgrade_loop (is0\<lparr>is_contents := b\<rparr>) w pre (length xs) = Inr (is0\<lparr>is_contents := b'\<rparr>)"
      "length b' = length b" "take (length xs * w') (drop (pre * w') b') = packed w' xs"
      using intsetUpgrade_loop_correct[OF w, of is0 pre xs "length xs" b] b fits pre1 by (auto simp: is0_def)
    show ?case
    proof (cases "v < 0")
      case True
      then have "drop w' b' = packed w' xs" using b'(2,3) b(2) by (simp add: pre_def)
      then have "intsetSet_at (is0\<lparr>is_contents := b'\<rparr>) 0 v = Inr (is0\<lparr>is_contents := packed w' (v # xs)\<rparr>)"
        using w b'(2) b(2) by (simp add: intsetSet_at_def Let_def is0_def)
      with b(1) b'(1) True n32(2) n w s nf(2) fits' out show ?thesis
        by (auto simp: pre_def intset_rep_def is0_def)
    next
      case False
      then have "take (length xs * w') b' = packed w' xs" using b'(3) by (simp add: pre_def)
      then have "intsetSet_at (is0\<lparr>is_contents := b'\<rparr>) (length xs) v = Inr (is0\<lparr>is_contents := packed w' (xs @ [v])\<rparr>)"
        using w b'(2) b(2) by (simp add: intsetSet_at_def Let_def is0_def)
      with b(1) b'(1) False n32(2) n w s nf(2) fits' out show ?thesis
        by (auto simp: pre_def intset_rep_def is0_def sorted_wrt_append)
    qed
  qed
qed

section \<open>The set of integers\<close>

text \<open>The elements are read off the bytes; the invariant is executable.\<close>

definition intset_elems :: "intset \<Rightarrow> int list" where
  "intset_elems is = (let w = is_encoding is in
     map (\<lambda>i. sle_val (take w (drop (i * w) (is_contents is)))) [0..<is_length is])"

definition intset_inv :: "intset \<Rightarrow> bool" where
  "intset_inv is \<longleftrightarrow> intset_rep is (intset_elems is)"

definition int64 :: "int \<Rightarrow> bool" where
  "int64 v \<longleftrightarrow> - (2 ^ 63) \<le> v \<and> v < 2 ^ 63"

lemma intset_rep_elems: "intset_rep is xs \<Longrightarrow> intset_elems is = xs"
  by (rule nth_equalityI) (auto simp: intset_rep_def intset_elems_def Let_def packed_nth)

lemma intset_rep_inv: "intset_rep is xs \<Longrightarrow> intset_inv is \<and> intset_elems is = xs"
  using intset_rep_elems by (auto simp: intset_inv_def)

lemma intsetAdd_rep:
  assumes m: "malloc_ok m" and rep: "intset_rep is xs" and room: "intset_room xs" and v: "int64 v"
  shows "yields m (intsetAdd m is v) (\<lambda>(is', ok). ok = (v \<notin> set xs) \<and>
    (\<exists>ys. intset_rep is' ys \<and> set ys = insert v (set xs)))"
proof (cases "intsetValueEncoding v > is_encoding is")
  case True
  have f: "\<forall>x \<in> set xs. sle_fits (is_encoding is) x" and "is_encoding is \<in> {2, 4, 8}"
    using rep by (auto simp: intset_rep_def)
  then have "v \<notin> set xs" using True v sle_fits_encoding[of v "is_encoding is"] by (auto simp: int64_def)
  then show ?thesis
    using True intsetUpgradeAndAdd_yields[OF m rep room _ _ True] v
    by (auto simp: intsetAdd_def int64_def elim!: yields_bindE split: if_splits intro!: exI)
next
  case False
  let ?w = "is_encoding is"
  have w: "?w \<in> {2, 4, 8}" and n: "is_length is = length xs" and c: "is_contents is = packed ?w xs"
    using rep by (auto simp: intset_rep_def)
  have len: "length xs < 2 ^ 31" "(length xs + 1) mod 2 ^ 32 = length xs + 1"
    using room by (simp_all add: intset_room_def)
  obtain pos where s: "intsetSearch is v = Inr (v \<in> set xs, pos)" and p: "v \<notin> set xs \<Longrightarrow> insert_pos xs v pos"
    using intsetSearch_correct[OF rep len(1), of v] by (auto split: if_splits)
  show ?thesis
  proof (cases "v \<in> set xs")
    case True
    then show ?thesis using False s rep by (auto simp: intsetAdd_def intro!: exI[of _ xs])
  next
    case v': False
    have n32: "(length xs + 1) * ?w < 2 ^ 32"
      using mult_le_mono2[OF enc_le8[OF w], of "length xs + 1"] room by (simp add: intset_room_def)
    have fits: "sle_fits ?w v" using False v sle_fits_encoding[of v ?w] w by (auto simp: int64_def)
    have set': "set (take pos xs @ v # drop pos xs) = insert v (set xs)"
    proof -
      have "set xs = set (take pos xs) \<union> set (drop pos xs)" by (metis append_take_drop_id set_append)
      then show ?thesis by auto
    qed
    have "yields m (bindE (intsetResize m is (length xs + 1)) (\<lambda>is1.
        bindE (if pos < is_length is1 then intsetMoveTail is1 pos (pos + 1) else Inr is1) (\<lambda>is2.
        bindE (intsetSet_at is2 pos v) (\<lambda>is3. Inr (is3\<lparr>is_length := (is_length is3 + 1) mod 2 ^ 32\<rparr>, True)))))
      (\<lambda>(is', ok). ok \<and> (\<exists>ys. intset_rep is' ys \<and> set ys = insert v (set xs)))"
    proof (rule yields_bindE [OF intsetResize_yields [OF m n32]], goal_cases)
      case (1 is1)
      then obtain b where b: "is1 = is\<lparr>is_contents := b\<rparr>" "length b = (length xs + 1) * ?w"
        "take (length xs * ?w) b = packed ?w xs"
        using c by (auto simp: min_absorb2)
      obtain is' where "bindE (if pos < is_length is1 then intsetMoveTail is1 pos (pos + 1) else Inr is1) (\<lambda>is2.
        bindE (intsetSet_at is2 pos v) (\<lambda>is3. Inr (is3\<lparr>is_length := (is_length is3 + 1) mod 2 ^ 32\<rparr>, True)))
          = Inr (is', True)" "intset_rep is' (take pos xs @ v # drop pos xs)"
        using intsetAdd_place[OF rep p[OF v'] room fits b(2,3)] b(1) by auto
      then show ?case using set' by (simp only: yields_Inr split_conv) blast
    qed
    then show ?thesis using False s v' unfolding intsetAdd_def n len(2) by simp
  qed
qed

lemma packed_bound:
  fixes w :: nat
  assumes "w \<in> {2, 4, 8}" "length xs < 2 ^ 29"
  shows "length xs * w < 2 ^ 32" "(length xs - 1) * w < 2 ^ 32"
proof -
  show n32: "length xs * w < 2 ^ 32"
  proof (rule le_less_trans [OF mult_le_mono2 [OF enc_le8 [OF assms(1)]]])
    show "length xs * 8 < 2 ^ 32" using assms(2) by simp
  qed
  then show "(length xs - 1) * w < 2 ^ 32" using mult_le_mono1[of "length xs - 1" "length xs" w] by linarith
qed

text \<open>Closing the gap of a removed element.\<close>

lemma intsetRemove_move:
  assumes rep: "intset_rep is xs" and pos: "pos < length xs" and len: "length xs < 2 ^ 29"
  shows "\<exists>b. (if pos < u32sub (length xs) 1 then intsetMoveTail is (pos + 1) pos else Inr is) = Inr (is\<lparr>is_contents := b\<rparr>)
    \<and> length b = length xs * is_encoding is
    \<and> take ((length xs - 1) * is_encoding is) b = packed (is_encoding is) (take pos xs @ drop (Suc pos) xs)"
proof -
  define w where "w = is_encoding is"
  define ys where "ys = take pos xs @ drop (Suc pos) xs"
  have w: "w \<in> {2, 4, 8}" "intset_width w = w" and n: "is_length is = length xs" and c: "is_contents is = packed w xs"
    using rep intset_width_enc[of w] by (auto simp: intset_rep_def w_def)
  have l31: "length xs < 2 ^ 31" "length xs < 2 ^ 32" using len by simp_all
  note n32 = packed_bound(1)[OF w(1) len]
  have "\<exists>b. (if pos < u32sub (length xs) 1 then intsetMoveTail is (pos + 1) pos else Inr is) = Inr (is\<lparr>is_contents := b\<rparr>)
      \<and> length b = length xs * w \<and> take ((length xs - 1) * w) b = packed w ys"
  proof (cases "pos < length xs - 1")
    case False
    then have "pos = length xs - 1" using pos by simp
    then show ?thesis
      using l31 pos c by (intro exI[of _ "packed w xs"]) (simp add: ys_def take_packed)
  next
    case mv: True
    define k where "k = length xs - (pos + 1)"
    have ks: "length xs - Suc pos = k" by (simp add: k_def)
    have k: "pos * w + k * w = (length xs - 1) * w" "(pos + 1) * w + k * w = length xs * w" "k * w < 2 ^ 32"
    proof -
      have k0: "pos + k = length xs - 1" "pos + 1 + k = length xs" using mv by (auto simp: k_def)
      show "pos * w + k * w = (length xs - 1) * w" "(pos + 1) * w + k * w = length xs * w"
        using k0 by (metis add_mult_distrib)+
      then show "k * w < 2 ^ 32" using n32 by linarith
    qed
    have "intsetMoveTail is (pos + 1) pos =
        Inr (is\<lparr>is_contents := take (pos * w) (packed w xs) @ packed w (drop (Suc pos) xs) @ drop ((length xs - 1) * w) (packed w xs)\<rparr>)"
      using mv l31 k w drop_packed[of "Suc pos" w xs] c n
      by (simp add: intsetMoveTail_def Let_def w_def[symmetric] ks)
    moreover have "(length xs - 1) * w \<le> length xs * w" by simp
    ultimately show ?thesis
      using mv l31 k ks pos
      by (intro exI[of _ "packed w ys @ drop ((length xs - 1) * w) (packed w xs)"])
        (simp add: take_packed ys_def min_def)
  qed
  then show ?thesis by (simp only: w_def ys_def)
qed

lemma intsetRemove_rep:
  assumes m: "malloc_ok m" and rep: "intset_rep is xs" and len: "length xs < 2 ^ 29" and v: "int64 v"
  shows "yields m (intsetRemove m is v) (\<lambda>(is', ok). ok = (v \<in> set xs) \<and>
    (\<exists>ys. intset_rep is' ys \<and> set ys = set xs - {v}))"
proof -
  define w where "w = is_encoding is"
  have w: "w \<in> {2, 4, 8}" "intset_width w = w" and n: "is_length is = length xs" and c: "is_contents is = packed w xs"
    and fits: "\<forall>x \<in> set xs. sle_fits w x" and s: "sorted_wrt (<) xs"
    using rep intset_width_enc[of w] by (auto simp: intset_rep_def w_def)
  have l31: "length xs < 2 ^ 31" "length xs < 2 ^ 32" using len by simp_all
  obtain pos where se: "intsetSearch is v = Inr (v \<in> set xs, pos)"
    and p: "v \<in> set xs \<Longrightarrow> pos < length xs \<and> xs ! pos = v"
    using intsetSearch_correct[OF rep l31(1), of v] by (auto split: if_splits)
  show ?thesis
  proof (cases "v \<in> set xs")
    case False
    then show ?thesis using se rep by (auto simp: intsetRemove_def intro!: exI[of _ xs])
  next
    case True
    then have enc: "intsetValueEncoding v \<le> is_encoding is"
      using fits v sle_fits_encoding[of v w] w by (auto simp: int64_def w_def)
    have pos: "pos < length xs" "xs ! pos = v" using p[OF True] by auto
    define ys where "ys = take pos xs @ drop (Suc pos) xs"
    have ly: "length ys = length xs - 1" using pos by (simp add: ys_def)
    note n1 = packed_bound[OF w(1) len]
    from intsetRemove_move[OF rep pos(1) len]
    obtain b where b: "(if pos < u32sub (length xs) 1 then intsetMoveTail is (pos + 1) pos else Inr is) = Inr (is\<lparr>is_contents := b\<rparr>)"
      "length b = length xs * w" "take ((length xs - 1) * w) b = packed w ys"
      unfolding w_def ys_def by blast
    have u1: "u32sub (length xs) 1 = length xs - 1" using pos(1) l31 by (intro u32sub_id) auto
    have sy: "set ys = set xs - {v}" "sorted_wrt (<) ys"
    proof -
      have xs: "xs = take pos xs @ v # drop (Suc pos) xs" using pos id_take_nth_drop by metis
      have "sorted_wrt (<) (take pos xs @ v # drop (Suc pos) xs)" using s xs by simp
      then show "sorted_wrt (<) ys" "set ys = set xs - {v}"
        using arg_cong[OF xs, of set] by (auto simp: ys_def sorted_wrt_append)
    qed
    have "yields m (bindE (intsetResize m (is\<lparr>is_contents := b\<rparr>) (length xs - 1)) (\<lambda>is2.
        Inr (is2\<lparr>is_length := length xs - 1\<rparr>, True)))
      (\<lambda>(is', ok). ok = (v \<in> set xs) \<and> (\<exists>ys. intset_rep is' ys \<and> set ys = set xs - {v}))"
    proof (rule yields_bindE [OF intsetResize_yields [OF m]], goal_cases)
      case (2 is2)
      then obtain d where d: "is2 = is\<lparr>is_contents := d\<rparr>" "d = packed w ys"
        using b mult_le_mono1[of "length xs - 1" "length xs" w] by (auto simp: w_def[symmetric] min_def split: if_splits)
      then have "intset_rep (is2\<lparr>is_length := length xs - 1\<rparr>) ys"
        using w ly sy fits by (auto simp: intset_rep_def w_def[symmetric])
      with True sy(1) show ?case by auto
    qed (use n1 in \<open>simp add: w_def\<close>)
    then show ?thesis
      using enc se True b(1) unfolding intsetRemove_def n Let_def u1 by simp
  qed
qed

lemma intsetFind_rep:
  assumes rep: "intset_rep is xs" and len: "length xs < 2 ^ 31" and v: "int64 v"
  shows "intsetFind is v = Inr (v \<in> set xs)"
proof (cases "intsetValueEncoding v \<le> is_encoding is")
  case True
  then show ?thesis using intsetSearch_correct[OF rep len, of v] by (auto simp: intsetFind_def)
next
  case False
  have "\<forall>x \<in> set xs. sle_fits (is_encoding is) x" "is_encoding is \<in> {2, 4, 8}" using rep by (auto simp: intset_rep_def)
  then have "v \<notin> set xs" using False v sle_fits_encoding[of v "is_encoding is"] by (auto simp: int64_def)
  with False show ?thesis by (simp add: intsetFind_def)
qed

definition intset_set :: "intset \<Rightarrow> int set" where
  "intset_set is = set (intset_elems is)"

definition intset_has_room :: "intset \<Rightarrow> nat \<Rightarrow> bool" where
  "intset_has_room is k \<longleftrightarrow> intsetLen is + k < 2 ^ 29"

lemma intset_rep_len: "intset_rep is xs \<Longrightarrow> intsetLen is = card (set xs)"
  by (simp add: intset_rep_def intsetLen_def distinct_card strict_sorted_iff)

lemma intset_invD: "intset_inv is \<Longrightarrow> intset_rep is (intset_elems is)"
  by (simp add: intset_inv_def)

lemma intset_len_elems: "intset_inv is \<Longrightarrow> length (intset_elems is) = intsetLen is"
  by (simp add: intset_inv_def intset_rep_def intsetLen_def)

lemma intsetAdd_yields:
  assumes "malloc_ok m" "intset_inv is" "int64 v" "intset_has_room is (Suc k)"
  shows "yields m (intsetAdd m is v) (\<lambda>(is', b). intset_inv is' \<and> intset_set is' = insert v (intset_set is) \<and>
    b = (v \<notin> intset_set is) \<and> intset_has_room is' k)"
proof -
  note rep = intset_invD[OF assms(2)]
  have room: "intset_room (intset_elems is)"
    using assms(4) intset_len_elems[OF assms(2)] by (simp add: intset_room_def intset_has_room_def)
  show ?thesis
  proof (rule yields_mono [OF intsetAdd_rep [OF assms(1) rep room assms(3)]], goal_cases)
    case (1 r)
    obtain is' ok ys where r: "r = (is', ok)" "ok = (v \<notin> intset_set is)" "intset_rep is' ys"
      "set ys = insert v (intset_set is)"
      using 1 by (cases r) (auto simp: intset_set_def)
    have "card (insert v (intset_set is)) \<le> Suc (card (intset_set is))" by (simp add: card_insert_le_m1 intset_set_def card_insert_if)
    then have "intsetLen is' \<le> Suc (intsetLen is)"
      using intset_rep_len[OF r(3)] intset_rep_len[OF rep] r(4) by (simp add: intset_set_def)
    then show ?case
      using r intset_rep_inv[OF r(3)] assms(4) by (simp add: intset_has_room_def intset_set_def)
  qed
qed

lemma intsetRemove_yields:
  assumes "malloc_ok m" "intset_inv is" "int64 v" "intset_has_room is k"
  shows "yields m (intsetRemove m is v) (\<lambda>(is', b). intset_inv is' \<and> intset_set is' = intset_set is - {v} \<and>
    b = (v \<in> intset_set is) \<and> intset_has_room is' k)"
proof -
  note rep = intset_invD[OF assms(2)]
  have len: "length (intset_elems is) < 2 ^ 29"
    using assms(4) intset_len_elems[OF assms(2)] by (simp add: intset_has_room_def)
  show ?thesis
  proof (rule yields_mono [OF intsetRemove_rep [OF assms(1) rep len assms(3)]], goal_cases)
    case (1 r)
    obtain is' ok ys where r: "r = (is', ok)" "ok = (v \<in> intset_set is)" "intset_rep is' ys"
      "set ys = intset_set is - {v}"
      using 1 by (cases r) (auto simp: intset_set_def)
    have "card (intset_set is - {v}) \<le> card (intset_set is)" by (intro card_mono) (auto simp: intset_set_def)
    then have "intsetLen is' \<le> intsetLen is"
      using intset_rep_len[OF r(3)] intset_rep_len[OF rep] r(4) by (simp add: intset_set_def)
    then show ?case
      using r intset_rep_inv[OF r(3)] assms(4) by (simp add: intset_has_room_def intset_set_def)
  qed
qed

interpretation intset: finite_set_impl intset_inv intset_set int64 intset_has_room intsetAdd intsetRemove intsetFind
proof (unfold_locales, goal_cases)
  case (4 s x k)
  then show ?case
    using intsetFind_rep[OF intset_invD[OF 4(1)] _ 4(2)] intset_len_elems[OF 4(1)]
    by (simp add: intset_set_def intset_has_room_def)
qed (simp_all add: intset_set_def [symmetric] intsetAdd_yields intsetRemove_yields, simp add: intset_set_def)

lemma intsetNew_yields: "malloc_ok m \<Longrightarrow> yields m (intsetNew m) (\<lambda>is. intset_inv is \<and> intset_set is = {} \<and> intsetLen is = 0)"
  by (auto simp: intsetNew_def intset_inv_def intset_rep_def intset_elems_def intset_set_def intsetLen_def
      intro!: yields_bindE [OF yields_s_malloc])

section \<open>Main properties\<close>

text \<open>
  C8. Refinement of the integer set: starting from any well-formed intset, \<open>intsetAdd\<close> inserts,
  \<open>intsetRemove\<close> deletes and \<open>intsetFind\<close> tests membership of any \<open>int64_t\<close>, whatever the encoding
  and whether or not it has to be upgraded; the bytes stay sorted and packed at one width.
\<close>

theorem intset_refines_set:
  assumes "malloc_ok m" "intset_inv is" "int64 v" "intset_has_room is 1"
  shows "yields m (intsetAdd m is v) (\<lambda>(is', b). intset_inv is' \<and> intset_set is' = insert v (intset_set is) \<and> b = (v \<notin> intset_set is))
    \<and> yields m (intsetRemove m is v) (\<lambda>(is', b). intset_inv is' \<and> intset_set is' = intset_set is - {v} \<and> b = (v \<in> intset_set is))
    \<and> intsetFind is v = Inr (v \<in> intset_set is)"
  using intset.add_yields[OF assms(1-3), of 0] intset.remove_yields[OF assms(1-4)] intset.find_eq[OF assms(2-4)] assms(4)
  by (auto elim!: yields_mono)

theorem intset_refines_set_witness:
  "yields calloc_alloc (intsetAdd calloc_alloc \<lparr>is_encoding = 2, is_length = 2, is_contents = [255, 255, 5, 0]\<rparr> 70000)
     (\<lambda>(is', b). intset_inv is' \<and> intset_set is' = {- 1, 5, 70000} \<and> b)"
proof -
  let ?is = "\<lparr>is_encoding = 2, is_length = 2, is_contents = [255, 255, 5, 0]\<rparr>"
  have e: "intset_elems ?is = [- 1, 5]" by (simp add: intset_elems_def sle_val_def Let_def upt_rec)
  moreover have "sle_bytes 2 (- 1) = [255, 255]" "sle_bytes 2 5 = [5, 0]"
    by (simp_all add: sle_bytes_def le_bytes_numeral)
  ultimately have "intset_inv ?is"
    by (simp add: intset_inv_def intset_rep_def sle_fits_def)
  with e show ?thesis
    using intset_refines_set[of calloc_alloc ?is 70000]
    by (auto simp: int64_def intset_has_room_def intsetLen_def intset_set_def insert_commute elim!: yields_mono)
qed

text \<open>
  Building an intset from a list: adding any sequence of \<open>int64_t\<close> values to a new intset gives
  exactly the set of those values, and the number of successful insertions is its size. Every order,
  repetition and change of encoding is covered.
\<close>

lemma intset_of_list:
  assumes "malloc_ok m" "\<forall>x \<in> set xs. int64 x" "length xs < 2 ^ 29"
  shows "yields m (bindE (intsetNew m) (\<lambda>is. add_all (intsetAdd m) is xs))
    (\<lambda>(is', n). intset_inv is' \<and> intset_set is' = set xs \<and> n = card (set xs) \<and> intsetLen is' = card (set xs))"
proof (rule yields_bindE [OF intsetNew_yields [OF assms(1)]])
  fix is0 assume n: "intset_inv is0 \<and> intset_set is0 = {} \<and> intsetLen is0 = 0"
  then have "intset_has_room is0 (length xs + 0)" using assms(3) by (simp add: intset_has_room_def)
  moreover have "intsetLen s = card (intset_set s)" if "intset_inv s" for s
    using intset_rep_len[OF intset_invD[OF that]] by (simp add: intset_set_def)
  ultimately show "yields m (add_all (intsetAdd m) is0 xs)
      (\<lambda>(is', n). intset_inv is' \<and> intset_set is' = set xs \<and> n = card (set xs) \<and> intsetLen is' = card (set xs))"
    using intset.add_all_yields[OF assms(1) _ assms(2), of is0 0] n by (auto elim!: yields_mono)
qed

lemma intset_of_list_witness:
  "yields calloc_alloc (bindE (intsetNew calloc_alloc) (\<lambda>is. add_all (intsetAdd calloc_alloc) is [5, - 40000, 5, 2 ^ 40]))
    (\<lambda>(is', n). intset_inv is' \<and> intset_set is' = set [5, - 40000, 5, 2 ^ 40]
       \<and> n = card (set [5, - 40000, 5, 2 ^ 40 :: int]) \<and> intsetLen is' = card (set [5, - 40000, 5, 2 ^ 40 :: int]))"
  by (rule intset_of_list) (simp_all add: int64_def)

end
