(* ===== verification/Dict.thy ===== *)
theory Dict
  imports Prelude "HOL-Library.Multiset"
begin

text \<open>
  \<open>src/redis/src/dict.c\<close>: chained hash tables with incremental rehashing. A bucket is the list of its
  chain from the head, a table the list of its buckets or \<open>None\<close> for the NULL pointer, and a pointer
  to an entry its table, bucket and position in the chain. The functions of \<open>dictType\<close> are pointers
  the user of the dictionary supplies; \<open>zmalloc\<close> and \<open>zcalloc\<close> stop the server when they fail, so
  allocation is not a branch. The global \<open>dict_can_resize\<close> is an argument.
\<close>

section \<open>Data\<close>

record ('k, 'v) dictht =
  ht_table :: "('k \<times> 'v) list list option"
  ht_size :: nat
  ht_sizemask :: nat
  ht_used :: nat

record ('k, 'v) dict =
  d_ht0 :: "('k, 'v) dictht"
  d_ht1 :: "('k, 'v) dictht"
  d_rehashidx :: int
  d_iterators :: nat

record 'k dictType =
  hashFunction :: "'k \<Rightarrow> nat"
  keyCompare :: "'k \<Rightarrow> 'k \<Rightarrow> bool"

type_synonym dref = "nat \<times> nat \<times> nat"

abbreviation (input) "DICT_HT_INITIAL_SIZE \<equiv> 4 :: nat"
abbreviation (input) "dict_force_resize_ratio \<equiv> 5 :: nat"

definition dictIsRehashing :: "('k, 'v) dict \<Rightarrow> bool" where
  "dictIsRehashing d \<longleftrightarrow> d_rehashidx d \<noteq> - 1"

definition dictSize :: "('k, 'v) dict \<Rightarrow> nat" where
  "dictSize d = ht_used (d_ht0 d) + ht_used (d_ht1 d)"

definition dict_get_ht :: "('k, 'v) dict \<Rightarrow> nat \<Rightarrow> ('k, 'v) dictht" where
  "dict_get_ht d t = (if t = 0 then d_ht0 d else d_ht1 d)"

definition dict_set_ht :: "('k, 'v) dict \<Rightarrow> nat \<Rightarrow> ('k, 'v) dictht \<Rightarrow> ('k, 'v) dict" where
  "dict_set_ht d t ht = (if t = 0 then d\<lparr>d_ht0 := ht\<rparr> else d\<lparr>d_ht1 := ht\<rparr>)"

text \<open>Reading and writing \<open>ht->table[idx]\<close>.\<close>

definition ht_bucket :: "('k, 'v) dictht \<Rightarrow> nat \<Rightarrow> ('k \<times> 'v) list res" where
  "ht_bucket ht i = (case ht_table ht of
     None \<Rightarrow> Inl NullDeref
   | Some bs \<Rightarrow> if i < length bs then Inr (bs ! i) else Inl OutOfBounds)"

definition ht_set_bucket :: "('k, 'v) dictht \<Rightarrow> nat \<Rightarrow> ('k \<times> 'v) list \<Rightarrow> ('k, 'v) dictht res" where
  "ht_set_bucket ht i b = (case ht_table ht of
     None \<Rightarrow> Inl NullDeref
   | Some bs \<Rightarrow> if i < length bs then Inr (ht\<lparr>ht_table := Some (bs[i := b])\<rparr>) else Inl OutOfBounds)"

section \<open>Creation and resizing\<close>

definition dictReset :: "('k, 'v) dictht" where
  "dictReset = \<lparr>ht_table = None, ht_size = 0, ht_sizemask = 0, ht_used = 0\<rparr>"

definition dictInit :: "('k, 'v) dict" where
  "dictInit = \<lparr>d_ht0 = dictReset, d_ht1 = dictReset, d_rehashidx = - 1, d_iterators = 0\<rparr>"

definition dictCreate :: "('k, 'v) dict" where
  "dictCreate = dictInit"

function nextPower_loop :: "nat \<Rightarrow> nat \<Rightarrow> nat" where
  "nextPower_loop i n = (if i = 0 \<or> i \<ge> n then i else nextPower_loop (i * 2) n)"
  by pat_completeness auto
termination by (relation "measure (\<lambda>(i, n). n - i)") auto

declare nextPower_loop.simps [simp del]

definition dictNextPower :: "nat \<Rightarrow> nat" where
  "dictNextPower n = (if n \<ge> 2 ^ 63 - 1 then 2 ^ 63 else nextPower_loop DICT_HT_INITIAL_SIZE n)"

text \<open>
  The second component is \<open>DICT_OK\<close>. \<open>zcalloc\<close>, which ends the program when it finds no memory, is taken to
  succeed; the size in bytes, \<open>realsize*sizeof(dictEntry*)\<close>, would wrap from \<open>2 ^ 61\<close> buckets on, more than
  any memory holds, and is not modelled.
\<close>

definition dictExpand :: "('k, 'v) dict \<Rightarrow> nat \<Rightarrow> ('k, 'v) dict \<times> bool" where
  "dictExpand d n =
     (let realsize = dictNextPower n in
      if dictIsRehashing d \<or> ht_used (d_ht0 d) > n then (d, False)
      else if realsize = ht_size (d_ht0 d) then (d, False)
      else
        let nt = \<lparr>ht_table = Some (replicate realsize []), ht_size = realsize, ht_sizemask = realsize - 1, ht_used = 0\<rparr> in
        if ht_table (d_ht0 d) = None then (d\<lparr>d_ht0 := nt\<rparr>, True)
        else (d\<lparr>d_ht1 := nt, d_rehashidx := 0\<rparr>, True))"

definition dictResize :: "bool \<Rightarrow> ('k, 'v) dict \<Rightarrow> ('k, 'v) dict \<times> bool" where
  "dictResize can_resize d =
     (if \<not> can_resize \<or> dictIsRehashing d then (d, False)
      else
        let used = s32 (int (ht_used (d_ht0 d)));
            minimal = (if used < int DICT_HT_INITIAL_SIZE then int DICT_HT_INITIAL_SIZE else used) in
        dictExpand d (to_size minimal))"

definition dictExpandIfNeeded :: "bool \<Rightarrow> ('k, 'v) dict \<Rightarrow> ('k, 'v) dict \<times> bool" where
  "dictExpandIfNeeded can_resize d =
     (if dictIsRehashing d then (d, True)
      else if ht_size (d_ht0 d) = 0 then dictExpand d DICT_HT_INITIAL_SIZE
      else if ht_used (d_ht0 d) \<ge> ht_size (d_ht0 d) \<and>
         (can_resize \<or> ht_used (d_ht0 d) div ht_size (d_ht0 d) > dict_force_resize_ratio)
      then dictExpand d (u64 (ht_used (d_ht0 d) * 2))
      else (d, True))"

section \<open>Rehashing\<close>

text \<open>The inner loop: the entries of a chain go to the heads of their new chains.\<close>

fun rehash_chain :: "'k dictType \<Rightarrow> ('k \<times> 'v) list \<Rightarrow> ('k, 'v) dict \<Rightarrow> ('k, 'v) dict res" where
  "rehash_chain ty [] d = Inr d"
| "rehash_chain ty (e # es) d =
     (let h = hashFunction ty (fst e) AND ht_sizemask (d_ht1 d) in
      bindE (ht_bucket (d_ht1 d) h) (\<lambda>b.
      bindE (ht_set_bucket (d_ht1 d) h (e # b)) (\<lambda>ht1.
        rehash_chain ty es
          (d\<lparr>d_ht0 := (d_ht0 d)\<lparr>ht_used := ht_used (d_ht0 d) - 1\<rparr>, d_ht1 := ht1\<lparr>ht_used := ht_used ht1 + 1\<rparr>\<rparr>))))"

text \<open>
  The loop over empty buckets. \<open>None\<close> is the early return when the visits are used up; otherwise
  the index of the first bucket that is not empty, with its chain.
\<close>

function rehash_skip :: "('k, 'v) dict \<Rightarrow> int \<Rightarrow> (('k, 'v) dict \<times> (int \<times> ('k \<times> 'v) list) option) res" where
  "rehash_skip d empty_visits =
     (if d_rehashidx d < 0 then Inl OutOfBounds else
      bindE (ht_bucket (d_ht0 d) (nat (d_rehashidx d))) (\<lambda>b.
        if b = [] then
          let d' = d\<lparr>d_rehashidx := d_rehashidx d + 1\<rparr> in
          if empty_visits - 1 = 0 then Inr (d', None) else rehash_skip d' (empty_visits - 1)
        else Inr (d, Some (empty_visits, b))))"
  by pat_completeness auto
termination
  by (relation "measure (\<lambda>(d, ev). case ht_table (d_ht0 d) of None \<Rightarrow> 0 | Some bs \<Rightarrow> nat (int (length bs) - d_rehashidx d))")
    (auto simp: ht_bucket_def split: option.splits if_splits)

declare rehash_skip.simps [simp del]

text \<open>The outer loop; the flag says that it returned early.\<close>

fun rehash_loop :: "'k dictType \<Rightarrow> nat \<Rightarrow> int \<Rightarrow> ('k, 'v) dict \<Rightarrow> (('k, 'v) dict \<times> bool) res" where
  "rehash_loop ty 0 ev d = Inr (d, False)"
| "rehash_loop ty (Suc n) ev d =
     (if ht_used (d_ht0 d) = 0 then Inr (d, False)
      else if \<not> int (ht_size (d_ht0 d)) > d_rehashidx d then Inl AssertFail
      else
        bindE (rehash_skip d ev) (\<lambda>(d1, r).
          case r of
            None \<Rightarrow> Inr (d1, True)
          | Some (ev', chain) \<Rightarrow>
              bindE (rehash_chain ty chain d1) (\<lambda>d2.
              bindE (ht_set_bucket (d_ht0 d2) (nat (d_rehashidx d2)) []) (\<lambda>ht0.
                rehash_loop ty n ev' (d2\<lparr>d_ht0 := ht0, d_rehashidx := d_rehashidx d2 + 1\<rparr>)))))"

text \<open>
  \<open>n\<close> is an \<open>int\<close> that no caller makes negative; the product \<open>n*10\<close> is formed first and must not overflow.
\<close>

definition dictRehash :: "'k dictType \<Rightarrow> ('k, 'v) dict \<Rightarrow> nat \<Rightarrow> (('k, 'v) dict \<times> bool) res" where
  "dictRehash ty d n =
     (if int n * 10 \<ge> 2 ^ 31 then Inl UndefBehaviour
      else if \<not> dictIsRehashing d then Inr (d, False)
      else
        bindE (rehash_loop ty n (int n * 10) d) (\<lambda>(d', early).
          if early then Inr (d', True)
          else if ht_used (d_ht0 d') = 0
          then Inr (d'\<lparr>d_ht0 := d_ht1 d', d_ht1 := dictReset, d_rehashidx := - 1\<rparr>, False)
          else Inr (d', True)))"

definition dictRehashStep :: "'k dictType \<Rightarrow> ('k, 'v) dict \<Rightarrow> ('k, 'v) dict res" where
  "dictRehashStep ty d =
     (if d_iterators d = 0 then bindE (dictRehash ty d 1) (\<lambda>(d', _). Inr d') else Inr d)"

text \<open>The readings of the clock after each call are the list; the loop ends when they are used up.\<close>

fun dictRehashMilliseconds ::
    "'k dictType \<Rightarrow> ('k, 'v) dict \<Rightarrow> int \<Rightarrow> int \<Rightarrow> int list \<Rightarrow> nat \<Rightarrow> (('k, 'v) dict \<times> nat) res" where
  "dictRehashMilliseconds ty d start ms [] rehashes = Inr (d, rehashes)"
| "dictRehashMilliseconds ty d start ms (now # clock) rehashes =
     bindE (dictRehash ty d 100) (\<lambda>(d', more).
       if \<not> more then Inr (d', rehashes)
       else if now - start > ms then Inr (d', rehashes + 100)
       else dictRehashMilliseconds ty d' start ms clock (rehashes + 100))"

section \<open>Lookup, insertion, deletion\<close>

text \<open>Position of the key in a chain.\<close>

fun chain_find :: "'k dictType \<Rightarrow> 'k \<Rightarrow> ('k \<times> 'v) list \<Rightarrow> nat option" where
  "chain_find ty key [] = None"
| "chain_find ty key (e # es) =
     (if keyCompare ty key (fst e) then Some 0 else map_option Suc (chain_find ty key es))"

text \<open>The loop over the two tables, shared by the lookups.\<close>

definition table_find :: "'k dictType \<Rightarrow> ('k, 'v) dict \<Rightarrow> nat \<Rightarrow> 'k \<Rightarrow> (nat \<times> nat option) res" where
  "table_find ty d t key =
     (let ht = dict_get_ht d t; idx = hashFunction ty key AND ht_sizemask ht in
      bindE (ht_bucket ht idx) (\<lambda>b. Inr (idx, chain_find ty key b)))"

definition tables_find :: "'k dictType \<Rightarrow> ('k, 'v) dict \<Rightarrow> 'k \<Rightarrow> (nat \<times> dref option) res" where
  "tables_find ty d key =
     bindE (table_find ty d 0 key) (\<lambda>(i0, r0).
       case r0 of
         Some p \<Rightarrow> Inr (i0, Some (0, i0, p))
       | None \<Rightarrow>
           if \<not> dictIsRehashing d then Inr (i0, None)
           else bindE (table_find ty d 1 key) (\<lambda>(i1, r1).
             Inr (i1, map_option (\<lambda>p. (1, i1, p)) r1)))"

text \<open>
  \<open>_dictKeyIndex\<close>: \<open>Inl\<close> the existing entry (or none, when the table could not be expanded),
  \<open>Inr\<close> the index for the new entry.
\<close>

definition dictKeyIndex ::
    "bool \<Rightarrow> 'k dictType \<Rightarrow> ('k, 'v) dict \<Rightarrow> 'k \<Rightarrow> (('k, 'v) dict \<times> (dref option + nat)) res" where
  "dictKeyIndex can_resize ty d key =
     (case dictExpandIfNeeded can_resize d of
        (d', False) \<Rightarrow> Inr (d', Inl None)
      | (d', True) \<Rightarrow>
          bindE (tables_find ty d' key) (\<lambda>(idx, r).
            case r of Some ref \<Rightarrow> Inr (d', Inl (Some ref)) | None \<Rightarrow> Inr (d', Inr idx)))"

text \<open>The value of a new entry is not initialised: \<open>junk\<close> is what its memory holds.\<close>

definition dictAddRaw ::
    "bool \<Rightarrow> 'k dictType \<Rightarrow> ('k, 'v) dict \<Rightarrow> 'k \<Rightarrow> 'v \<Rightarrow> (('k, 'v) dict \<times> (dref option + dref)) res" where
  "dictAddRaw can_resize ty d key junk =
     bindE (if dictIsRehashing d then dictRehashStep ty d else Inr d) (\<lambda>d1.
     bindE (dictKeyIndex can_resize ty d1 key) (\<lambda>(d2, r).
       case r of
         Inl existing \<Rightarrow> Inr (d2, Inl existing)
       | Inr idx \<Rightarrow>
           let t = (if dictIsRehashing d2 then 1 else 0); ht = dict_get_ht d2 t in
           bindE (ht_bucket ht idx) (\<lambda>b.
           bindE (ht_set_bucket ht idx ((key, junk) # b)) (\<lambda>ht'.
             Inr (dict_set_ht d2 t (ht'\<lparr>ht_used := ht_used ht' + 1\<rparr>), Inr (t, idx, 0))))))"

definition dictSetVal :: "('k, 'v) dict \<Rightarrow> dref \<Rightarrow> 'v \<Rightarrow> ('k, 'v) dict res" where
  "dictSetVal d ref val = (case ref of (t, i, p) \<Rightarrow>
     let ht = dict_get_ht d t in
     bindE (ht_bucket ht i) (\<lambda>b.
       if p < length b
       then bindE (ht_set_bucket ht i (b[p := (fst (b ! p), val)])) (\<lambda>ht'. Inr (dict_set_ht d t ht'))
       else Inl OutOfBounds))"

definition dictGetVal :: "('k, 'v) dict \<Rightarrow> dref \<Rightarrow> 'v res" where
  "dictGetVal d ref = (case ref of (t, i, p) \<Rightarrow>
     bindE (ht_bucket (dict_get_ht d t) i) (\<lambda>b.
       if p < length b then Inr (snd (b ! p)) else Inl OutOfBounds))"

definition dictAdd ::
    "bool \<Rightarrow> 'k dictType \<Rightarrow> 'v \<Rightarrow> ('k, 'v) dict \<Rightarrow> 'k \<Rightarrow> 'v \<Rightarrow> (('k, 'v) dict \<times> bool) res" where
  "dictAdd can_resize ty junk d key val =
     bindE (dictAddRaw can_resize ty d key junk) (\<lambda>(d1, r).
       case r of
         Inl _ \<Rightarrow> Inr (d1, False)
       | Inr ref \<Rightarrow> bindE (dictSetVal d1 ref val) (\<lambda>d2. Inr (d2, True)))"

text \<open>Without an existing entry (the expansion was refused) the null pointer is dereferenced.\<close>

definition dictReplace ::
    "bool \<Rightarrow> 'k dictType \<Rightarrow> 'v \<Rightarrow> ('k, 'v) dict \<Rightarrow> 'k \<Rightarrow> 'v \<Rightarrow> (('k, 'v) dict \<times> bool) res" where
  "dictReplace can_resize ty junk d key val =
     bindE (dictAddRaw can_resize ty d key junk) (\<lambda>(d1, r).
       case r of
         Inr ref \<Rightarrow> bindE (dictSetVal d1 ref val) (\<lambda>d2. Inr (d2, True))
       | Inl None \<Rightarrow> Inl NullDeref
       | Inl (Some ref) \<Rightarrow> bindE (dictSetVal d1 ref val) (\<lambda>d2. Inr (d2, False)))"

definition dictAddOrFind ::
    "bool \<Rightarrow> 'k dictType \<Rightarrow> 'v \<Rightarrow> ('k, 'v) dict \<Rightarrow> 'k \<Rightarrow> (('k, 'v) dict \<times> dref option) res" where
  "dictAddOrFind can_resize ty junk d key =
     bindE (dictAddRaw can_resize ty d key junk) (\<lambda>(d1, r).
       Inr (d1, case r of Inr ref \<Rightarrow> Some ref | Inl existing \<Rightarrow> existing))"

definition dictFind :: "'k dictType \<Rightarrow> ('k, 'v) dict \<Rightarrow> 'k \<Rightarrow> (('k, 'v) dict \<times> dref option) res" where
  "dictFind ty d key =
     (if dictSize d = 0 then Inr (d, None)
      else
        bindE (if dictIsRehashing d then dictRehashStep ty d else Inr d) (\<lambda>d1.
        bindE (tables_find ty d1 key) (\<lambda>(_, r). Inr (d1, r))))"

definition dictFetchValue :: "'k dictType \<Rightarrow> ('k, 'v) dict \<Rightarrow> 'k \<Rightarrow> (('k, 'v) dict \<times> 'v option) res" where
  "dictFetchValue ty d key =
     bindE (dictFind ty d key) (\<lambda>(d1, r).
       case r of None \<Rightarrow> Inr (d1, None) | Some ref \<Rightarrow> bindE (dictGetVal d1 ref) (\<lambda>v. Inr (d1, Some v)))"

text \<open>The entry is unlinked from its chain and returned.\<close>

definition dictGenericDelete ::
    "'k dictType \<Rightarrow> ('k, 'v) dict \<Rightarrow> 'k \<Rightarrow> (('k, 'v) dict \<times> ('k \<times> 'v) option) res" where
  "dictGenericDelete ty d key =
     (if ht_used (d_ht0 d) = 0 \<and> ht_used (d_ht1 d) = 0 then Inr (d, None)
      else
        bindE (if dictIsRehashing d then dictRehashStep ty d else Inr d) (\<lambda>d1.
        bindE (tables_find ty d1 key) (\<lambda>(_, r).
          case r of
            None \<Rightarrow> Inr (d1, None)
          | Some (t, i, p) \<Rightarrow>
              let ht = dict_get_ht d1 t in
              bindE (ht_bucket ht i) (\<lambda>b.
              bindE (ht_set_bucket ht i (take p b @ drop (p + 1) b)) (\<lambda>ht'.
                Inr (dict_set_ht d1 t (ht'\<lparr>ht_used := ht_used ht' - 1\<rparr>), Some (b ! p)))))))"

definition dictDelete :: "'k dictType \<Rightarrow> ('k, 'v) dict \<Rightarrow> 'k \<Rightarrow> (('k, 'v) dict \<times> bool) res" where
  "dictDelete ty d key = bindE (dictGenericDelete ty d key) (\<lambda>(d', r). Inr (d', r \<noteq> None))"

definition dictUnlink :: "'k dictType \<Rightarrow> ('k, 'v) dict \<Rightarrow> 'k \<Rightarrow> (('k, 'v) dict \<times> ('k \<times> 'v) option) res" where
  "dictUnlink ty d key = dictGenericDelete ty d key"

text \<open>Freeing every entry leaves the tables reset.\<close>

definition dictEmpty :: "('k, 'v) dict \<Rightarrow> ('k, 'v) dict" where
  "dictEmpty d = d\<lparr>d_ht0 := dictReset, d_ht1 := dictReset, d_rehashidx := - 1, d_iterators := 0\<rparr>"

end
