(* ===== verification/MapSpec.thy ===== *)
theory MapSpec
  imports Prelude
begin

text \<open>
  The interface of a mutable finite map: insertion of a new key, insertion or update, removal, and
  lookup, each reporting what happened. \<open>limit\<close> is the number of keys up to which an insertion is
  possible. A sequence of requests is carried out one after the other.
\<close>

datatype ('k, 'v) map_op = Add 'k 'v | Replace 'k 'v | Delete 'k | Fetch 'k

datatype 'v map_out = Done bool | Got "'v option"

fun map_spec :: "('k \<Rightarrow> 'v option) \<Rightarrow> ('k, 'v) map_op \<Rightarrow> ('k \<Rightarrow> 'v option) \<times> 'v map_out" where
  "map_spec M (Add k v) = (if M k = None then (M(k \<mapsto> v), Done True) else (M, Done False))"
| "map_spec M (Replace k v) = (M(k \<mapsto> v), Done (M k = None))"
| "map_spec M (Delete k) = (M(k := None), Done (M k \<noteq> None))"
| "map_spec M (Fetch k) = (M, Got (M k))"

fun map_spec_run :: "('k \<Rightarrow> 'v option) \<Rightarrow> ('k, 'v) map_op list \<Rightarrow> ('k \<Rightarrow> 'v option) \<times> 'v map_out list" where
  "map_spec_run M [] = (M, [])"
| "map_spec_run M (p # ps) = (let (M', r) = map_spec M p; (M'', rs) = map_spec_run M' ps in (M'', r # rs))"

fun map_step ::
    "('s \<Rightarrow> 'k \<Rightarrow> 'v \<Rightarrow> ('s \<times> bool) res) \<Rightarrow> ('s \<Rightarrow> 'k \<Rightarrow> 'v \<Rightarrow> ('s \<times> bool) res) \<Rightarrow> ('s \<Rightarrow> 'k \<Rightarrow> ('s \<times> bool) res) \<Rightarrow>
     ('s \<Rightarrow> 'k \<Rightarrow> ('s \<times> 'v option) res) \<Rightarrow> 's \<Rightarrow> ('k, 'v) map_op \<Rightarrow> ('s \<times> 'v map_out) res" where
  "map_step add replace delete fetch s (Add k v) = bindE (add s k v) (\<lambda>(s', b). Inr (s', Done b))"
| "map_step add replace delete fetch s (Replace k v) = bindE (replace s k v) (\<lambda>(s', b). Inr (s', Done b))"
| "map_step add replace delete fetch s (Delete k) = bindE (delete s k) (\<lambda>(s', b). Inr (s', Done b))"
| "map_step add replace delete fetch s (Fetch k) = bindE (fetch s k) (\<lambda>(s', v). Inr (s', Got v))"

fun run_ops :: "('s \<Rightarrow> 'p \<Rightarrow> ('s \<times> 'r) res) \<Rightarrow> 's \<Rightarrow> 'p list \<Rightarrow> ('s \<times> 'r list) res" where
  "run_ops step s [] = Inr (s, [])"
| "run_ops step s (p # ps) =
     bindE (step s p) (\<lambda>(s', r). bindE (run_ops step s' ps) (\<lambda>(s'', rs). Inr (s'', r # rs)))"

lemma map_spec_dom:
  assumes "map_spec M p = (M', r)" "finite (dom M)"
  shows "finite (dom M') \<and> card (dom M') \<le> Suc (card (dom M))"
proof -
  have "dom M' \<subseteq> insert k (dom M)" if "p = Add k v \<or> p = Replace k v \<or> p = Delete k \<or> p = Fetch k" for k v
    using that assms(1) by (auto split: if_splits)
  then obtain k where "dom M' \<subseteq> insert k (dom M)" by (cases p) blast+
  then have "finite (dom M') \<and> card (dom M') \<le> card (insert k (dom M))"
    using assms(2) by (auto intro: card_mono finite_subset)
  then show ?thesis using assms(2) by (auto simp: card_insert_if split: if_splits)
qed

locale finite_map_impl =
  fixes inv :: "'s \<Rightarrow> bool" and abs :: "'s \<Rightarrow> 'k \<Rightarrow> 'v option" and limit :: nat
    and add :: "'s \<Rightarrow> 'k \<Rightarrow> 'v \<Rightarrow> ('s \<times> bool) res" and replace :: "'s \<Rightarrow> 'k \<Rightarrow> 'v \<Rightarrow> ('s \<times> bool) res"
    and delete :: "'s \<Rightarrow> 'k \<Rightarrow> ('s \<times> bool) res" and fetch :: "'s \<Rightarrow> 'k \<Rightarrow> ('s \<times> 'v option) res"
  assumes abs_finite: "inv s \<Longrightarrow> finite (dom (abs s))"
    and add_refines: "inv s \<Longrightarrow> card (dom (abs s)) < limit \<Longrightarrow>
      \<exists>s'. add s k v = Inr (s', abs s k = None) \<and> inv s' \<and> abs s' = (if abs s k = None then (abs s)(k \<mapsto> v) else abs s)"
    and replace_refines: "inv s \<Longrightarrow> card (dom (abs s)) < limit \<Longrightarrow>
      \<exists>s'. replace s k v = Inr (s', abs s k = None) \<and> inv s' \<and> abs s' = (abs s)(k \<mapsto> v)"
    and delete_refines: "inv s \<Longrightarrow>
      \<exists>s'. delete s k = Inr (s', abs s k \<noteq> None) \<and> inv s' \<and> abs s' = (abs s)(k := None)"
    and fetch_refines: "inv s \<Longrightarrow> \<exists>s'. fetch s k = Inr (s', abs s k) \<and> inv s' \<and> abs s' = abs s"
begin

lemma step_refines:
  assumes "inv s" "card (dom (abs s)) < limit"
  shows "\<exists>s' r. map_step add replace delete fetch s p = Inr (s', r) \<and> inv s' \<and> map_spec (abs s) p = (abs s', r)"
proof (cases p)
  case (Add k v) then show ?thesis using add_refines[OF assms, of k v] by auto
next
  case (Replace k v) then show ?thesis using replace_refines[OF assms, of k v] by auto
next
  case (Delete k) then show ?thesis using delete_refines[OF assms(1), of k] by auto
next
  case (Fetch k) then show ?thesis using fetch_refines[OF assms(1), of k] by auto
qed

text \<open>Any sequence of requests is answered as the map answers it.\<close>

lemma run_refines:
  "inv s \<Longrightarrow> card (dom (abs s)) + length ps \<le> limit \<Longrightarrow>
   \<exists>s' rs. run_ops (map_step add replace delete fetch) s ps = Inr (s', rs) \<and> inv s' \<and> map_spec_run (abs s) ps = (abs s', rs)"
proof (induction ps arbitrary: s)
  case (Cons p ps)
  obtain s1 r where s1: "map_step add replace delete fetch s p = Inr (s1, r)" "inv s1" "map_spec (abs s) p = (abs s1, r)"
    using step_refines[OF Cons.prems(1), of p] Cons.prems(2) by auto
  have "card (dom (abs s1)) + length ps \<le> limit"
    using map_spec_dom[OF s1(3) abs_finite[OF Cons.prems(1)]] Cons.prems(2) by simp
  from Cons.IH[OF s1(2) this] s1 show ?case by auto
qed simp

end

end
