(* ===== verification/DictCorrect.thy ===== *)
theory DictCorrect
  imports Dict MapSpec
begin

text \<open>
  Correctness of the dictionary of \<open>dict.c\<close>: the invariant of the two tables, incremental rehashing,
  expansion, and the refinement of a finite map by insertion, replacement, deletion and lookup.
\<close>

section \<open>Invariant\<close>

definition ht_slot :: "'k dictType \<Rightarrow> ('k, 'v) dictht \<Rightarrow> 'k \<Rightarrow> nat" where
  "ht_slot ty ht k = hashFunction ty k AND ht_sizemask ht"

definition ht_entries :: "('k, 'v) dictht \<Rightarrow> ('k \<times> 'v) list" where
  "ht_entries ht = (case ht_table ht of None \<Rightarrow> [] | Some bs \<Rightarrow> concat bs)"

text \<open>A table has a power of two of buckets (at most \<open>2 ^ 63\<close>), every entry in the bucket of its hash.\<close>

definition ht_ok :: "'k dictType \<Rightarrow> ('k, 'v) dictht \<Rightarrow> bool" where
  "ht_ok ty ht \<longleftrightarrow> (\<exists>bs k. k \<le> 63 \<and> ht_table ht = Some bs \<and> ht_size ht = 2 ^ k \<and> ht_sizemask ht = 2 ^ k - 1
     \<and> length bs = 2 ^ k \<and> ht_used ht = length (concat bs)
     \<and> (\<forall>i < length bs. \<forall>e \<in> set (bs ! i). ht_slot ty ht (fst e) = i))"

definition dict_entries :: "('k, 'v) dict \<Rightarrow> ('k \<times> 'v) list" where
  "dict_entries d = ht_entries (d_ht0 d) @ ht_entries (d_ht1 d)"

text \<open>
  While rehashing, the buckets of the old table before the index are empty; otherwise the second
  table is unused. No key occurs twice.
\<close>

definition dict_inv :: "'k dictType \<Rightarrow> ('k, 'v) dict \<Rightarrow> bool" where
  "dict_inv ty d \<longleftrightarrow> distinct (map fst (dict_entries d)) \<and>
     (if dictIsRehashing d then ht_ok ty (d_ht0 d) \<and> ht_ok ty (d_ht1 d) \<and> 0 \<le> d_rehashidx d
        \<and> d_rehashidx d \<le> int (ht_size (d_ht0 d)) \<and> (\<forall>i < nat (d_rehashidx d). the (ht_table (d_ht0 d)) ! i = [])
      else d_ht1 d = dictReset \<and> (d_ht0 d = dictReset \<or> ht_ok ty (d_ht0 d)))"

definition dict_map :: "('k, 'v) dict \<Rightarrow> 'k \<Rightarrow> 'v option" where
  "dict_map d = map_of (dict_entries d)"

section \<open>One table\<close>

lemma and_mask_less: "(h :: nat) AND (2 ^ k - 1) < 2 ^ k"
proof -
  have "h AND (2 ^ k - 1) = take_bit k h" by (simp only: take_bit_eq_mask mask_eq_exp_minus_1)
  then show ?thesis by (simp only: take_bit_nat_less_exp)
qed

lemmas and_mask_less_Suc = and_mask_less [simplified]

lemma ht_okE:
  assumes "ht_ok ty ht"
  obtains bs k where "k \<le> 63" "ht_table ht = Some bs" "ht_size ht = 2 ^ k" "ht_sizemask ht = 2 ^ k - 1" "length bs = 2 ^ k"
    "ht_used ht = length (concat bs)" "\<And>i e. i < length bs \<Longrightarrow> e \<in> set (bs ! i) \<Longrightarrow> ht_slot ty ht (fst e) = i"
  using assms unfolding ht_ok_def by blast

lemma ht_slot_less: "ht_ok ty ht \<Longrightarrow> ht_slot ty ht k < ht_size ht"
  by (erule ht_okE) (simp add: ht_slot_def and_mask_less_Suc)

lemma mset_concat_update:
  "i < length bs \<Longrightarrow> mset (concat (bs[i := b])) + mset (bs ! i) = mset (concat bs) + mset b"
proof (induction bs arbitrary: i)
  case (Cons x bs)
  then show ?case by (cases i) auto
qed simp

lemma length_concat_update:
  assumes "i < length bs"
  shows "length (concat (bs[i := b])) + length (bs ! i) = length (concat bs) + length b"
  using arg_cong[OF mset_concat_update[OF assms, of b], of size] by (simp only: size_union size_mset)

lemma ht_bucket_ok:
  assumes "ht_ok ty ht" "i < ht_size ht"
  shows "\<exists>b. ht_bucket ht i = Inr b \<and> (\<forall>e \<in> set b. ht_slot ty ht (fst e) = i) \<and> set b \<subseteq> set (ht_entries ht)"
  using assms(1)
proof (rule ht_okE)
  fix bs k assume k: "k \<le> 63" and h: "ht_table ht = Some bs" "ht_size ht = 2 ^ k" "length bs = 2 ^ k"
    "\<And>i e. i < length bs \<Longrightarrow> e \<in> set (bs ! i) \<Longrightarrow> ht_slot ty ht (fst e) = i"
  have "i < length bs" using h assms(2) by simp
  then have "set (bs ! i) \<subseteq> set (concat bs)" using nth_mem[of i bs] by fastforce
  then show ?thesis using h assms(2) by (simp add: ht_bucket_def ht_entries_def)
qed

text \<open>Replacing the chain of a bucket.\<close>

lemma ht_set_bucket_ok:
  assumes ok: "ht_ok ty ht" and i: "i < ht_size ht" and b: "ht_bucket ht i = Inr b"
    and b': "\<forall>e \<in> set b'. ht_slot ty ht (fst e) = i"
  shows "\<exists>ht'. ht_set_bucket ht i b' = Inr ht' \<and> ht_used ht' = ht_used ht \<and> ht_size ht' = ht_size ht
    \<and> ht_sizemask ht' = ht_sizemask ht \<and> ht_table ht' = map_option (\<lambda>bs. bs[i := b']) (ht_table ht)
    \<and> ht_ok ty (ht'\<lparr>ht_used := ht_used ht + length b' - length b\<rparr>)
    \<and> mset (ht_entries ht') + mset b = mset (ht_entries ht) + mset b'"
  using ok
proof (rule ht_okE)
  fix bs k assume k: "k \<le> 63" and h: "ht_table ht = Some bs" "ht_size ht = 2 ^ k" "ht_sizemask ht = 2 ^ k - 1" "length bs = 2 ^ k"
    "ht_used ht = length (concat bs)" "\<And>i e. i < length bs \<Longrightarrow> e \<in> set (bs ! i) \<Longrightarrow> ht_slot ty ht (fst e) = i"
  have ib: "i < length bs" "b = bs ! i" using i b h by (auto simp: ht_bucket_def)
  define ht' where "ht' = ht\<lparr>ht_table := Some (bs[i := b'])\<rparr>"
  have "ht_set_bucket ht i b' = Inr ht'" using h(1) ib by (simp add: ht_set_bucket_def ht'_def)
  moreover have "ht_ok ty (ht'\<lparr>ht_used := ht_used ht + length b' - length b\<rparr>)"
    unfolding ht_ok_def
  proof (intro exI[of _ "bs[i := b']"] exI[of _ k] conjI allI impI ballI)
    show "ht_used (ht'\<lparr>ht_used := ht_used ht + length b' - length b\<rparr>) = length (concat (bs[i := b']))"
      using length_concat_update[OF ib(1), of b'] h(5) ib(2) by simp
    fix j e assume "j < length (bs[i := b'])" "e \<in> set (bs[i := b'] ! j)"
    then show "ht_slot ty (ht'\<lparr>ht_used := ht_used ht + length b' - length b\<rparr>) (fst e) = j"
      using h(6)[of j e] b' ib by (cases "j = i") (auto simp: ht_slot_def ht'_def)
  qed (use h k in \<open>simp_all add: ht'_def\<close>)
  moreover have "mset (ht_entries ht') + mset b = mset (ht_entries ht) + mset b'"
    using mset_concat_update[OF ib(1), of b'] h(1) ib(2) by (simp add: ht_entries_def ht'_def)
  ultimately show ?thesis using h by (auto simp: ht'_def)
qed

text \<open>Insertion at the head of a chain.\<close>

lemma ht_push:
  assumes ok: "ht_ok ty ht" and i: "i = ht_slot ty ht (fst e)"
  shows "\<exists>b ht'. ht_bucket ht i = Inr b \<and> ht_set_bucket ht i (e # b) = Inr ht' \<and> ht_sizemask ht' = ht_sizemask ht
    \<and> ht_size ht' = ht_size ht \<and> ht_used ht' = ht_used ht
    \<and> ht_ok ty (ht'\<lparr>ht_used := ht_used ht + 1\<rparr>) \<and> mset (ht_entries ht') = add_mset e (mset (ht_entries ht))"
proof -
  have lt: "i < ht_size ht" using ht_slot_less[OF ok] i by simp
  obtain b where b: "ht_bucket ht i = Inr b" "\<forall>e \<in> set b. ht_slot ty ht (fst e) = i"
    using ht_bucket_ok[OF ok lt] by blast
  have "\<forall>e' \<in> set (e # b). ht_slot ty ht (fst e') = i" using b(2) i by simp
  from ht_set_bucket_ok[OF ok lt b(1) this] b(1) show ?thesis by auto
qed

lemma ht_entries_used [simp]: "ht_entries (ht\<lparr>ht_used := n\<rparr>) = ht_entries ht"
  by (simp add: ht_entries_def)

lemma ht_ok_size_pos: "ht_ok ty ht \<Longrightarrow> 0 < ht_size ht"
  by (erule ht_okE) simp

lemma ht_ok_used: "ht_ok ty ht \<Longrightarrow> ht_used ht = length (ht_entries ht)"
  by (erule ht_okE) (simp add: ht_entries_def)

lemma ht_entries_reset [simp]: "ht_entries dictReset = []"
  by (simp add: ht_entries_def dictReset_def)

section \<open>Rehashing\<close>

lemma rehash_chain_ok:
  assumes "ht_ok ty (d_ht1 d)"
  shows "\<exists>ht1. rehash_chain ty es d =
      Inr (d\<lparr>d_ht0 := (d_ht0 d)\<lparr>ht_used := ht_used (d_ht0 d) - length es\<rparr>, d_ht1 := ht1\<rparr>) \<and> ht_ok ty ht1
    \<and> ht_size ht1 = ht_size (d_ht1 d) \<and> mset (ht_entries ht1) = mset es + mset (ht_entries (d_ht1 d))"
  using assms
proof (induction es arbitrary: d)
  case Nil
  then show ?case by (intro exI[of _ "d_ht1 d"]) simp
next
  case (Cons e es)
  let ?h = "hashFunction ty (fst e) AND ht_sizemask (d_ht1 d)"
  obtain b ht' where b: "ht_bucket (d_ht1 d) ?h = Inr b" "ht_set_bucket (d_ht1 d) ?h (e # b) = Inr ht'"
    "ht_size ht' = ht_size (d_ht1 d)" "ht_used ht' = ht_used (d_ht1 d)"
    "ht_ok ty (ht'\<lparr>ht_used := ht_used (d_ht1 d) + 1\<rparr>)" "mset (ht_entries ht') = add_mset e (mset (ht_entries (d_ht1 d)))"
    using ht_push[OF Cons.prems, of ?h e] by (auto simp: ht_slot_def)
  let ?d = "d\<lparr>d_ht0 := (d_ht0 d)\<lparr>ht_used := ht_used (d_ht0 d) - 1\<rparr>, d_ht1 := ht'\<lparr>ht_used := ht_used ht' + 1\<rparr>\<rparr>"
  have "ht_ok ty (d_ht1 ?d)" using b(4,5) by simp
  from Cons.IH[OF this] b show ?case by (auto simp: Let_def)
qed

definition buckets_empty :: "('k, 'v) dictht \<Rightarrow> nat \<Rightarrow> bool" where
  "buckets_empty ht n \<longleftrightarrow> (\<forall>i < n. the (ht_table ht) ! i = [])"

lemma ht_entries_empty:
  assumes "ht_ok ty ht" "ht_size ht \<le> n" "buckets_empty ht n"
  shows "ht_entries ht = []"
  using assms(1)
proof (rule ht_okE)
  fix bs k assume h: "ht_table ht = Some bs" "ht_size ht = 2 ^ k" "length bs = 2 ^ k"
  then have "\<forall>b \<in> set bs. b = []" using assms(2,3) by (auto simp: buckets_empty_def in_set_conv_nth)
  then show ?thesis by (simp add: ht_entries_def h(1))
qed

text \<open>
  Skipping empty buckets only advances the index; it stops at a chain, or when the visits are used
  up, and never runs past the table as long as an entry is left.
\<close>

lemma rehash_skip_ok:
  assumes "ht_ok ty (d_ht0 d)" "0 \<le> d_rehashidx d" "buckets_empty (d_ht0 d) (nat (d_rehashidx d))"
    and "ht_used (d_ht0 d) \<noteq> 0"
  shows "\<exists>i r. rehash_skip d ev = Inr (d\<lparr>d_rehashidx := i\<rparr>, r) \<and> d_rehashidx d \<le> i \<and> i \<le> int (ht_size (d_ht0 d))
    \<and> buckets_empty (d_ht0 d) (nat i)
    \<and> (case r of None \<Rightarrow> d_rehashidx d < i
        | Some (ev', b) \<Rightarrow> i < int (ht_size (d_ht0 d)) \<and> ht_bucket (d_ht0 d) (nat i) = Inr b \<and> b \<noteq> [])"
  using assms
proof (induction d ev rule: rehash_skip.induct)
  case (1 d ev)
  note p = "1.prems"
  have lt: "nat (d_rehashidx d) < ht_size (d_ht0 d)"
    using ht_entries_empty[OF p(1) _ p(3)] p(4) ht_ok_used[OF p(1)] by fastforce
  then have lt': "d_rehashidx d < int (ht_size (d_ht0 d))" by linarith
  obtain b where b: "ht_bucket (d_ht0 d) (nat (d_rehashidx d)) = Inr b"
    using ht_bucket_ok[OF p(1) lt] by blast
  show ?case
  proof (cases "b = []")
    case False
    have "rehash_skip d ev = Inr (d\<lparr>d_rehashidx := d_rehashidx d\<rparr>, Some (ev, b))"
      using b p(2) False by (subst rehash_skip.simps) simp
    then show ?thesis using False b p lt' by (intro exI[of _ "d_rehashidx d"] exI[of _ "Some (ev, b)"]) simp
  next
    case True
    define d' where "d' = d\<lparr>d_rehashidx := d_rehashidx d + 1\<rparr>"
    have emp: "buckets_empty (d_ht0 d) (nat (d_rehashidx d + 1))"
      using p(2,3) b True lt
      by (auto simp: buckets_empty_def ht_bucket_def nat_add_distrib less_Suc_eq split: option.splits if_splits)
    show ?thesis
    proof (cases "ev - 1 = 0")
      case ev: True
      then have "rehash_skip d ev = Inr (d\<lparr>d_rehashidx := d_rehashidx d + 1\<rparr>, None)"
        using b p(2) True by (subst rehash_skip.simps) (simp add: Let_def)
      then show ?thesis using emp lt' p(2) by (intro exI[of _ "d_rehashidx d + 1"] exI[of _ None]) simp
    next
      case ev: False
      have s: "rehash_skip d ev = rehash_skip d' (ev - 1)"
        using b p(2) True ev by (subst rehash_skip.simps) (simp add: Let_def d'_def)
      have "ht_ok ty (d_ht0 d')" "0 \<le> d_rehashidx d'" "buckets_empty (d_ht0 d') (nat (d_rehashidx d'))" "ht_used (d_ht0 d') \<noteq> 0"
        using p emp by (simp_all add: d'_def)
      from "1.IH"[OF _ b True d'_def ev this] p(2) obtain i r where "rehash_skip d' (ev - 1) = Inr (d'\<lparr>d_rehashidx := i\<rparr>, r)"
        "d_rehashidx d' \<le> i" "i \<le> int (ht_size (d_ht0 d'))" "buckets_empty (d_ht0 d') (nat i)"
        "case r of None \<Rightarrow> d_rehashidx d' < i
          | Some (ev', b) \<Rightarrow> i < int (ht_size (d_ht0 d')) \<and> ht_bucket (d_ht0 d') (nat i) = Inr b \<and> b \<noteq> []"
        by auto
      then show ?thesis unfolding s by (intro exI[of _ i] exI[of _ r]) (auto simp: d'_def split: option.splits)
    qed
  qed
qed

text \<open>The state while rehashing.\<close>

definition rh_inv :: "'k dictType \<Rightarrow> ('k, 'v) dict \<Rightarrow> bool" where
  "rh_inv ty d \<longleftrightarrow> ht_ok ty (d_ht0 d) \<and> ht_ok ty (d_ht1 d) \<and> 0 \<le> d_rehashidx d
     \<and> d_rehashidx d \<le> int (ht_size (d_ht0 d)) \<and> buckets_empty (d_ht0 d) (nat (d_rehashidx d))"

lemma dict_inv_rh:
  "dict_inv ty d \<longleftrightarrow> distinct (map fst (dict_entries d)) \<and>
     (if dictIsRehashing d then rh_inv ty d
      else d_ht1 d = dictReset \<and> (d_ht0 d = dictReset \<or> ht_ok ty (d_ht0 d)))"
  by (simp add: dict_inv_def rh_inv_def buckets_empty_def)

text \<open>Moving one bucket.\<close>

lemma rehash_bucket_ok:
  assumes "rh_inv ty d" "d_rehashidx d < int (ht_size (d_ht0 d))" "ht_bucket (d_ht0 d) (nat (d_rehashidx d)) = Inr chain"
  shows "\<exists>d2 ht0. rehash_chain ty chain d = Inr d2 \<and> d_rehashidx d2 = d_rehashidx d \<and> d_iterators d2 = d_iterators d \<and>
    ht_set_bucket (d_ht0 d2) (nat (d_rehashidx d2)) [] = Inr ht0 \<and>
    (let d3 = d2\<lparr>d_ht0 := ht0, d_rehashidx := d_rehashidx d2 + 1\<rparr> in
      rh_inv ty d3 \<and> ht_size (d_ht0 d3) = ht_size (d_ht0 d) \<and> mset (dict_entries d3) = mset (dict_entries d))"
proof -
  note r = assms(1)[unfolded rh_inv_def]
  let ?i = "nat (d_rehashidx d)" and ?ht = "d_ht0 d"
  have i: "?i < ht_size ?ht" using assms(2) r by auto
  obtain ht1 where c: "rehash_chain ty chain d =
      Inr (d\<lparr>d_ht0 := ?ht\<lparr>ht_used := ht_used ?ht - length chain\<rparr>, d_ht1 := ht1\<rparr>)" "ht_ok ty ht1"
    "mset (ht_entries ht1) = mset chain + mset (ht_entries (d_ht1 d))"
    using rehash_chain_ok[of ty d chain] r by blast
  obtain ht' where h: "ht_set_bucket ?ht ?i [] = Inr ht'" "ht_size ht' = ht_size ?ht" "ht_used ht' = ht_used ?ht"
    "ht_table ht' = map_option (\<lambda>bs. bs[?i := []]) (ht_table ?ht)"
    "ht_ok ty (ht'\<lparr>ht_used := ht_used ?ht - length chain\<rparr>)" "mset (ht_entries ht') + mset chain = mset (ht_entries ?ht)"
    using ht_set_bucket_ok[OF _ i assms(3), of ty "[]"] r by auto
  define ht0 where "ht0 = ht'\<lparr>ht_used := ht_used ?ht - length chain\<rparr>"
  have s: "ht_set_bucket (?ht\<lparr>ht_used := ht_used ?ht - length chain\<rparr>) ?i [] = Inr ht0"
    using h(1) by (auto simp: ht_set_bucket_def ht0_def split: option.splits if_splits)
  obtain bs where bs: "ht_table ?ht = Some bs" "length bs = ht_size ?ht" using r by (auto elim: ht_okE)
  have "buckets_empty ht0 (nat (d_rehashidx d + 1))"
    using r h(4) bs i by (auto simp: buckets_empty_def ht0_def nat_add_distrib less_Suc_eq nth_list_update)
  moreover have "mset (ht_entries ht0) + mset (ht_entries ht1) = mset (ht_entries ?ht) + mset (ht_entries (d_ht1 d))"
    using h(6) c(3) by (simp add: ht0_def flip: h(6)) 
  ultimately show ?thesis
    using c s h r assms(2) by (auto simp: Let_def rh_inv_def ht0_def dict_entries_def)
qed

lemma rehash_loop_ok:
  assumes "rh_inv ty d"
  shows "\<exists>d' early. rehash_loop ty n ev d = Inr (d', early) \<and> rh_inv ty d' \<and> mset (dict_entries d') = mset (dict_entries d)
    \<and> d_iterators d' = d_iterators d \<and> ht_size (d_ht0 d') = ht_size (d_ht0 d) \<and> d_rehashidx d \<le> d_rehashidx d'
    \<and> (0 < n \<and> ht_used (d_ht0 d) \<noteq> 0 \<longrightarrow> d_rehashidx d < d_rehashidx d')"
  using assms
proof (induction n arbitrary: ev d)
  case 0
  then show ?case by auto
next
  case (Suc n)
  note r = Suc.prems[unfolded rh_inv_def]
  show ?case
  proof (cases "ht_used (d_ht0 d) = 0")
    case True
    then show ?thesis using Suc.prems by auto
  next
    case False
    have lt: "d_rehashidx d < int (ht_size (d_ht0 d))"
      using False r ht_entries_empty[of ty "d_ht0 d" "nat (d_rehashidx d)"] ht_ok_used[of ty "d_ht0 d"]
      by (cases "ht_size (d_ht0 d) \<le> nat (d_rehashidx d)") auto
    obtain i q where s: "rehash_skip d ev = Inr (d\<lparr>d_rehashidx := i\<rparr>, q)" "d_rehashidx d \<le> i" "i \<le> int (ht_size (d_ht0 d))"
      "buckets_empty (d_ht0 d) (nat i)" "case q of None \<Rightarrow> d_rehashidx d < i
        | Some (ev', b) \<Rightarrow> i < int (ht_size (d_ht0 d)) \<and> ht_bucket (d_ht0 d) (nat i) = Inr b \<and> b \<noteq> []"
      using rehash_skip_ok[of ty d ev] r False by blast
    have r1: "rh_inv ty (d\<lparr>d_rehashidx := i\<rparr>)" using r s by (auto simp: rh_inv_def)
    show ?thesis
    proof (cases q)
      case None
      then show ?thesis using False lt s r1
        by (intro exI[of _ "d\<lparr>d_rehashidx := i\<rparr>"] exI[of _ True]) (simp add: dict_entries_def)
    next
      case (Some eb)
      then obtain ev' b where q: "q = Some (ev', b)" by (cases eb) auto
      obtain d2 ht0 where m: "rehash_chain ty b (d\<lparr>d_rehashidx := i\<rparr>) = Inr d2" "d_rehashidx d2 = i" "d_iterators d2 = d_iterators d"
        "ht_set_bucket (d_ht0 d2) (nat (d_rehashidx d2)) [] = Inr ht0"
        "rh_inv ty (d2\<lparr>d_ht0 := ht0, d_rehashidx := d_rehashidx d2 + 1\<rparr>)" "ht_size ht0 = ht_size (d_ht0 d)"
        "mset (dict_entries (d2\<lparr>d_ht0 := ht0, d_rehashidx := d_rehashidx d2 + 1\<rparr>)) = mset (dict_entries d)"
        using rehash_bucket_ok[OF r1, of b] s(5) q by (auto simp: Let_def dict_entries_def)
      let ?d3 = "d2\<lparr>d_ht0 := ht0, d_rehashidx := d_rehashidx d2 + 1\<rparr>"
      obtain d' early where d': "rehash_loop ty n ev' ?d3 = Inr (d', early)" "rh_inv ty d'"
        "mset (dict_entries d') = mset (dict_entries ?d3)" "d_iterators d' = d_iterators ?d3"
        "ht_size (d_ht0 d') = ht_size (d_ht0 ?d3)" "d_rehashidx ?d3 \<le> d_rehashidx d'"
        using Suc.IH[OF m(5), of ev'] by blast
      have "rehash_loop ty (Suc n) ev d = Inr (d', early)" using False lt s(1) q m(1,4) d'(1) by simp
      then show ?thesis using d' m s(2) by (intro exI[of _ d'] exI[of _ early]) simp
    qed
  qed
qed

lemma distinct_keys_mset: "mset xs = mset ys \<Longrightarrow> distinct (map fst xs) = distinct (map fst ys)"
  by (rule mset_eq_imp_distinct_iff) simp

lemma map_of_mset:
  assumes "mset xs = mset ys" "distinct (map fst xs)"
  shows "map_of xs = map_of ys"
  using assms distinct_keys_mset[OF assms(1)] mset_eq_setD[OF assms(1)] by (simp add: map_of_inject_set)

lemma dict_map_mset: "mset (dict_entries d) = mset (dict_entries d') \<Longrightarrow> dict_inv ty d \<Longrightarrow> dict_map d' = dict_map d"
  unfolding dict_map_def dict_inv_def by (metis map_of_mset)

text \<open>
  Rehashing keeps the invariant and the entries, its assertion never fails, it reports whether work
  is left, and it makes progress.
\<close>

lemma dictRehash_ok:
  assumes inv: "dict_inv ty d" and n: "n * 10 < 2 ^ 31"
  shows "\<exists>d' more. dictRehash ty d n = Inr (d', more) \<and> dict_inv ty d' \<and> mset (dict_entries d') = mset (dict_entries d)
    \<and> d_iterators d' = d_iterators d \<and> more = dictIsRehashing d'
    \<and> (dictIsRehashing d' \<longrightarrow> dictIsRehashing d \<and> ht_size (d_ht0 d') = ht_size (d_ht0 d)
         \<and> (0 < n \<longrightarrow> d_rehashidx d < d_rehashidx d'))"
proof (cases "dictIsRehashing d")
  case False
  then show ?thesis using inv n by (simp add: dictRehash_def)
next
  case True
  have rh: "rh_inv ty d" and dist: "distinct (map fst (dict_entries d))" using inv True by (simp_all add: dict_inv_rh)
  obtain d' early where l: "rehash_loop ty n (int n * 10) d = Inr (d', early)" "rh_inv ty d'"
    "mset (dict_entries d') = mset (dict_entries d)" "d_iterators d' = d_iterators d"
    "ht_size (d_ht0 d') = ht_size (d_ht0 d)" "0 < n \<and> ht_used (d_ht0 d) \<noteq> 0 \<longrightarrow> d_rehashidx d < d_rehashidx d'"
    using rehash_loop_ok[OF rh, of n "int n * 10"] by blast
  have re: "dictIsRehashing d'" using l(2) by (auto simp: rh_inv_def dictIsRehashing_def)
  have dist': "distinct (map fst (dict_entries d'))" using dist distinct_keys_mset[OF l(3)] by simp
  have inv': "dict_inv ty d'" using l(2) re dist' by (simp add: dict_inv_rh)
  have u: "ht_used (d_ht0 d) = 0 \<Longrightarrow> d' = d \<and> \<not> early" using l(1) by (cases n) auto
  show ?thesis
  proof (cases "\<not> early \<and> ht_used (d_ht0 d') = 0")
    case True
    let ?e = "d'\<lparr>d_ht0 := d_ht1 d', d_ht1 := dictReset, d_rehashidx := - 1\<rparr>"
    have "ht_entries (d_ht0 d') = []" using True l(2) ht_ok_used[of ty "d_ht0 d'"] by (simp add: rh_inv_def)
    then have "dict_entries ?e = dict_entries d'" by (simp add: dict_entries_def)
    then show ?thesis
      using \<open>dictIsRehashing d\<close> True l dist' n by (simp add: dictRehash_def dict_inv_rh dictIsRehashing_def rh_inv_def)
  next
    case F: False
    have "ht_used (d_ht0 d) \<noteq> 0" using u F by auto
    then show ?thesis using \<open>dictIsRehashing d\<close> F l inv' re n by (auto simp: dictRehash_def)
  qed
qed

lemma dictRehashStep_ok:
  assumes "dict_inv ty d"
  shows "\<exists>d'. dictRehashStep ty d = Inr d' \<and> dict_inv ty d' \<and> mset (dict_entries d') = mset (dict_entries d)"
  using dictRehash_ok[OF assms, of 1] assms by (auto simp: dictRehashStep_def)

section \<open>Maps as multisets of entries\<close>

lemma map_of_mset_insert:
  assumes "mset ys = add_mset (k, v) (mset xs)" "distinct (map fst xs)" "k \<notin> fst ` set xs"
  shows "distinct (map fst ys)" "map_of ys = (map_of xs)(k \<mapsto> v)"
proof -
  have e: "mset ((k, v) # xs) = mset ys" using assms(1) by simp
  have d: "distinct (map fst ((k, v) # xs))" using assms(2,3) by simp
  show "distinct (map fst ys)" using distinct_keys_mset[OF e] d by simp
  show "map_of ys = (map_of xs)(k \<mapsto> v)" using map_of_mset[OF e d] by simp
qed

lemma map_of_mset_delete:
  assumes "mset xs = add_mset (k, v) (mset ys)" "distinct (map fst xs)"
  shows "distinct (map fst ys)" "map_of ys = (map_of xs)(k := None)" "k \<notin> fst ` set ys" "map_of xs k = Some v"
proof -
  have e: "mset xs = mset ((k, v) # ys)" using assms(1) by simp
  have d: "distinct (map fst ((k, v) # ys))" using distinct_keys_mset[OF e] assms(2) by simp
  then show "distinct (map fst ys)" "k \<notin> fst ` set ys" by simp_all
  then show "map_of ys = (map_of xs)(k := None)" "map_of xs k = Some v"
    using map_of_mset[OF e assms(2)] by (auto simp: fun_eq_iff map_of_eq_None_iff)
qed

lemma map_of_mset_update:
  assumes "add_mset (k, old) (mset ys) = add_mset (k, v) (mset xs)" "distinct (map fst xs)" "(k, old) \<in> set xs"
  shows "distinct (map fst ys)" "map_of ys = (map_of xs)(k \<mapsto> v)"
proof -
  obtain zs where z: "mset xs = add_mset (k, old) (mset zs)"
    using assms(3) by (metis ex_mset multi_member_split set_mset_mset)
  note del = map_of_mset_delete[OF z assms(2)]
  have "mset ys = add_mset (k, v) (mset zs)" using assms(1) z by (simp add: add_mset_commute)
  from map_of_mset_insert[OF this del(1,3)] del(2) show "distinct (map fst ys)" "map_of ys = (map_of xs)(k \<mapsto> v)"
    by simp_all
qed

section \<open>Finding an entry\<close>

definition dictType_ok :: "'k dictType \<Rightarrow> bool" where
  "dictType_ok ty \<longleftrightarrow> (\<forall>a b. keyCompare ty a b \<longleftrightarrow> a = b)"

lemma chain_find_None: "dictType_ok ty \<Longrightarrow> chain_find ty key b = None \<longleftrightarrow> key \<notin> fst ` set b"
  by (induction b) (auto simp: dictType_ok_def)

lemma chain_find_Some: "dictType_ok ty \<Longrightarrow> chain_find ty key b = Some p \<Longrightarrow> p < length b \<and> fst (b ! p) = key"
  by (induction b arbitrary: p) (auto simp: dictType_ok_def split: if_splits)

text \<open>What a pointer to an entry points to.\<close>

definition ref_entry :: "('k, 'v) dict \<Rightarrow> dref \<Rightarrow> 'k \<times> 'v \<Rightarrow> bool" where
  "ref_entry d ref e \<longleftrightarrow> (case ref of (t, i, p) \<Rightarrow>
     t \<in> {0, 1} \<and> (\<exists>b. ht_bucket (dict_get_ht d t) i = Inr b \<and> p < length b \<and> b ! p = e))"

lemma ht_entry_slot:
  assumes "ht_ok ty ht" "e \<in> set (ht_entries ht)"
  shows "\<exists>b. ht_bucket ht (ht_slot ty ht (fst e)) = Inr b \<and> e \<in> set b"
  using assms(1)
proof (rule ht_okE)
  fix bs k assume h: "ht_table ht = Some bs" "length bs = 2 ^ k"
    "\<And>i e. i < length bs \<Longrightarrow> e \<in> set (bs ! i) \<Longrightarrow> ht_slot ty ht (fst e) = i"
  obtain b where "b \<in> set bs" "e \<in> set b" using assms(2) h(1) by (auto simp: ht_entries_def)
  then obtain i where "i < length bs" "e \<in> set (bs ! i)" by (metis in_set_conv_nth)
  with h show ?thesis by (auto simp: ht_bucket_def)
qed

lemma table_find_ok:
  assumes ty: "dictType_ok ty" and ok: "ht_ok ty (dict_get_ht d t)" and t: "t \<in> {0, 1}"
  shows "\<exists>r. table_find ty d t key = Inr (ht_slot ty (dict_get_ht d t) key, r) \<and>
    (case r of None \<Rightarrow> key \<notin> fst ` set (ht_entries (dict_get_ht d t))
     | Some p \<Rightarrow> \<exists>v. ref_entry d (t, ht_slot ty (dict_get_ht d t) key, p) (key, v)
         \<and> (key, v) \<in> set (ht_entries (dict_get_ht d t)))"
proof -
  let ?ht = "dict_get_ht d t" and ?i = "ht_slot ty (dict_get_ht d t) key"
  obtain b where b: "ht_bucket ?ht ?i = Inr b" "set b \<subseteq> set (ht_entries ?ht)"
    using ht_bucket_ok[OF ok ht_slot_less[OF ok]] by blast
  have f: "table_find ty d t key = Inr (?i, chain_find ty key b)"
    using b(1) by (simp add: table_find_def ht_slot_def)
  show ?thesis
  proof (cases "chain_find ty key b")
    case None
    then have "key \<notin> fst ` set b" using chain_find_None[OF ty] by blast
    then have "key \<notin> fst ` set (ht_entries ?ht)" using ht_entry_slot[OF ok] b(1) by fastforce
    with None f show ?thesis by simp
  next
    case (Some p)
    then have p: "p < length b" "fst (b ! p) = key" using chain_find_Some[OF ty] by blast+
    then have "b ! p = (key, snd (b ! p))" "b ! p \<in> set (ht_entries ?ht)" using b(2) by (auto simp: prod_eq_iff)
    then show ?thesis using f Some p b(1) t by (auto simp: ref_entry_def)
  qed
qed

lemma get_ht_simps [simp]: "dict_get_ht d 0 = d_ht0 d" "dict_get_ht d (Suc 0) = d_ht1 d" "dict_get_ht d 1 = d_ht1 d"
  by (simp_all add: dict_get_ht_def)

text \<open>The table that receives new entries.\<close>

definition target_ht :: "('k, 'v) dict \<Rightarrow> nat" where
  "target_ht d = (if dictIsRehashing d then 1 else 0)"

lemma tables_find_ok:
  assumes ty: "dictType_ok ty" and inv: "dict_inv ty d" and ok: "ht_ok ty (d_ht0 d)"
  shows "\<exists>idx r. tables_find ty d key = Inr (idx, r) \<and>
    (case r of None \<Rightarrow> dict_map d key = None \<and> idx = ht_slot ty (dict_get_ht d (target_ht d)) key
     | Some ref \<Rightarrow> \<exists>v. ref_entry d ref (key, v) \<and> dict_map d key = Some v)"
proof -
  have dist: "distinct (map fst (dict_entries d))" using inv by (simp add: dict_inv_rh)
  have mem: "dict_map d key = Some v" if "(key, v) \<in> set (ht_entries (d_ht0 d)) \<union> set (ht_entries (d_ht1 d))" for v
    using that dist unfolding dict_map_def by (intro map_of_is_SomeI) (auto simp: dict_entries_def)
  have non: "dict_map d key = None" if "key \<notin> fst ` set (ht_entries (d_ht0 d))" "key \<notin> fst ` set (ht_entries (d_ht1 d))"
    using that by (auto simp: dict_map_def dict_entries_def map_of_eq_None_iff)
  obtain r0 where f0: "table_find ty d 0 key = Inr (ht_slot ty (d_ht0 d) key, r0)"
    "case r0 of None \<Rightarrow> key \<notin> fst ` set (ht_entries (d_ht0 d))
     | Some p \<Rightarrow> \<exists>v. ref_entry d (0, ht_slot ty (d_ht0 d) key, p) (key, v) \<and> (key, v) \<in> set (ht_entries (d_ht0 d))"
    using table_find_ok[OF ty, of d 0 key, unfolded get_ht_simps] ok by blast
  show ?thesis
  proof (cases r0)
    case (Some p)
    then show ?thesis using f0 mem by (auto simp: tables_find_def)
  next
    case None
    show ?thesis
    proof (cases "dictIsRehashing d")
      case False
      then have "d_ht1 d = dictReset" using inv by (simp add: dict_inv_rh)
      then show ?thesis using f0 None non False by (auto simp: tables_find_def target_ht_def)
    next
      case True
      then have ok1: "ht_ok ty (d_ht1 d)" using inv by (simp add: dict_inv_rh rh_inv_def)
      then obtain r1 where f1: "table_find ty d 1 key = Inr (ht_slot ty (d_ht1 d) key, r1)"
        "case r1 of None \<Rightarrow> key \<notin> fst ` set (ht_entries (d_ht1 d))
         | Some p \<Rightarrow> \<exists>v. ref_entry d (1, ht_slot ty (d_ht1 d) key, p) (key, v) \<and> (key, v) \<in> set (ht_entries (d_ht1 d))"
        using table_find_ok[OF ty, of d 1 key, unfolded get_ht_simps] ok1 by blast
      show ?thesis
        using f0 f1 None True non mem
        by (cases r1) (auto simp: tables_find_def target_ht_def)
    qed
  qed
qed

section \<open>Changing one chain of the dictionary\<close>

lemma ht_bucket_lt: "ht_bucket ht i = Inr b \<Longrightarrow> ht_ok ty ht \<Longrightarrow> i < ht_size ht"
  by (erule ht_okE) (auto simp: ht_bucket_def split: if_splits)

lemma dict_set_bucket_ok:
  fixes d :: "('k, 'v) dict"
  assumes inv: "dict_inv ty d" and t: "t \<in> {0, 1}" and ok: "ht_ok ty (dict_get_ht d t)"
    and b: "ht_bucket (dict_get_ht d t) i = Inr b" and b': "\<forall>e \<in> set b'. ht_slot ty (dict_get_ht d t) (fst e) = i"
    and live: "t = target_ht d \<or> b \<noteq> []"
  shows "\<exists>ht'. ht_set_bucket (dict_get_ht d t) i b' = Inr ht' \<and> ht_used ht' = ht_used (dict_get_ht d t) \<and>
    (let d' = dict_set_ht d t (ht'\<lparr>ht_used := ht_used (dict_get_ht d t) + length b' - length b\<rparr>) in
      mset (dict_entries d') + mset b = mset (dict_entries d) + mset b'
      \<and> (distinct (map fst (dict_entries d')) \<longrightarrow> dict_inv ty d')
      \<and> ht_bucket (dict_get_ht d' t) i = Inr b')"
proof -
  let ?ht = "dict_get_ht d t"
  have lt: "i < ht_size ?ht" using b ok by (rule ht_bucket_lt)
  obtain ht' where h: "ht_set_bucket ?ht i b' = Inr ht'" "ht_used ht' = ht_used ?ht" "ht_size ht' = ht_size ?ht"
    "ht_table ht' = map_option (\<lambda>bs. bs[i := b']) (ht_table ?ht)"
    "ht_ok ty (ht'\<lparr>ht_used := ht_used ?ht + length b' - length b\<rparr>)"
    "mset (ht_entries ht') + mset b = mset (ht_entries ?ht) + mset b'"
    using ht_set_bucket_ok[OF ok lt b b'] by blast
  define ht2 where "ht2 = ht'\<lparr>ht_used := ht_used ?ht + length b' - length b\<rparr>"
  have h2: "ht_ok ty ht2" "ht_size ht2 = ht_size ?ht" "mset (ht_entries ht2) + mset b = mset (ht_entries ?ht) + mset b'"
    using h by (simp_all add: ht2_def)
  obtain bs where bs: "ht_table ?ht = Some bs" "length bs = ht_size ?ht" using ok by (auto elim: ht_okE)
  have bk: "ht_bucket ht2 i = Inr b'" using bs lt h(4) by (simp add: ht_bucket_def ht2_def)
  have emp: "buckets_empty ht2 n" if "buckets_empty ?ht n" "n \<le> i" for n
    using that bs h(4) by (auto simp: buckets_empty_def ht2_def nth_list_update)
  have idx: "nat (d_rehashidx d) \<le> i" if "dictIsRehashing d" "t = 0"
  proof (rule ccontr)
    assume "\<not> nat (d_rehashidx d) \<le> i"
    then have "b = []" using that inv b bs lt
      by (auto simp: dict_inv_rh rh_inv_def buckets_empty_def ht_bucket_def)
    then show False using live that by (simp add: target_ht_def)
  qed
  let ?d' = "dict_set_ht d t ht2"
  have "mset (dict_entries ?d') + mset b = mset (dict_entries d) + mset b'"
    using h2(3) t by (auto simp: dict_entries_def dict_set_ht_def ac_simps)
  moreover have "dict_inv ty ?d'" if "distinct (map fst (dict_entries ?d'))"
    using that inv h2 emp idx t ok ht_ok_size_pos[OF ok]
    by (auto simp: dict_inv_rh rh_inv_def dict_set_ht_def dictIsRehashing_def dictReset_def)
  moreover have "ht_bucket (dict_get_ht ?d' t) i = Inr b'" using bk t by (auto simp: dict_set_ht_def)
  ultimately show ?thesis using h(1,2) by (auto simp: Let_def ht2_def)
qed

lemma ref_entryE:
  assumes "dict_inv ty d" "ref_entry d ref e"
  obtains t i p b where "ref = (t, i, p)" "t \<in> {0, 1}" "ht_ok ty (dict_get_ht d t)" "ht_bucket (dict_get_ht d t) i = Inr b"
    "p < length b" "b ! p = e" "e \<in> set (dict_entries d)" "\<forall>e \<in> set b. ht_slot ty (dict_get_ht d t) (fst e) = i"
proof -
  obtain t i p b where r: "ref = (t, i, p)" "t \<in> {0, 1}" "ht_bucket (dict_get_ht d t) i = Inr b" "p < length b" "b ! p = e"
    using assms(2) by (auto simp: ref_entry_def split: prod.splits)
  have "ht_table (dict_get_ht d t) \<noteq> None" using r(3) by (auto simp: ht_bucket_def split: option.splits)
  then have ok: "ht_ok ty (dict_get_ht d t)"
    using assms(1) r(2) by (auto simp: dict_inv_rh rh_inv_def dictReset_def split: if_splits)
  have lt: "i < ht_size (dict_get_ht d t)" by (rule ht_bucket_lt[OF r(3) ok])
  have s: "\<forall>e \<in> set b. ht_slot ty (dict_get_ht d t) (fst e) = i" "set b \<subseteq> set (ht_entries (dict_get_ht d t))"
    using ht_bucket_ok[OF ok lt] r(3) by auto
  have "e \<in> set (dict_entries d)" using s(2) r(2,5) nth_mem[OF r(4)] by (auto simp: dict_entries_def)
  then show thesis using that[OF r(1,2) ok r(3,4,5) _ s(1)] by blast
qed

lemma ref_entry_map:
  assumes "dict_inv ty d" "ref_entry d ref (k, v)" shows "dict_map d k = Some v"
  using assms ref_entryE[OF assms] by (auto simp: dict_inv_def dict_map_def intro!: map_of_is_SomeI)

lemma dictGetVal_ok: "ref_entry d ref (k, v) \<Longrightarrow> dictGetVal d ref = Inr v"
  by (auto simp: ref_entry_def dictGetVal_def)

lemma dictSetVal_ok:
  assumes inv: "dict_inv ty d" and ref: "ref_entry d ref (k, old)"
  shows "\<exists>d'. dictSetVal d ref v = Inr d' \<and> dict_inv ty d' \<and> dict_map d' = (dict_map d)(k \<mapsto> v)
    \<and> length (dict_entries d') = length (dict_entries d) \<and> ref_entry d' ref (k, v)"
  using inv ref
proof (rule ref_entryE)
  fix t i p b assume h: "ref = (t, i, p)" "t \<in> {0, 1}" "ht_ok ty (dict_get_ht d t)" "ht_bucket (dict_get_ht d t) i = Inr b"
    "p < length b" "b ! p = (k, old)" "(k, old) \<in> set (dict_entries d)" "\<forall>e \<in> set b. ht_slot ty (dict_get_ht d t) (fst e) = i"
  let ?b = "b[p := (k, v)]"
  have s: "\<forall>e \<in> set ?b. ht_slot ty (dict_get_ht d t) (fst e) = i"
    using h(5,6,8) nth_mem[OF h(5)] by (auto dest!: set_update_subset_insert[THEN subsetD])
  have ne: "b \<noteq> []" using h(5) by auto
  obtain ht' where n: "ht_set_bucket (dict_get_ht d t) i ?b = Inr ht'" "ht_used ht' = ht_used (dict_get_ht d t)"
    "let d' = dict_set_ht d t (ht'\<lparr>ht_used := ht_used (dict_get_ht d t) + length ?b - length b\<rparr>) in
      mset (dict_entries d') + mset b = mset (dict_entries d) + mset ?b
      \<and> (distinct (map fst (dict_entries d')) \<longrightarrow> dict_inv ty d') \<and> ht_bucket (dict_get_ht d' t) i = Inr ?b"
    using dict_set_bucket_ok[OF inv h(2,3,4) s] ne by blast
  define d' where "d' = dict_set_ht d t ht'"
  have "ht'\<lparr>ht_used := ht_used (dict_get_ht d t) + length ?b - length b\<rparr> = ht'" using n(2) by simp
  with n(3) have d': "mset (dict_entries d') + mset b = mset (dict_entries d) + mset ?b"
    "distinct (map fst (dict_entries d')) \<longrightarrow> dict_inv ty d'" "ht_bucket (dict_get_ht d' t) i = Inr ?b"
    by (simp_all add: d'_def Let_def)
  have mb: "add_mset (k, old) (mset ?b) = add_mset (k, v) (mset b)"
    using mset_update[OF h(5)] h(5,6) nth_mem[OF h(5)] by (simp add: add_mset_commute insert_DiffM)
  have "add_mset (k, old) (mset (dict_entries d')) + mset b = mset (dict_entries d) + add_mset (k, old) (mset ?b)"
    using d'(1) by simp
  also have "\<dots> = add_mset (k, v) (mset (dict_entries d)) + mset b" by (simp only: mb) simp
  finally have "add_mset (k, old) (mset (dict_entries d')) = add_mset (k, v) (mset (dict_entries d))"
    by (simp only: add_right_cancel)
  note u = map_of_mset_update[OF this _ h(7)]
  have "dictSetVal d ref v = Inr d'" using h(1,4,5,6) n(1) by (simp add: dictSetVal_def d'_def)
  moreover have "length (dict_entries d') = length (dict_entries d)"
    using arg_cong[OF d'(1), of size] by simp
  moreover have "ref_entry d' ref (k, v)" using d'(3) h(1,2,5) by (simp add: ref_entry_def)
  ultimately show ?thesis using u d'(2) inv by (auto simp: dict_inv_def dict_map_def)
qed

section \<open>Expansion\<close>

lemma nextPower_loop_ok: "0 < i \<Longrightarrow> \<exists>j. nextPower_loop i n = i * 2 ^ j \<and> n \<le> i * 2 ^ j \<and> (j = 0 \<or> i * 2 ^ (j - 1) < n)"
proof (induction i n rule: nextPower_loop.induct)
  case (1 i n)
  show ?case
  proof (cases "i \<ge> n")
    case True
    then have "nextPower_loop i n = i" by (subst nextPower_loop.simps) simp
    with True show ?thesis by (intro exI[of _ 0]) simp
  next
    case False
    then have s: "nextPower_loop i n = nextPower_loop (i * 2) n" using "1.prems" by (subst nextPower_loop.simps) simp
    obtain j where "nextPower_loop (i * 2) n = i * 2 * 2 ^ j" "n \<le> i * 2 * 2 ^ j" "j = 0 \<or> i * 2 * 2 ^ (j - 1) < n"
      using "1.IH" "1.prems" False by auto
    then show ?thesis using s False by (intro exI[of _ "Suc j"]) (cases j; auto simp: mult_ac)
  qed
qed

lemma dictNextPower_pow2: "\<exists>k. dictNextPower n = 2 ^ k \<and> k \<le> 63 \<and> (n < 2 ^ 63 - 1 \<longrightarrow> n \<le> 2 ^ k \<and> 4 \<le> (2::nat) ^ k)"
proof (cases "n \<ge> 2 ^ 63 - 1")
  case True
  then show ?thesis by (intro exI[of _ 63]) (simp add: dictNextPower_def)
next
  case False
  obtain j where j: "nextPower_loop 4 n = 4 * 2 ^ j" "n \<le> 4 * 2 ^ j" "j = 0 \<or> 4 * 2 ^ (j - 1) < n"
    using nextPower_loop_ok[of 4 n] by auto
  have "j \<le> 61"
  proof (rule ccontr)
    assume "\<not> j \<le> 61"
    then have "(2::nat) ^ 61 \<le> 2 ^ (j - 1)" by (intro power_increasing) auto
    then show False using j(3) False \<open>\<not> j \<le> 61\<close> by simp
  qed
  with j(1,2) show ?thesis using False by (intro exI[of _ "j + 2"]) (simp add: dictNextPower_def power_add)
qed

lemma ht_ok_new:
  "k \<le> 63 \<Longrightarrow> ht_ok ty \<lparr>ht_table = Some (replicate (2 ^ k) []), ht_size = 2 ^ k, ht_sizemask = 2 ^ k - 1, ht_used = 0\<rparr>"
  unfolding ht_ok_def by (intro exI[of _ "replicate (2 ^ k) []"] exI[of _ k]) simp

lemma ht_table_ok: "dict_inv ty d \<Longrightarrow> ht_table (d_ht0 d) \<noteq> None \<longleftrightarrow> ht_ok ty (d_ht0 d)"
  by (auto simp: dict_inv_rh rh_inv_def dictReset_def ht_ok_def split: if_splits)

lemma dictExpand_ok:
  assumes inv: "dict_inv ty d"
  shows "case dictExpand d n of (d', ok) \<Rightarrow> dict_inv ty d' \<and> dict_entries d' = dict_entries d \<and> d_iterators d' = d_iterators d
    \<and> (ok \<longrightarrow> ht_ok ty (d_ht0 d'))
    \<and> (ok \<longleftrightarrow> \<not> dictIsRehashing d \<and> ht_used (d_ht0 d) \<le> n \<and> dictNextPower n \<noteq> ht_size (d_ht0 d))"
proof (cases "\<not> dictIsRehashing d \<and> ht_used (d_ht0 d) \<le> n \<and> dictNextPower n \<noteq> ht_size (d_ht0 d)")
  case False
  then show ?thesis using inv by (auto simp: dictExpand_def Let_def)
next
  case True
  obtain k where k: "dictNextPower n = 2 ^ k" "k \<le> 63" using dictNextPower_pow2 by blast
  define nt :: "('a, 'b) dictht" where
    "nt = \<lparr>ht_table = Some (replicate (2 ^ k) []), ht_size = 2 ^ k, ht_sizemask = 2 ^ k - 1, ht_used = 0\<rparr>"
  have nt: "ht_ok ty nt" "ht_entries nt = []" unfolding nt_def by (rule ht_ok_new[OF k(2)]) (simp add: ht_entries_def)
  have nr: "d_ht1 d = dictReset" "d_ht0 d = dictReset \<or> ht_ok ty (d_ht0 d)" "distinct (map fst (dict_entries d))"
    "d_rehashidx d = - 1"
    using inv True by (auto simp: dict_inv_rh dictIsRehashing_def)
  show ?thesis
  proof (cases "ht_table (d_ht0 d) = None")
    case N: True
    then have "d_ht0 d = dictReset" using nr(2) by (auto simp: ht_ok_def)
    moreover have "dictExpand d n = (d\<lparr>d_ht0 := nt\<rparr>, True)" using True N k(1) by (simp add: dictExpand_def nt_def Let_def)
    ultimately show ?thesis using nr nt True by (simp add: dict_inv_rh dict_entries_def dictIsRehashing_def)
  next
    case N: False
    then have "ht_ok ty (d_ht0 d)" using ht_table_ok[OF inv] by simp
    moreover have "dictExpand d n = (d\<lparr>d_ht1 := nt, d_rehashidx := 0\<rparr>, True)"
      using True N k(1) by (auto simp: dictExpand_def nt_def Let_def)
    ultimately show ?thesis using nr nt True
      by (simp add: dict_inv_rh dict_entries_def dictIsRehashing_def rh_inv_def buckets_empty_def)
  qed
qed

lemma dictExpandIfNeeded_ok:
  assumes inv: "dict_inv ty d" and small: "length (dict_entries d) < 2 ^ 62"
  shows "\<exists>d'. dictExpandIfNeeded cr d = (d', True) \<and> dict_inv ty d' \<and> dict_entries d' = dict_entries d \<and> ht_ok ty (d_ht0 d')"
proof (cases "dictIsRehashing d")
  case True
  then show ?thesis using inv by (simp add: dictExpandIfNeeded_def dict_inv_rh rh_inv_def)
next
  case F: False
  let ?ht = "d_ht0 d"
  have exp: ?thesis if "dictExpandIfNeeded cr d = dictExpand d n" "ht_used ?ht \<le> n" "dictNextPower n \<noteq> ht_size ?ht" for n
    using dictExpand_ok[OF inv, of n] that F by (cases "dictExpand d n") auto
  show ?thesis
  proof (cases "ht_size ?ht = 0")
    case True
    then have "?ht = dictReset" using inv F ht_ok_size_pos[of ty ?ht] by (auto simp: dict_inv_rh)
    moreover obtain k where "dictNextPower DICT_HT_INITIAL_SIZE = 2 ^ k" using dictNextPower_pow2 by blast
    ultimately show ?thesis using F
      by (intro exp[of DICT_HT_INITIAL_SIZE]) (simp_all add: dictExpandIfNeeded_def dictReset_def)
  next
    case sz: False
    then have ok: "ht_ok ty ?ht" using inv F by (auto simp: dict_inv_rh dictReset_def)
    have used: "ht_used ?ht < 2 ^ 62" using ht_ok_used[OF ok] small by (simp add: dict_entries_def)
    show ?thesis
    proof (cases "ht_used ?ht \<ge> ht_size ?ht \<and> (cr \<or> ht_used ?ht div ht_size ?ht > dict_force_resize_ratio)")
      case False
      then show ?thesis using F sz inv ok by (auto simp: dictExpandIfNeeded_def)
    next
      case True
      have u: "u64 (ht_used ?ht * 2) = ht_used ?ht * 2" using used by (simp add: u64_def)
      have "ht_used ?ht * 2 \<le> dictNextPower (ht_used ?ht * 2)"
        using dictNextPower_pow2[of "ht_used ?ht * 2"] used by auto
      with True sz have "dictNextPower (ht_used ?ht * 2) \<noteq> ht_size ?ht" by auto
      then show ?thesis using True F sz u by (intro exp[of "ht_used ?ht * 2"]) (simp_all add: dictExpandIfNeeded_def)
    qed
  qed
qed

section \<open>The operations refine a map\<close>

definition dict_rep :: "'k dictType \<Rightarrow> ('k, 'v) dict \<Rightarrow> bool" where
  "dict_rep ty d \<longleftrightarrow> dictType_ok ty \<and> dict_inv ty d"

lemma dict_repD: "dict_rep ty d \<Longrightarrow> dictType_ok ty" "dict_rep ty d \<Longrightarrow> dict_inv ty d"
  by (simp_all add: dict_rep_def)

lemma dictSize_entries: "dict_inv ty d \<Longrightarrow> dictSize d = length (dict_entries d)"
  by (auto simp: dictSize_def dict_entries_def dict_inv_rh rh_inv_def ht_ok_used dictReset_def ht_entries_def split: if_splits)

lemma length_entries_card: "dict_inv ty d \<Longrightarrow> length (dict_entries d) = card (dom (dict_map d))"
  by (simp add: dict_inv_def dict_map_def dom_map_of_conv_image_fst distinct_card flip: set_map)

text \<open>The incremental step every operation starts with.\<close>

lemma step_ok:
  assumes "dict_inv ty d"
  shows "\<exists>d'. (if dictIsRehashing d then dictRehashStep ty d else Inr d) = Inr d' \<and> dict_inv ty d'
    \<and> mset (dict_entries d') = mset (dict_entries d) \<and> dict_map d' = dict_map d"
proof (cases "dictIsRehashing d")
  case True
  then obtain d' where "dictRehashStep ty d = Inr d'" "dict_inv ty d'" "mset (dict_entries d') = mset (dict_entries d)"
    using dictRehashStep_ok[OF assms] by blast
  then show ?thesis using dict_map_mset[OF _ assms, of d'] True by auto
next
  case False
  then show ?thesis using assms by auto
qed

lemma entries_ht_ok: "dict_inv ty d \<Longrightarrow> dict_entries d \<noteq> [] \<Longrightarrow> ht_ok ty (d_ht0 d)"
  by (auto simp: dict_inv_rh rh_inv_def dict_entries_def split: if_splits)

lemma target_ht_ok: "dict_inv ty d \<Longrightarrow> ht_ok ty (d_ht0 d) \<Longrightarrow> ht_ok ty (dict_get_ht d (target_ht d))"
  by (auto simp: target_ht_def dict_inv_rh rh_inv_def)

lemma dict_insert_ok:
  fixes d :: "('k, 'v) dict"
  assumes inv: "dict_inv ty d" and ok: "ht_ok ty (d_ht0 d)" and new: "dict_map d key = None"
  defines "t \<equiv> target_ht d"
  defines "ht \<equiv> dict_get_ht d t"
  defines "i \<equiv> ht_slot ty ht key"
  shows "\<exists>b ht' d'. ht_bucket ht i = Inr b \<and> ht_set_bucket ht i ((key, v) # b) = Inr ht' \<and>
    d' = dict_set_ht d t (ht'\<lparr>ht_used := ht_used ht' + 1\<rparr>) \<and> dict_inv ty d' \<and> dict_map d' = (dict_map d)(key \<mapsto> v)
    \<and> ref_entry d' (t, i, 0) (key, v)"
proof -
  have okt: "ht_ok ty ht" unfolding ht_def t_def by (rule target_ht_ok[OF inv ok])
  have t: "t \<in> {0, 1}" by (simp add: t_def target_ht_def)
  obtain b where b: "ht_bucket ht i = Inr b" "\<forall>e \<in> set b. ht_slot ty ht (fst e) = i"
    using ht_bucket_ok[OF okt ht_slot_less[OF okt]] i_def by blast
  have s: "\<forall>e \<in> set ((key, v) # b). ht_slot ty ht (fst e) = i" using b(2) i_def by simp
  obtain ht' where h: "ht_set_bucket ht i ((key, v) # b) = Inr ht'" "ht_used ht' = ht_used ht"
    "let d' = dict_set_ht d t (ht'\<lparr>ht_used := ht_used ht + length ((key, v) # b) - length b\<rparr>) in
      mset (dict_entries d') + mset b = mset (dict_entries d) + mset ((key, v) # b)
      \<and> (distinct (map fst (dict_entries d')) \<longrightarrow> dict_inv ty d') \<and> ht_bucket (dict_get_ht d' t) i = Inr ((key, v) # b)"
    using dict_set_bucket_ok[OF inv t, folded ht_def, OF okt b(1) s] t_def by blast
  define d' where "d' = dict_set_ht d t (ht'\<lparr>ht_used := ht_used ht' + 1\<rparr>)"
  have d': "mset (dict_entries d') = add_mset (key, v) (mset (dict_entries d))"
    "distinct (map fst (dict_entries d')) \<longrightarrow> dict_inv ty d'" "ht_bucket (dict_get_ht d' t) i = Inr ((key, v) # b)"
    using h(2,3) by (simp_all add: d'_def Let_def)
  have k: "distinct (map fst (dict_entries d))" "key \<notin> fst ` set (dict_entries d)"
    using inv new by (auto simp: dict_inv_def dict_map_def map_of_eq_None_iff)
  note m = map_of_mset_insert[OF d'(1) k]
  have "ref_entry d' (t, i, 0) (key, v)" using d'(3) t by (simp add: ref_entry_def)
  then show ?thesis using b(1) h(1) m d'(2) by (auto simp: dict_map_def d'_def)
qed

lemma dictAddRaw_ok:
  fixes d :: "('k, 'v) dict"
  assumes rep: "dict_rep ty d" and small: "card (dom (dict_map d)) < 2 ^ 62"
  shows "\<exists>d' r. dictAddRaw cr ty d key junk = Inr (d', r) \<and> dict_rep ty d' \<and>
    (case r of
       Inl ex \<Rightarrow> dict_map d' = dict_map d \<and> (\<exists>ref v. ex = Some ref \<and> ref_entry d' ref (key, v) \<and> dict_map d key = Some v)
     | Inr ref \<Rightarrow> dict_map d key = None \<and> dict_map d' = (dict_map d)(key \<mapsto> junk) \<and> ref_entry d' ref (key, junk))"
proof -
  note ty = dict_repD(1)[OF rep] and inv = dict_repD(2)[OF rep]
  obtain d1 where d1: "(if dictIsRehashing d then dictRehashStep ty d else Inr d) = Inr d1" "dict_inv ty d1" "dict_map d1 = dict_map d"
    using step_ok[OF inv] by blast
  have "length (dict_entries d1) < 2 ^ 62" using small d1 by (simp add: length_entries_card)
  then obtain d2 where d2: "dictExpandIfNeeded cr d1 = (d2, True)" "dict_inv ty d2" "dict_entries d2 = dict_entries d1" "ht_ok ty (d_ht0 d2)"
    using dictExpandIfNeeded_ok[OF d1(2)] by blast
  have m2: "dict_map d2 = dict_map d" using d1(3) d2(3) by (simp add: dict_map_def)
  obtain idx r where f: "tables_find ty d2 key = Inr (idx, r)"
    "case r of None \<Rightarrow> dict_map d2 key = None \<and> idx = ht_slot ty (dict_get_ht d2 (target_ht d2)) key
     | Some ref \<Rightarrow> \<exists>v. ref_entry d2 ref (key, v) \<and> dict_map d2 key = Some v"
    using tables_find_ok[OF ty d2(2,4)] by blast
  show ?thesis
  proof (cases r)
    case (Some ref)
    then have "dictAddRaw cr ty d key junk = Inr (d2, Inl (Some ref))"
      using f d1(1) d2(1) by (simp add: dictAddRaw_def dictKeyIndex_def)
    then show ?thesis using f Some m2 d2(2) ty by (auto simp: dict_rep_def)
  next
    case None
    with f have n: "dict_map d2 key = None" "idx = ht_slot ty (dict_get_ht d2 (target_ht d2)) key" by auto
    from dict_insert_ok[OF d2(2,4) n(1), of junk] obtain b ht' d' where i:
      "ht_bucket (dict_get_ht d2 (target_ht d2)) idx = Inr b"
      "ht_set_bucket (dict_get_ht d2 (target_ht d2)) idx ((key, junk) # b) = Inr ht'"
      "d' = dict_set_ht d2 (target_ht d2) (ht'\<lparr>ht_used := ht_used ht' + 1\<rparr>)" "dict_inv ty d'"
      "dict_map d' = (dict_map d2)(key \<mapsto> junk)" "ref_entry d' (target_ht d2, idx, 0) (key, junk)"
      unfolding n(2) by blast
    have "dictAddRaw cr ty d key junk = Inr (d', Inr (target_ht d2, idx, 0))"
      using f(1) None d1(1) d2(1) i(1-3) by (simp add: dictAddRaw_def dictKeyIndex_def Let_def flip: target_ht_def)
    then show ?thesis using i n m2 ty by (auto simp: dict_rep_def)
  qed
qed

lemma dictAdd_ok:
  assumes rep: "dict_rep ty d" and small: "card (dom (dict_map d)) < 2 ^ 62"
  shows "\<exists>d'. dictAdd cr ty junk d key v = Inr (d', dict_map d key = None) \<and> dict_rep ty d'
    \<and> dict_map d' = (if dict_map d key = None then (dict_map d)(key \<mapsto> v) else dict_map d)"
proof -
  obtain d1 r where a: "dictAddRaw cr ty d key junk = Inr (d1, r)" "dict_rep ty d1"
    "case r of
       Inl ex \<Rightarrow> dict_map d1 = dict_map d \<and> (\<exists>ref v. ex = Some ref \<and> ref_entry d1 ref (key, v) \<and> dict_map d key = Some v)
     | Inr ref \<Rightarrow> dict_map d key = None \<and> dict_map d1 = (dict_map d)(key \<mapsto> junk) \<and> ref_entry d1 ref (key, junk)"
    using dictAddRaw_ok[OF rep small] by blast
  show ?thesis
  proof (cases r)
    case (Inl ex)
    then show ?thesis using a by (auto simp: dictAdd_def)
  next
    case (Inr ref)
    then show ?thesis using a dictSetVal_ok[OF dict_repD(2)[OF a(2)], of ref key junk v]
      by (auto simp: dictAdd_def dict_rep_def)
  qed
qed

lemma dictReplace_ok:
  assumes rep: "dict_rep ty d" and small: "card (dom (dict_map d)) < 2 ^ 62"
  shows "\<exists>d'. dictReplace cr ty junk d key v = Inr (d', dict_map d key = None) \<and> dict_rep ty d'
    \<and> dict_map d' = (dict_map d)(key \<mapsto> v)"
proof -
  obtain d1 r where a: "dictAddRaw cr ty d key junk = Inr (d1, r)" "dict_rep ty d1"
    "case r of
       Inl ex \<Rightarrow> dict_map d1 = dict_map d \<and> (\<exists>ref v. ex = Some ref \<and> ref_entry d1 ref (key, v) \<and> dict_map d key = Some v)
     | Inr ref \<Rightarrow> dict_map d key = None \<and> dict_map d1 = (dict_map d)(key \<mapsto> junk) \<and> ref_entry d1 ref (key, junk)"
    using dictAddRaw_ok[OF rep small] by blast
  show ?thesis
  proof (cases r)
    case (Inl ex)
    then obtain ref w where e: "ex = Some ref" "ref_entry d1 ref (key, w)" "dict_map d key = Some w" "dict_map d1 = dict_map d"
      using a(3) by auto
    show ?thesis using a(1,2) e Inl dictSetVal_ok[OF dict_repD(2)[OF a(2)] e(2), of v]
      by (auto simp: dictReplace_def dict_rep_def)
  next
    case (Inr ref)
    then show ?thesis using a dictSetVal_ok[OF dict_repD(2)[OF a(2)], of ref key junk v]
      by (auto simp: dictReplace_def dict_rep_def)
  qed
qed

lemma dictFind_ok:
  assumes rep: "dict_rep ty d"
  shows "\<exists>d' r. dictFind ty d key = Inr (d', r) \<and> dict_rep ty d' \<and> dict_map d' = dict_map d \<and>
    (case r of None \<Rightarrow> dict_map d key = None | Some ref \<Rightarrow> \<exists>v. ref_entry d' ref (key, v) \<and> dict_map d key = Some v)"
proof (cases "dictSize d = 0")
  case True
  then have "dict_map d key = None" using dictSize_entries[OF dict_repD(2)[OF rep]] by (simp add: dict_map_def)
  then show ?thesis using True rep by (simp add: dictFind_def)
next
  case False
  note ty = dict_repD(1)[OF rep] and inv = dict_repD(2)[OF rep]
  obtain d1 where d1: "(if dictIsRehashing d then dictRehashStep ty d else Inr d) = Inr d1" "dict_inv ty d1"
    "dict_map d1 = dict_map d" "mset (dict_entries d1) = mset (dict_entries d)"
    using step_ok[OF inv] by blast
  have "dict_entries d1 \<noteq> []" using False dictSize_entries[OF inv] d1(4) by auto
  then obtain idx r where f: "tables_find ty d1 key = Inr (idx, r)"
    "case r of None \<Rightarrow> dict_map d1 key = None \<and> idx = ht_slot ty (dict_get_ht d1 (target_ht d1)) key
     | Some ref \<Rightarrow> \<exists>v. ref_entry d1 ref (key, v) \<and> dict_map d1 key = Some v"
    using tables_find_ok[OF ty d1(2) entries_ht_ok[OF d1(2)], of key] by blast
  then have "dictFind ty d key = Inr (d1, r)" using False d1(1) by (simp add: dictFind_def)
  then show ?thesis using f(2) d1(2,3) ty by (cases r) (auto simp: dict_rep_def)
qed

lemma dictFetchValue_ok:
  assumes "dict_rep ty d"
  shows "\<exists>d'. dictFetchValue ty d key = Inr (d', dict_map d key) \<and> dict_rep ty d' \<and> dict_map d' = dict_map d"
proof -
  obtain d' r where f: "dictFind ty d key = Inr (d', r)" "dict_rep ty d'" "dict_map d' = dict_map d"
    "case r of None \<Rightarrow> dict_map d key = None | Some ref \<Rightarrow> \<exists>v. ref_entry d' ref (key, v) \<and> dict_map d key = Some v"
    using dictFind_ok[OF assms] by blast
  then show ?thesis by (cases r) (auto simp: dictFetchValue_def dictGetVal_ok)
qed

lemma dictGenericDelete_ok:
  fixes d :: "('k, 'v) dict"
  assumes rep: "dict_rep ty d"
  shows "\<exists>d'. dictGenericDelete ty d key = Inr (d', map_option (Pair key) (dict_map d key)) \<and> dict_rep ty d'
    \<and> dict_map d' = (dict_map d)(key := None)"
proof (cases "dictSize d = 0")
  case True
  then have "dict_map d = Map.empty" using dictSize_entries[OF dict_repD(2)[OF rep]] by (simp add: dict_map_def)
  then show ?thesis using True rep by (simp add: dictGenericDelete_def dictSize_def fun_upd_idem)
next
  case False
  note ty = dict_repD(1)[OF rep] and inv = dict_repD(2)[OF rep]
  have ne0: "\<not> (ht_used (d_ht0 d) = 0 \<and> ht_used (d_ht1 d) = 0)" using False by (simp add: dictSize_def)
  obtain d1 where d1: "(if dictIsRehashing d then dictRehashStep ty d else Inr d) = Inr d1" "dict_inv ty d1"
    "dict_map d1 = dict_map d" "mset (dict_entries d1) = mset (dict_entries d)"
    using step_ok[OF inv] by blast
  have "dict_entries d1 \<noteq> []" using False dictSize_entries[OF inv] d1(4) by auto
  then obtain idx r where f: "tables_find ty d1 key = Inr (idx, r)"
    "case r of None \<Rightarrow> dict_map d1 key = None \<and> idx = ht_slot ty (dict_get_ht d1 (target_ht d1)) key
     | Some ref \<Rightarrow> \<exists>v. ref_entry d1 ref (key, v) \<and> dict_map d1 key = Some v"
    using tables_find_ok[OF ty d1(2) entries_ht_ok[OF d1(2)], of key] by blast
  show ?thesis
  proof (cases r)
    case None
    then show ?thesis using f d1 ty ne0 by (auto simp: dictGenericDelete_def dict_rep_def fun_upd_idem)
  next
    case (Some ref)
    then obtain v where v: "ref_entry d1 ref (key, v)" "dict_map d1 key = Some v" using f(2) by auto
    from d1(2) v(1) show ?thesis
    proof (rule ref_entryE)
      fix t i p b assume h: "ref = (t, i, p)" "t \<in> {0, 1}" "ht_ok ty (dict_get_ht d1 t)" "ht_bucket (dict_get_ht d1 t) i = Inr b"
        "p < length b" "b ! p = (key, v)" "\<forall>e \<in> set b. ht_slot ty (dict_get_ht d1 t) (fst e) = i"
      let ?ht = "dict_get_ht d1 t" and ?b = "take p b @ drop (p + 1) b"
      have mb: "mset b = add_mset (key, v) (mset ?b)"
        using id_take_nth_drop[OF h(5)] h(6) by (metis Suc_eq_plus1 mset.simps(2) mset_append union_mset_add_mset_right)
      have s: "\<forall>e \<in> set ?b. ht_slot ty ?ht (fst e) = i" using h(7) by (auto dest: in_set_takeD in_set_dropD)
      have ne: "b \<noteq> []" and len: "length b = Suc (length ?b)" using h(5) by auto
      obtain ht' where n: "ht_set_bucket ?ht i ?b = Inr ht'" "ht_used ht' = ht_used ?ht"
        "let d' = dict_set_ht d1 t (ht'\<lparr>ht_used := ht_used ?ht + length ?b - length b\<rparr>) in
          mset (dict_entries d') + mset b = mset (dict_entries d1) + mset ?b
          \<and> (distinct (map fst (dict_entries d')) \<longrightarrow> dict_inv ty d')"
        using dict_set_bucket_ok[OF d1(2) h(2,3,4) s] ne unfolding Let_def by blast
      define d' where "d' = dict_set_ht d1 t (ht'\<lparr>ht_used := ht_used ht' - 1\<rparr>)"
      have u: "ht_used ?ht + length ?b - length b = ht_used ht' - 1" using n(2) len by simp
      have d': "mset (dict_entries d') + mset b = mset (dict_entries d1) + mset ?b"
        "distinct (map fst (dict_entries d')) \<longrightarrow> dict_inv ty d'"
        using n(3) unfolding u Let_def d'_def by auto
      have "mset (dict_entries d1) = add_mset (key, v) (mset (dict_entries d'))"
        using d'(1) unfolding mb by simp
      note m = map_of_mset_delete[OF this]
      have "dictGenericDelete ty d key = Inr (d', Some (key, v))"
        using ne0 d1(1) f(1) Some h(1,4,6) n(1) by (auto simp: dictGenericDelete_def d'_def)
      then show ?thesis using m d'(2) d1(2,3) v(2) ty by (auto simp: dict_rep_def dict_inv_def dict_map_def)
    qed
  qed
qed

lemma dictDelete_ok:
  assumes "dict_rep ty d"
  shows "\<exists>d'. dictDelete ty d key = Inr (d', dict_map d key \<noteq> None) \<and> dict_rep ty d' \<and> dict_map d' = (dict_map d)(key := None)"
  using dictGenericDelete_ok[OF assms, of key] by (auto simp: dictDelete_def)

interpretation dict_as_map: finite_map_impl "dict_rep ty" dict_map "2 ^ 62"
    "dictAdd cr ty junk" "dictReplace cr ty junk" "dictDelete ty" "dictFetchValue ty" for ty cr junk
proof unfold_locales
  show "dict_rep ty d \<Longrightarrow> finite (dom (dict_map d))" for d :: "('a, 'b) dict"
    by (simp add: dict_map_def finite_dom_map_of)
qed (rule dictAdd_ok dictReplace_ok dictDelete_ok dictFetchValue_ok; assumption)+

text \<open>
  C1. Any sequence of insertions, replacements, deletions and lookups on a dictionary, with the incremental
  rehashing and the expansions it causes, returns without error, keeps the representation invariant and
  answers every request as the finite map of its entries does, as long as fewer than \<open>2 ^ 62\<close> keys are
  stored and the comparison function of the type is equality.
\<close>

theorem dict_refines_map:
  assumes "dict_rep ty d" "card (dom (dict_map d)) + length ops \<le> 2 ^ 62"
  shows "\<exists>d' rs. run_ops (map_step (dictAdd cr ty junk) (dictReplace cr ty junk) (dictDelete ty) (dictFetchValue ty)) d ops
      = Inr (d', rs) \<and> dict_rep ty d' \<and> map_spec_run (dict_map d) ops = (dict_map d', rs)"
  using assms by (rule dict_as_map.run_refines)

lemma dict_rep_create: "dictType_ok ty \<Longrightarrow> dict_rep ty dictCreate" "dict_map dictCreate = Map.empty"
  by (simp_all add: dict_rep_def dict_inv_def dictCreate_def dictInit_def dictIsRehashing_def dict_entries_def dict_map_def)

definition nat_type :: "nat dictType" where
  "nat_type = \<lparr>hashFunction = (\<lambda>k. k), keyCompare = (=)\<rparr>"

lemma nat_type_ok: "dictType_ok nat_type"
  by (simp add: nat_type_def dictType_ok_def)

theorem dict_refines_map_witness:
  "\<exists>d' rs. run_ops (map_step (dictAdd True nat_type 0) (dictReplace True nat_type 0) (dictDelete nat_type) (dictFetchValue nat_type))
      dictCreate [Add 1 (10::nat), Add 1 11, Replace 1 12, Fetch 1, Delete 1, Fetch 1] = Inr (d', rs) \<and> dict_rep nat_type d'
    \<and> rs = [Done True, Done False, Done False, Got (Some 12), Done True, Got None]"
  using dict_refines_map[OF dict_rep_create(1)[OF nat_type_ok], where cr = True and junk = 0 and
      ops = "[Add 1 (10::nat), Add 1 11, Replace 1 12, Fetch 1, Delete 1, Fetch 1]"]
  by (auto simp: dict_rep_create(2))

section \<open>Rehashing ends\<close>

text \<open>Calls of \<open>dictRehash\<close>, as the periodic task of the server makes them, until no work is left.\<close>

fun rehash_calls :: "'k dictType \<Rightarrow> ('k, 'v) dict \<Rightarrow> nat \<Rightarrow> nat \<Rightarrow> (('k, 'v) dict \<times> bool) res" where
  "rehash_calls ty d n 0 = Inr (d, dictIsRehashing d)"
| "rehash_calls ty d n (Suc c) =
     bindE (dictRehash ty d n) (\<lambda>(d', more). if more then rehash_calls ty d' n c else Inr (d', False))"

lemma rehash_calls_ok:
  assumes "dict_inv ty d" "0 < n" "n * 10 < 2 ^ 31"
    and "dictIsRehashing d \<longrightarrow> int (ht_size (d_ht0 d)) - d_rehashidx d < int c"
  shows "\<exists>d'. rehash_calls ty d n c = Inr (d', False) \<and> dict_inv ty d' \<and> \<not> dictIsRehashing d'
    \<and> mset (dict_entries d') = mset (dict_entries d)"
  using assms
proof (induction c arbitrary: d)
  case 0
  then show ?case by (auto simp: dict_inv_rh rh_inv_def)
next
  case (Suc c)
  obtain d1 more where r: "dictRehash ty d n = Inr (d1, more)" "dict_inv ty d1" "mset (dict_entries d1) = mset (dict_entries d)"
    "more = dictIsRehashing d1" "dictIsRehashing d1 \<longrightarrow> dictIsRehashing d \<and> ht_size (d_ht0 d1) = ht_size (d_ht0 d)
       \<and> (0 < n \<longrightarrow> d_rehashidx d < d_rehashidx d1)"
    using dictRehash_ok[OF Suc.prems(1,3)] by blast
  show ?case
  proof (cases "dictIsRehashing d1")
    case False
    then show ?thesis using r by auto
  next
    case True
    then have "dictIsRehashing d1 \<longrightarrow> int (ht_size (d_ht0 d1)) - d_rehashidx d1 < int c"
      using r(5) Suc.prems by auto
    from Suc.IH[OF r(2) Suc.prems(2,3) this] r True show ?thesis by auto
  qed
qed

text \<open>
  C11. Incremental rehashing ends: on a dictionary that is being rehashed, at most one call of
  \<open>dictRehash\<close> more than the old table has buckets completes the work, for every number of
  steps of a call whose tenfold is an \<open>int\<close>; no assertion or bound is violated and the stored map is
  unchanged.
\<close>

theorem dictRehash_terminates:
  assumes "dict_inv ty d" "0 < n" "n * 10 < 2 ^ 31"
  shows "\<exists>d'. rehash_calls ty d n (ht_size (d_ht0 d) + 1) = Inr (d', False) \<and> \<not> dictIsRehashing d'
    \<and> dict_inv ty d' \<and> dict_map d' = dict_map d"
proof -
  have "dictIsRehashing d \<longrightarrow> int (ht_size (d_ht0 d)) - d_rehashidx d < int (ht_size (d_ht0 d) + 1)"
    using assms(1) by (auto simp: dict_inv_rh rh_inv_def)
  from rehash_calls_ok[OF assms this] dict_map_mset[OF _ assms(1)] show ?thesis by metis
qed

definition rehashing_dict :: "(nat, nat) dict" where
  "rehashing_dict = fst (dictExpand \<lparr>d_ht0 = \<lparr>ht_table = Some [[(4, 40)], [(5, 50), (1, 10)], [], []], ht_size = 4, ht_sizemask = 3,
     ht_used = 3\<rparr>, d_ht1 = dictReset, d_rehashidx = - 1, d_iterators = 0\<rparr> 8)"

lemma dictNextPower_8: "dictNextPower 8 = 8"
  by (simp add: dictNextPower_def nextPower_loop.simps)

lemma replicate_8: "replicate 8 x = [x, x, x, x, x, x, x, x]"
  by (simp add: eval_nat_numeral)

lemma rehashing_dict_eq:
  "rehashing_dict = \<lparr>d_ht0 = \<lparr>ht_table = Some [[(4, 40)], [(5, 50), (1, 10)], [], []], ht_size = 4, ht_sizemask = 3, ht_used = 3\<rparr>,
     d_ht1 = \<lparr>ht_table = Some [[], [], [], [], [], [], [], []], ht_size = 8, ht_sizemask = 7, ht_used = 0\<rparr>, d_rehashidx = 0, d_iterators = 0\<rparr>"
  by (simp add: rehashing_dict_def dictExpand_def dictNextPower_8 dictIsRehashing_def Let_def replicate_8)

lemma rehashing_dict_inv: "dict_inv nat_type rehashing_dict"
proof -
  have "dict_inv nat_type \<lparr>d_ht0 = \<lparr>ht_table = Some [[(4, 40::nat)], [(5, 50), (1, 10)], [], []], ht_size = 4, ht_sizemask = 3,
     ht_used = 3\<rparr>, d_ht1 = dictReset, d_rehashidx = - 1, d_iterators = 0\<rparr>"
  proof -
    have "ht_ok nat_type \<lparr>ht_table = Some [[(4, 40::nat)], [(5, 50), (1, 10)], [], []], ht_size = 4, ht_sizemask = 3, ht_used = 3\<rparr>"
      unfolding ht_ok_def
      by (intro exI[of _ "[[(4, 40)], [(5, 50), (1, 10)], [], []]"] exI[of _ 2])
         (auto simp: ht_slot_def nat_type_def less_Suc_eq)
    then show ?thesis by (simp add: dict_inv_def dictIsRehashing_def dict_entries_def ht_entries_def dictReset_def)
  qed
  from dictExpand_ok[OF this, of 8] show ?thesis by (simp add: rehashing_dict_def split: prod.splits)
qed

theorem dictRehash_terminates_witness:
  "dictIsRehashing rehashing_dict \<and>
   (\<exists>d'. rehash_calls nat_type rehashing_dict 1 (ht_size (d_ht0 rehashing_dict) + 1) = Inr (d', False) \<and> \<not> dictIsRehashing d'
     \<and> dict_inv nat_type d' \<and> dict_map d' = dict_map rehashing_dict)"
  using dictRehash_terminates[OF rehashing_dict_inv, of 1] by (simp add: rehashing_dict_eq dictIsRehashing_def)

end
