(* ===== verification/DictScan.thy ===== *)
theory DictScan
  imports DictCorrect "HOL-Library.Word"
begin

text \<open>
  The cursor-based iteration of \<open>dict.c\<close>: bit reversal, one call of \<open>dictScan\<close>, and complete scans of a
  dictionary that changes between the calls. In the order of the reversed bits each call covers an
  interval that starts at its cursor and ends at the next one.
\<close>

unbundle bit_operations_syntax

section \<open>The scan\<close>

function rev_loop :: "nat \<Rightarrow> 64 word \<Rightarrow> 64 word \<Rightarrow> 64 word" where
  "rev_loop s msk v =
     (let s' = s div 2 in
      if s' > 0 then
        let msk' = msk XOR push_bit s' msk in
        rev_loop s' msk' ((drop_bit s' v AND msk') OR (push_bit s' v AND NOT msk'))
      else v)"
  by pat_completeness auto
termination by (relation "measure (\<lambda>(s, _, _). s)") auto

declare rev_loop.simps [simp del]

definition rev64 :: "64 word \<Rightarrow> 64 word" where
  "rev64 v = rev_loop 64 (NOT 0) v"

text \<open>The calls of the two callbacks, in order; the bucket is named by its table and index.\<close>

datatype ('k, 'v) scan_event = ScanBucket nat nat | ScanEntry "'k \<times> 'v"

definition scan_emit :: "bool \<Rightarrow> ('k, 'v) dict \<Rightarrow> nat \<Rightarrow> nat \<Rightarrow> ('k, 'v) scan_event list res" where
  "scan_emit bucketfn d t i =
     bindE (ht_bucket (dict_get_ht d t) i) (\<lambda>b.
       Inr ((if bucketfn then [ScanBucket t i] else []) @ map ScanEntry b))"

text \<open>
  The loop over the expansions of the cursor in the larger table. It visits no index of that table
  twice, so the size of the table bounds its iterations.
\<close>

fun scan_expand ::
    "nat \<Rightarrow> bool \<Rightarrow> ('k, 'v) dict \<Rightarrow> nat \<Rightarrow> 64 word \<Rightarrow> 64 word \<Rightarrow> 64 word \<Rightarrow> (64 word \<times> ('k, 'v) scan_event list) res" where
  "scan_expand 0 bucketfn d t1 m0 m1 v = Inl UndefBehaviour"
| "scan_expand (Suc fuel) bucketfn d t1 m0 m1 v =
     bindE (scan_emit bucketfn d t1 (unat (v AND m1))) (\<lambda>es.
       let v' = (((v OR m0) + 1) AND NOT m0) OR (v AND m0) in
       if v' AND (m0 XOR m1) \<noteq> 0
       then bindE (scan_expand fuel bucketfn d t1 m0 m1 v') (\<lambda>(v'', es'). Inr (v'', es @ es'))
       else Inr (v', es))"

definition ht_mask :: "('k, 'v) dictht \<Rightarrow> 64 word" where
  "ht_mask ht = of_nat (ht_sizemask ht)"

definition scan_advance :: "64 word \<Rightarrow> 64 word \<Rightarrow> 64 word" where
  "scan_advance m0 v = rev64 (rev64 (v OR NOT m0) + 1)"

definition dictScan :: "bool \<Rightarrow> ('k, 'v) dict \<Rightarrow> 64 word \<Rightarrow> (64 word \<times> ('k, 'v) scan_event list) res" where
  "dictScan bucketfn d v =
     (if dictSize d = 0 then Inr (0, [])
      else if \<not> dictIsRehashing d then
        let m0 = ht_mask (d_ht0 d) in
        bindE (scan_emit bucketfn d 0 (unat (v AND m0))) (\<lambda>es. Inr (scan_advance m0 v, es))
      else
        let t0 = (if ht_size (d_ht0 d) > ht_size (d_ht1 d) then 1 else 0); t1 = 1 - t0;
            m0 = ht_mask (dict_get_ht d t0); m1 = ht_mask (dict_get_ht d t1) in
        bindE (scan_emit bucketfn d t0 (unat (v AND m0))) (\<lambda>es0.
        bindE (scan_expand (ht_size (dict_get_ht d t1)) bucketfn d t1 m0 m1 v) (\<lambda>(v', es1).
          Inr (scan_advance m0 v', es0 @ es1))))"

section \<open>Bit reversal\<close>

definition rev_stage :: "nat \<Rightarrow> 64 word \<Rightarrow> 64 word \<Rightarrow> 64 word" where
  "rev_stage s m v = (drop_bit s v AND m) OR (push_bit s v AND NOT m)"

lemma
    rev_loop_stage:
  "0 < s \<Longrightarrow> m' = m XOR push_bit s m \<Longrightarrow> rev_loop (2 * s) m v = rev_loop s m' (rev_stage s m' v)"
  by (subst rev_loop.simps) (simp add: rev_stage_def Let_def)

lemma rev_loop_64:
  "rev_loop 64 (NOT 0) v = rev_loop 32 0x00000000FFFFFFFF (rev_stage 32 0x00000000FFFFFFFF v)"
  "rev_loop 32 (0x00000000FFFFFFFF) v = rev_loop 16 0x0000FFFF0000FFFF (rev_stage 16 0x0000FFFF0000FFFF v)"
  "rev_loop 16 (0x0000FFFF0000FFFF) v = rev_loop 8 0x00FF00FF00FF00FF (rev_stage 8 0x00FF00FF00FF00FF v)"
  "rev_loop 8 (0x00FF00FF00FF00FF) v = rev_loop 4 0x0F0F0F0F0F0F0F0F (rev_stage 4 0x0F0F0F0F0F0F0F0F v)"
  "rev_loop 4 (0x0F0F0F0F0F0F0F0F) v = rev_loop 2 0x3333333333333333 (rev_stage 2 0x3333333333333333 v)"
  "rev_loop 2 (0x3333333333333333) v = rev_loop 1 0x5555555555555555 (rev_stage 1 0x5555555555555555 v)"
  "rev_loop 1 0x5555555555555555 v = v"
  using
    rev_loop_stage[of 32 "0x00000000FFFFFFFF" "NOT 0" v]
    rev_loop_stage[of 16 "0x0000FFFF0000FFFF" "0x00000000FFFFFFFF" v]
    rev_loop_stage[of 8 "0x00FF00FF00FF00FF" "0x0000FFFF0000FFFF" v]
    rev_loop_stage[of 4 "0x0F0F0F0F0F0F0F0F" "0x00FF00FF00FF00FF" v]
    rev_loop_stage[of 2 "0x3333333333333333" "0x0F0F0F0F0F0F0F0F" v]
    rev_loop_stage[of 1 "0x5555555555555555" "0x3333333333333333" v]
  by (simp_all add: rev_loop.simps[of "Suc 0"] mask_numeral)

lemma rev64_stages:
  "rev64 v = rev_stage 1 0x5555555555555555 (rev_stage 2 0x3333333333333333 (rev_stage 4 0x0F0F0F0F0F0F0F0F
     (rev_stage 8 0x00FF00FF00FF00FF (rev_stage 16 0x0000FFFF0000FFFF (rev_stage 32 0x00000000FFFFFFFF v)))))"
  by (simp only: rev64_def rev_loop_64)

lemma bit_rev_stage:
  "n < 64 \<Longrightarrow> bit (rev_stage s m v) n = (if bit m n then bit v (n + s) else s \<le> n \<and> bit v (n - s))"
  by (auto simp: rev_stage_def bit_simps ac_simps)

lemma all_less_64: "(\<forall>n < 64. P n) \<longleftrightarrow> list_all P (0 # 1 # [2..<64])"
proof -
  have "[0..<64] = 0 # 1 # [2..<64]" by (simp add: upt_rec[of 0] upt_rec[of "Suc 0"] numeral_2_eq_2)
  then show ?thesis by (metis (no_types, lifting) atLeastLessThan_iff less_eq_nat.simps(1) list_all_iff set_upt)
qed

lemma rev64_reverse: "rev64 v = word_reverse v"
proof (rule bit_word_eqI)
  fix n assume n: "n < LENGTH(64)"
  have "\<forall>n < 64. bit (rev64 v) n = bit v (63 - n)"
    unfolding all_less_64 rev64_stages
    by (simp add: upt_rec_numeral bit_rev_stage)
  then show "bit (rev64 v) n = bit (word_reverse v) n"
    using n by (simp add: bit_word_reverse_iff)
qed

text \<open>
  The bit reversal of \<open>dict.c\<close>, which swaps halves of halving width under a mask, reverses the 64
  bits of a word.
\<close>

lemma rev64_word_reverse: "rev64 v = word_reverse v \<and> rev64 (rev64 v) = v"
  by (simp add: rev64_reverse)

section \<open>Cursors in reverse order\<close>

text \<open>The place of a cursor or of a hash in the order of the scan.\<close>

definition place :: "64 word \<Rightarrow> nat" where
  "place v = unat (word_reverse v)"

lemma nat_or_mask: "(n::nat) OR mask k = (n div 2 ^ k) * 2 ^ k + (2 ^ k - 1)"
proof -
  have "n OR mask k = push_bit k (drop_bit k n) OR mask k" by (rule bit_eqI) (auto simp: bit_simps)
  also have "\<dots> = push_bit k (drop_bit k n) + mask k"
    by (rule disjunctive_add_eq_or[symmetric]) (rule bit_eqI, auto simp: bit_simps)
  finally show ?thesis by (simp add: push_bit_eq_mult drop_bit_eq_div mask_eq_exp_minus_1)
qed

lemma unat_mask64: "k \<le> 64 \<Longrightarrow> unat (mask k :: 64 word) = mask k"
  by (rule bit_eqI) (auto simp: bit_simps)

lemma word_reverse_or_not_mask:
  "a \<le> 64 \<Longrightarrow> word_reverse ((v :: 64 word) OR NOT (mask a)) = word_reverse v OR mask (64 - a)"
  by (rule bit_word_eqI) (auto simp: bit_simps)

lemma place_less: "place v < 2 ^ 64"
  using unsigned_less[of "word_reverse v"] by (simp add: place_def)

lemma place_scan_advance:
  assumes "a \<le> 64"
  shows "place (scan_advance (mask a) v) = (place v div 2 ^ (64 - a) + 1) * 2 ^ (64 - a) mod 2 ^ 64"
proof -
  have "unat (word_reverse v OR mask (64 - a)) = (place v div 2 ^ (64 - a)) * 2 ^ (64 - a) + (2 ^ (64 - a) - 1)"
    by (simp add: unsigned_or_eq unat_mask64 nat_or_mask place_def)
  then have "Suc (unat (word_reverse v OR mask (64 - a))) = (place v div 2 ^ (64 - a) + 1) * 2 ^ (64 - a)"
    by simp
  moreover have "place (scan_advance (mask a) v) = unat ((word_reverse v OR mask (64 - a)) + 1)"
    by (simp add: place_def scan_advance_def rev64_reverse word_reverse_or_not_mask[OF assms])
  ultimately show ?thesis by (simp add: unat_word_ariths)
qed

lemma place_block:
  assumes "a \<le> 64"
  shows "take_bit a x = take_bit a y \<longleftrightarrow> place x div 2 ^ (64 - a) = place y div 2 ^ (64 - a)"
proof -
  have "take_bit a x = take_bit a y \<longleftrightarrow> drop_bit (64 - a) (word_reverse x) = drop_bit (64 - a) (word_reverse y)"
  proof
    assume *: "take_bit a x = take_bit a y"
    have "bit x i = bit y i" if "i < a" for i using arg_cong[OF *, of "\<lambda>w. bit w i"] that by (simp add: bit_simps)
    then show "drop_bit (64 - a) (word_reverse x) = drop_bit (64 - a) (word_reverse y)"
      by (intro bit_word_eqI) (auto simp: bit_simps)
  next
    assume *: "drop_bit (64 - a) (word_reverse x) = drop_bit (64 - a) (word_reverse y)"
    have "bit x i = bit y i" if "i < a" for i
      using arg_cong[OF *, of "\<lambda>w. bit w (a - 1 - i)"] that assms less_Suc_eq_le[of "63 - i" 63]
      by (auto simp: bit_simps)
    then show "take_bit a x = take_bit a y" by (intro bit_word_eqI) (auto simp: bit_simps)
  qed
  also have "\<dots> \<longleftrightarrow> place x div 2 ^ (64 - a) = place y div 2 ^ (64 - a)"
    unfolding place_def word_unat_eq_iff unfolding unat_drop_bit_eq by (simp only: drop_bit_eq_div)
  finally show ?thesis .
qed

lemma word_reverse_zero [simp]: "word_reverse (0 :: 64 word) = 0"
  by (rule bit_word_eqI) (simp add: bit_simps)

lemma place_0_iff: "place v = 0 \<longleftrightarrow> v = 0"
proof
  assume "place v = 0"
  then have "word_reverse v = 0" by (simp add: place_def unat_eq_0)
  then show "v = 0" by (metis word_rev_rev word_reverse_zero)
next
  assume "v = 0" then show "place v = 0" by (simp add: place_def)
qed

lemma advance_bound:
  fixes v :: "64 word"
  assumes "a \<le> 64"
  defines "e \<equiv> (place v div 2 ^ (64 - a) + 1) * 2 ^ (64 - a)"
  shows "place v < e" "e \<le> 2 ^ 64" "place (scan_advance (mask a) v) = (if e = 2 ^ 64 then 0 else e)"
proof -
  let ?q = "place v div 2 ^ (64 - a)"
  show "place v < e" unfolding e_def by (simp add: dividend_less_div_times)
  have p: "(2::nat) ^ 64 = 2 ^ a * 2 ^ (64 - a)" using assms(1) by (simp flip: power_add)
  have "?q * 2 ^ (64 - a) < 2 ^ a * 2 ^ (64 - a)"
    using place_less[of v] unfolding p by (meson div_times_less_eq_dividend le_less_trans)
  then have "?q + 1 \<le> 2 ^ a" by simp
  then show le: "e \<le> 2 ^ 64" unfolding p e_def by (rule mult_le_mono1)
  show "place (scan_advance (mask a) v) = (if e = 2 ^ 64 then 0 else e)"
    using place_scan_advance[OF assms(1), of v, folded e_def] le by auto
qed

text \<open>A step covers the places from its cursor up to the next one.\<close>

lemma advance_covers:
  assumes "a \<le> 64" "place v \<le> place h"
    and "place (scan_advance (mask a) v) = 0 \<or> place h < place (scan_advance (mask a) v)"
  shows "take_bit a h = take_bit a v"
proof -
  let ?q = "place v div 2 ^ (64 - a)"
  have "place h < (?q + 1) * 2 ^ (64 - a)"
    using advance_bound[OF assms(1), of v] assms(3) place_less[of h] by (auto split: if_splits)
  then have "place h div 2 ^ (64 - a) < ?q + 1" by (simp add: less_mult_imp_div_less)
  moreover have "?q \<le> place h div 2 ^ (64 - a)" by (rule div_le_mono[OF assms(2)])
  ultimately have "place h div 2 ^ (64 - a) = ?q" by simp
  then show ?thesis using place_block[OF assms(1)] by blast
qed

lemma advance_less:
  assumes "a \<le> 64" "scan_advance (mask a) v \<noteq> 0"
  shows "place v < place (scan_advance (mask a) v)"
  using advance_bound[OF assms(1), of v] assms(2) place_0_iff by (auto split: if_splits)

text \<open>The cursor fits the smaller table.\<close>

lemma advance_small:
  assumes "a \<le> 64"
  shows "unat (scan_advance (mask a) v) < 2 ^ a"
proof -
  let ?w = "scan_advance (mask a) v"
  have "2 ^ (64 - a) dvd (place v div 2 ^ (64 - a) + 1) * (2::nat) ^ (64 - a)" by simp
  moreover have "2 ^ (64 - a) dvd (2::nat) ^ 64" by (rule le_imp_power_dvd) simp
  ultimately have "2 ^ (64 - a) dvd place ?w" unfolding place_scan_advance[OF assms] by (rule dvd_mod)
  then have "take_bit (64 - a) (word_reverse ?w) = 0"
    unfolding place_def word_unat_eq_iff unsigned_take_bit_eq by (simp add: take_bit_eq_mod dvd_eq_mod_eq_0)
  then have z: "\<not> bit (word_reverse ?w) i" if "i < 64 - a" for i
    using that by (metis bit_0_eq bit_take_bit_iff bot_apply bot_bool_def)
  have "take_bit a ?w = ?w"
  proof (rule bit_word_eqI)
    fix n assume "n < LENGTH(64)"
    then show "bit (take_bit a ?w) n = bit ?w n"
      using z[of "63 - n"] assms by (cases "n < a") (auto simp: bit_simps)
  qed
  then have "unat ?w mod 2 ^ a = unat ?w" by (metis take_bit_eq_mod unsigned_take_bit_eq)
  then show ?thesis by (metis mod_less_divisor zero_less_numeral zero_less_power)
qed

section \<open>One call\<close>

lemma scan_increment:
  "(((v OR mask a) + 1) AND NOT (mask a)) OR (v AND mask a) = (v :: 64 word) + 2 ^ a"
proof -
  define hi where "hi = v AND NOT (mask a)"
  define lo where "lo = v AND mask a"
  have v: "v = hi + lo"
  proof -
    have "hi + lo = hi OR lo"
      by (rule disjunctive_add_eq_or) (rule bit_word_eqI, auto simp: hi_def lo_def bit_simps)
    also have "\<dots> = v" by (rule bit_word_eqI) (auto simp: hi_def lo_def bit_simps)
    finally show ?thesis by simp
  qed
  have "v OR mask a = hi OR mask a" by (rule bit_word_eqI) (auto simp: hi_def bit_simps)
  also have "\<dots> = hi + mask a"
    by (rule disjunctive_add_eq_or[symmetric]) (rule bit_word_eqI, auto simp: hi_def bit_simps)
  finally have h: "(v OR mask a) + 1 = hi + 2 ^ a" by (simp add: mask_eq_exp_minus_1)
  have "hi = push_bit a (drop_bit a v)" unfolding hi_def by (rule bit_word_eqI) (auto simp: bit_simps)
  then have p: "hi + 2 ^ a = push_bit a (drop_bit a v + 1)" by (simp add: push_bit_eq_mult algebra_simps)
  have b: "\<not> bit (hi + 2 ^ a) i" if "i < a" for i
    unfolding p using that by (simp add: bit_push_bit_iff)
  have n: "(hi + 2 ^ a) AND NOT (mask a) = hi + 2 ^ a"
    by (rule bit_word_eqI) (use b in \<open>auto simp: bit_and_iff bit_not_iff bit_mask_iff\<close>)
  have "(hi + 2 ^ a) AND lo = 0"
    by (rule bit_word_eqI) (use b in \<open>auto simp: bit_and_iff bit_mask_iff lo_def\<close>)
  then have "(hi + 2 ^ a) OR lo = hi + 2 ^ a + lo" by (rule disjunctive_add_eq_or[symmetric])
  moreover have "hi + 2 ^ a + lo = v + 2 ^ a" by (subst v) (simp add: ac_simps)
  ultimately show ?thesis unfolding h n lo_def[symmetric] by simp
qed

lemma scan_mid_zero:
  "a \<le> b \<Longrightarrow> (v :: 64 word) AND (mask a XOR mask b) = 0 \<longleftrightarrow> unat (take_bit b v) div 2 ^ a = 0"
proof -
  assume "a \<le> b"
  have "v AND (mask a XOR mask b) = 0 \<longleftrightarrow> drop_bit a (take_bit b v) = 0"
  proof
    assume *: "v AND (mask a XOR mask b) = 0"
    have "\<not> bit v i" if "a \<le> i" "i < b" for i
      using arg_cong[OF *, of "\<lambda>w. bit w i"] that bit_imp_le_length[of v i] by (auto simp: bit_simps)
    then show "drop_bit a (take_bit b v) = 0" by (intro bit_word_eqI) (auto simp: bit_simps)
  next
    assume *: "drop_bit a (take_bit b v) = 0"
    have "\<not> bit v i" if "a \<le> i" "i < b" for i
      using arg_cong[OF *, of "\<lambda>w. bit w (i - a)"] that by (simp add: bit_simps)
    then show "v AND (mask a XOR mask b) = 0" using \<open>a \<le> b\<close>
      by (intro bit_word_eqI) (auto simp: bit_simps not_less[symmetric])
  qed
  also have "\<dots> \<longleftrightarrow> unat (take_bit b v) div 2 ^ a = 0"
    unfolding word_unat_eq_iff unat_drop_bit_eq by (simp only: drop_bit_eq_div unat_0)
  finally show ?thesis .
qed

lemma unat_take_bit: "unat (take_bit b (w :: 64 word)) = unat w mod 2 ^ b"
  unfolding unsigned_take_bit_eq by (rule take_bit_eq_mod)

lemma unat_take_bit_add:
  assumes b: "b \<le> 64" and a: "a < 64"
  shows "unat (take_bit b ((v :: 64 word) + 2 ^ a)) = (unat (take_bit b v) + 2 ^ a) mod 2 ^ b"
proof -
  have "(2::nat) ^ a < 2 ^ 64" using a by (intro power_strict_increasing) auto
  then have p: "unat (2 ^ a :: 64 word) = 2 ^ a" using unat_of_nat[of "2 ^ a", where 'a = 64] by simp
  have d: "(2::nat) ^ b dvd 2 ^ 64" using b by (rule le_imp_power_dvd)
  have "unat (v + 2 ^ a) = (unat v + 2 ^ a) mod 2 ^ 64" by (simp add: unat_word_ariths p)
  then have "unat (take_bit b (v + 2 ^ a)) = (unat v + 2 ^ a) mod 2 ^ b"
    unfolding unat_take_bit by (simp only: mod_mod_cancel[OF d])
  then show ?thesis by (simp add: unat_take_bit mod_add_left_eq)
qed

lemma scan_emit_ok:
  assumes "ht_ok ty (dict_get_ht d t)" "i < ht_size (dict_get_ht d t)"
  shows "\<exists>es. scan_emit bf d t i = Inr es \<and>
    (\<forall>e \<in> set (ht_entries (dict_get_ht d t)). ht_slot ty (dict_get_ht d t) (fst e) = i \<longrightarrow> ScanEntry e \<in> set es)"
proof -
  obtain b where b: "ht_bucket (dict_get_ht d t) i = Inr b" using ht_bucket_ok[OF assms] by blast
  have "e \<in> set b" if "e \<in> set (ht_entries (dict_get_ht d t))" "ht_slot ty (dict_get_ht d t) (fst e) = i" for e
    using ht_entry_slot[OF assms(1) that(1)] that(2) b by auto
  then show ?thesis using b by (auto simp: scan_emit_def)
qed

lemma scan_next_index:
  fixes x a b :: nat
  assumes "x < 2 ^ b" "a \<le> b"
  defines "y \<equiv> (x + 2 ^ a) mod 2 ^ b"
  shows "y mod 2 ^ a = x mod 2 ^ a"
    and "y div 2 ^ a \<noteq> 0 \<Longrightarrow> y = x + 2 ^ a"
    and "y div 2 ^ a = 0 \<Longrightarrow> 2 ^ b \<le> x + 2 ^ a"
proof -
  have d: "(2::nat) ^ a dvd 2 ^ b" using assms(2) by (rule le_imp_power_dvd)
  show "y mod 2 ^ a = x mod 2 ^ a" unfolding y_def using mod_mod_cancel[OF d] by simp
  have le: "(2::nat) ^ a \<le> 2 ^ b" using assms(2) by (rule power_increasing) simp
  have lt: "x + 2 ^ a - 2 ^ b < 2 ^ a" using assms(1) zero_less_power[of "2::nat" a] by linarith
  then have "x + 2 ^ a - 2 ^ b < 2 ^ b" using le by (rule less_le_trans)
  then have y: "y = (if x + 2 ^ a < 2 ^ b then x + 2 ^ a else x + 2 ^ a - 2 ^ b)"
    unfolding y_def by (auto simp: le_mod_geq)
  show "y div 2 ^ a \<noteq> 0 \<Longrightarrow> y = x + 2 ^ a" using y lt by (auto split: if_splits)
  show "y div 2 ^ a = 0 \<Longrightarrow> 2 ^ b \<le> x + 2 ^ a" using y by (auto simp: div_eq_0_iff split: if_splits)
qed

lemma scan_expand_Suc:
  "scan_expand (Suc fuel) bf d t (mask a) (mask b) v =
     bindE (scan_emit bf d t (unat (take_bit b v))) (\<lambda>es.
       if (v + 2 ^ a) AND (mask a XOR mask b) \<noteq> 0
       then bindE (scan_expand fuel bf d t (mask a) (mask b) (v + 2 ^ a)) (\<lambda>(v'', es'). Inr (v'', es @ es'))
       else Inr (v + 2 ^ a, es))"
  by (simp only: scan_expand.simps Let_def scan_increment take_bit_eq_mask)

lemma scan_expand_ok:
  fixes v :: "64 word"
  assumes ok: "ht_ok ty (dict_get_ht d t)" and size: "ht_size (dict_get_ht d t) = 2 ^ b" and ab: "a \<le> b" "b \<le> 63"
    and fuel: "2 ^ b \<le> unat (take_bit b v) + fuel * 2 ^ a"
  shows "\<exists>v' es. scan_expand fuel bf d t (mask a) (mask b) v = Inr (v', es) \<and> take_bit a v' = take_bit a v \<and>
    (\<forall>e \<in> set (ht_entries (dict_get_ht d t)). let i = ht_slot ty (dict_get_ht d t) (fst e) in
       unat (take_bit b v) \<le> i \<and> i mod 2 ^ a = unat (take_bit b v) mod 2 ^ a \<longrightarrow> ScanEntry e \<in> set es)"
  using fuel
proof (induction fuel arbitrary: v)
  case 0
  moreover have "unat (take_bit b v) < 2 ^ b" by (simp add: unat_take_bit)
  ultimately show ?case by simp
next
  case (Suc fuel)
  let ?ht = "dict_get_ht d t" and ?x = "unat (take_bit b v)" and ?v = "v + 2 ^ a"
  have xlt: "?x < 2 ^ b" by (simp add: unat_take_bit)
  obtain es where es: "scan_emit bf d t ?x = Inr es"
    "\<forall>e \<in> set (ht_entries ?ht). ht_slot ty ?ht (fst e) = ?x \<longrightarrow> ScanEntry e \<in> set es"
    using scan_emit_ok[OF ok] xlt size by metis
  have y: "unat (take_bit b ?v) = (?x + 2 ^ a) mod 2 ^ b" using ab by (intro unat_take_bit_add) auto
  note nx = scan_next_index[OF xlt ab(1), folded y]
  have tb: "take_bit a ?v = take_bit a v"
  proof -
    have "unat (take_bit a ?v) = unat (take_bit a v)"
      using unat_take_bit_add[of a a v] ab by (simp add: unat_take_bit)
    then show ?thesis by (simp add: word_unat_eq_iff)
  qed
  have slot: "ht_slot ty ?ht k < 2 ^ b" for k using ht_slot_less[OF ok] size by metis
  show ?case
  proof (cases "?v AND (mask a XOR mask b) = 0")
    case True
    have "2 ^ b \<le> ?x + 2 ^ a" by (rule nx(3)[OF True[unfolded scan_mid_zero[OF ab(1)]]])
    have "ScanEntry e \<in> set es" if "e \<in> set (ht_entries ?ht)" "?x \<le> ht_slot ty ?ht (fst e)"
      "ht_slot ty ?ht (fst e) mod 2 ^ a = ?x mod 2 ^ a" for e
    proof -
      have "ht_slot ty ?ht (fst e) - ?x < 2 ^ a" "2 ^ a dvd ht_slot ty ?ht (fst e) - ?x"
        using slot[of "fst e"] \<open>2 ^ b \<le> ?x + 2 ^ a\<close> that(2,3) by (auto simp: mod_eq_dvd_iff_nat)
      then have "ht_slot ty ?ht (fst e) = ?x" using that(2) by (metis diff_is_0_eq' dvd_imp_le le_antisym not_le zero_less_diff)
      then show ?thesis using es(2) that(1) by blast
    qed
    then show ?thesis using es(1) True tb
      by (auto simp: Let_def scan_expand_Suc simp del: scan_expand.simps)
  next
    case False
    have y': "unat (take_bit b ?v) = ?x + 2 ^ a" by (rule nx(2)[OF False[unfolded scan_mid_zero[OF ab(1)]]])
    then have "2 ^ b \<le> unat (take_bit b ?v) + fuel * 2 ^ a" using Suc.prems by simp
    from Suc.IH[OF this] obtain v' es' where r: "scan_expand fuel bf d t (mask a) (mask b) ?v = Inr (v', es')"
      "take_bit a v' = take_bit a ?v"
      "\<forall>e \<in> set (ht_entries ?ht). let i = ht_slot ty ?ht (fst e) in
       ?x + 2 ^ a \<le> i \<and> i mod 2 ^ a = ?x mod 2 ^ a \<longrightarrow> ScanEntry e \<in> set es'"
      unfolding y' by auto
    have "ScanEntry e \<in> set (es @ es')" if e: "e \<in> set (ht_entries ?ht)" "?x \<le> ht_slot ty ?ht (fst e)"
      "ht_slot ty ?ht (fst e) mod 2 ^ a = ?x mod 2 ^ a" for e
    proof (cases "ht_slot ty ?ht (fst e) = ?x")
      case True then show ?thesis using es(2) e(1) by auto
    next
      case False
      then have "2 ^ a \<le> ht_slot ty ?ht (fst e) - ?x" using e(2,3) by (auto simp: mod_eq_dvd_iff_nat intro!: dvd_imp_le)
      then show ?thesis using r(3) e False by (auto simp: Let_def)
    qed
    then show ?thesis using es(1) r(1,2) False tb
      by (auto simp: Let_def scan_expand_Suc simp del: scan_expand.simps)
  qed
qed

definition small_size :: "('k, 'v) dict \<Rightarrow> nat" where
  "small_size d = (if dictIsRehashing d then min (ht_size (d_ht0 d)) (ht_size (d_ht1 d)) else ht_size (d_ht0 d))"

abbreviation hash_word :: "'k dictType \<Rightarrow> 'k \<Rightarrow> 64 word" where
  "hash_word ty k \<equiv> of_nat (hashFunction ty k)"

lemma ht_ok_masks:
  assumes "ht_ok ty ht"
  obtains a where "a \<le> 63" "ht_size ht = 2 ^ a" "ht_mask ht = mask a"
    "\<And>k. ht_slot ty ht k = unat (take_bit a (hash_word ty k))"
  using assms
proof (rule ht_okE)
  fix k assume h: "k \<le> 63" "ht_size ht = 2 ^ k" "ht_sizemask ht = 2 ^ k - 1"
  have m: "ht_sizemask ht = mask k" using h(3) by (simp add: mask_eq_exp_minus_1)
  then have "ht_mask ht = mask k" by (simp add: ht_mask_def of_nat_mask_eq)
  moreover have "ht_slot ty ht key = unat (take_bit k (hash_word ty key))" for key
  proof -
    have d: "(2::nat) ^ k dvd 2 ^ 64" using h(1) by (intro le_imp_power_dvd) simp
    have "unat (take_bit k (hash_word ty key)) = hashFunction ty key mod 2 ^ 64 mod 2 ^ k"
      using unat_of_nat[of "hashFunction ty key", where 'a = 64] by (simp add: unat_take_bit)
    also have "\<dots> = hashFunction ty key mod 2 ^ k" by (rule mod_mod_cancel[OF d])
    also have "\<dots> = ht_slot ty ht key" by (simp add: ht_slot_def m flip: take_bit_eq_mask take_bit_eq_mod)
    finally show ?thesis by simp
  qed
  ultimately show thesis using that h by blast
qed

lemma scan_advance_cong: "take_bit a w = take_bit a v \<Longrightarrow> scan_advance (mask a) w = scan_advance (mask a) v"
proof -
  assume *: "take_bit a w = take_bit a v"
  have "bit w i = bit v i" if "i < a" for i using arg_cong[OF *, of "\<lambda>w. bit w i"] that by (simp add: bit_simps)
  then have "w OR NOT (mask a) = v OR NOT (mask a)" by (intro bit_word_eqI) (auto simp: bit_simps)
  then show ?thesis by (simp add: scan_advance_def)
qed

lemma unat_and_mask: "unat ((v :: 64 word) AND mask a) = unat (take_bit a v)"
  by (simp add: take_bit_eq_mask)

text \<open>
  A call advances the cursor on the smaller table and emits every entry whose hash agrees with the
  cursor there, provided the cursor does not exceed the smaller table while rehashing.
\<close>

lemma dictScan_ok:
  assumes inv: "dict_inv ty d" and ne: "dictSize d \<noteq> 0"
  shows "\<exists>a es. a \<le> 63 \<and> small_size d = 2 ^ a \<and> dictScan bf d v = Inr (scan_advance (mask a) v, es) \<and>
    ((dictIsRehashing d \<longrightarrow> unat v < small_size d) \<longrightarrow>
      (\<forall>e \<in> set (dict_entries d). take_bit a (hash_word ty (fst e)) = take_bit a v \<longrightarrow> ScanEntry e \<in> set es))"
proof (cases "dictIsRehashing d")
  case False
  have "dict_entries d \<noteq> []" using ne dictSize_entries[OF inv] by auto
  then have ok: "ht_ok ty (d_ht0 d)" by (rule entries_ht_ok[OF inv])
  obtain a where a: "a \<le> 63" "ht_size (d_ht0 d) = 2 ^ a" "ht_mask (d_ht0 d) = mask a"
    "\<And>k. ht_slot ty (d_ht0 d) k = unat (take_bit a (hash_word ty k))" using ht_ok_masks[OF ok] by blast
  have "unat (take_bit a v) < ht_size (d_ht0 d)" using a(2) by (simp add: unat_take_bit)
  then obtain es where es: "scan_emit bf d 0 (unat (take_bit a v)) = Inr es"
    "\<forall>e \<in> set (ht_entries (d_ht0 d)). ht_slot ty (d_ht0 d) (fst e) = unat (take_bit a v) \<longrightarrow> ScanEntry e \<in> set es"
    using scan_emit_ok[of ty d 0, unfolded get_ht_simps, OF ok] by blast
  have "dict_entries d = ht_entries (d_ht0 d)" using inv False by (simp add: dict_inv_rh dict_entries_def)
  then show ?thesis using es a ne False
    by (intro exI[of _ a] exI[of _ es]) (simp add: dictScan_def unat_and_mask small_size_def)
next
  case True
  define t0 :: nat where "t0 = (if ht_size (d_ht0 d) > ht_size (d_ht1 d) then 1 else 0)"
  define t1 where "t1 = 1 - t0"
  have t: "t0 = 0 \<and> t1 = 1 \<or> t0 = 1 \<and> t1 = 0" by (auto simp: t0_def t1_def)
  have ok: "ht_ok ty (dict_get_ht d t0)" "ht_ok ty (dict_get_ht d t1)" using inv True t by (auto simp: dict_inv_rh rh_inv_def)
  obtain a where a: "a \<le> 63" "ht_size (dict_get_ht d t0) = 2 ^ a" "ht_mask (dict_get_ht d t0) = mask a"
    "\<And>k. ht_slot ty (dict_get_ht d t0) k = unat (take_bit a (hash_word ty k))" using ht_ok_masks[OF ok(1)] by blast
  obtain b where b: "b \<le> 63" "ht_size (dict_get_ht d t1) = 2 ^ b" "ht_mask (dict_get_ht d t1) = mask b"
    "\<And>k. ht_slot ty (dict_get_ht d t1) k = unat (take_bit b (hash_word ty k))" using ht_ok_masks[OF ok(2)] by blast
  have sz: "ht_size (dict_get_ht d t0) \<le> ht_size (dict_get_ht d t1)" by (auto simp: t0_def t1_def)
  then have "(2::nat) ^ a \<le> 2 ^ b" by (simp only: a(2) b(2))
  then have ab: "a \<le> b" by simp
  have small: "small_size d = 2 ^ a" using t sz a(2) True by (auto simp: small_size_def)
  have "unat (take_bit a v) < ht_size (dict_get_ht d t0)" using a(2) by (simp add: unat_take_bit)
  then obtain es0 where es0: "scan_emit bf d t0 (unat (take_bit a v)) = Inr es0"
    "\<forall>e \<in> set (ht_entries (dict_get_ht d t0)). ht_slot ty (dict_get_ht d t0) (fst e) = unat (take_bit a v) \<longrightarrow> ScanEntry e \<in> set es0"
    using scan_emit_ok[OF ok(1)] by blast
  have "2 ^ b \<le> unat (take_bit b v) + 2 ^ b * 2 ^ a" by (simp add: trans_le_add2)
  then obtain w es1 where es1: "scan_expand (2 ^ b) bf d t1 (mask a) (mask b) v = Inr (w, es1)" "take_bit a w = take_bit a v"
    "\<forall>e \<in> set (ht_entries (dict_get_ht d t1)). let i = ht_slot ty (dict_get_ht d t1) (fst e) in
       unat (take_bit b v) \<le> i \<and> i mod 2 ^ a = unat (take_bit b v) mod 2 ^ a \<longrightarrow> ScanEntry e \<in> set es1"
    using scan_expand_ok[OF ok(2) b(2) ab b(1)] by blast
  have "dictScan bf d v = Inr (scan_advance (mask a) v, es0 @ es1)"
    using True ne es0(1) es1(1) scan_advance_cong[OF es1(2)] a(3) b(2,3)
    by (simp add: dictScan_def Let_def unat_and_mask t1_def[simplified, symmetric] flip: t0_def)
  moreover have "ScanEntry e \<in> set (es0 @ es1)" if small_v: "unat v < 2 ^ a" and e: "e \<in> set (dict_entries d)"
    and h: "take_bit a (hash_word ty (fst e)) = take_bit a v" for e
  proof (cases "e \<in> set (ht_entries (dict_get_ht d t0))")
    case True
    then show ?thesis using es0(2) a(4) h by auto
  next
    case False
    then have e1: "e \<in> set (ht_entries (dict_get_ht d t1))" using e t by (auto simp: dict_entries_def)
    have d: "(2::nat) ^ a dvd 2 ^ b" using ab by (rule le_imp_power_dvd)
    have v: "unat (take_bit b v) = unat v" using less_le_trans[OF small_v \<open>2 ^ a \<le> 2 ^ b\<close>] by (simp add: unat_take_bit)
    have "unat (hash_word ty (fst e)) mod 2 ^ a = unat v" using arg_cong[OF h, of unat] small_v by (simp add: unat_take_bit)
    then have m: "ht_slot ty (dict_get_ht d t1) (fst e) mod 2 ^ a = unat v"
      by (simp add: b(4) unat_take_bit mod_mod_cancel[OF d])
    then have "unat v \<le> ht_slot ty (dict_get_ht d t1) (fst e)" by (metis mod_less_eq_dividend)
    then have "ScanEntry e \<in> set es1" using es1(3) e1 m v small_v by (auto simp: Let_def)
    then show ?thesis by simp
  qed
  ultimately show ?thesis using a(1) small True by (intro exI[of _ a] exI[of _ "es0 @ es1"]) auto
qed

section \<open>Complete scans\<close>

text \<open>
  A complete scan: a call on each of the states of the dictionary, with the cursor the previous call
  returned, until the cursor is zero. The dictionary may have changed in any way between the calls.
\<close>

inductive complete_scan :: "bool \<Rightarrow> 64 word \<Rightarrow> ('k, 'v) dict list \<Rightarrow> ('k, 'v) scan_event list \<Rightarrow> bool" where
  last: "dictScan bf d v = Inr (0, es) \<Longrightarrow> complete_scan bf v [d] es"
| more: "dictScan bf d v = Inr (v', es) \<Longrightarrow> v' \<noteq> 0 \<Longrightarrow> complete_scan bf v' ds es' \<Longrightarrow> complete_scan bf v (d # ds) (es @ es')"

text \<open>A state that is being rehashed is not smaller than the states before it.\<close>

fun scan_steady :: "('k, 'v) dict list \<Rightarrow> bool" where
  "scan_steady [] \<longleftrightarrow> True"
| "scan_steady (d # ds) \<longleftrightarrow> (\<forall>d' \<in> set ds. dictIsRehashing d' \<longrightarrow> small_size d \<le> small_size d') \<and> scan_steady ds"

lemma dict_mapE:
  assumes "dict_inv ty d" "dict_map d k \<noteq> None"
  obtains x where "(k, x) \<in> set (dict_entries d)" "dict_map d k = Some x" "dictSize d \<noteq> 0"
proof -
  obtain x where x: "dict_map d k = Some x" using assms(2) by auto
  then have "(k, x) \<in> set (dict_entries d)" by (simp add: dict_map_def map_of_SomeD)
  moreover from this have "dictSize d \<noteq> 0" using dictSize_entries[OF assms(1)] by auto
  ultimately show thesis using that x by blast
qed

lemma complete_scan_covers:
  assumes "complete_scan bf v ds es" "\<forall>d \<in> set ds. dict_inv ty d \<and> dict_map d k \<noteq> None" "scan_steady ds"
    and "\<forall>d \<in> set ds. dictIsRehashing d \<longrightarrow> unat v < small_size d" "place v \<le> place (hash_word ty k)"
  shows "\<exists>d \<in> set ds. \<exists>x. dict_map d k = Some x \<and> ScanEntry (k, x) \<in> set es"
  using assms
proof (induction rule: complete_scan.induct)
  case (last bf d v es)
  then obtain x where x: "(k, x) \<in> set (dict_entries d)" "dict_map d k = Some x" "dictSize d \<noteq> 0"
    using dict_mapE[of ty d k] by auto
  from last.prems obtain a es' where a: "a \<le> 63" "dictScan bf d v = Inr (scan_advance (mask a) v, es')"
    "\<forall>e \<in> set (dict_entries d). take_bit a (hash_word ty (fst e)) = take_bit a v \<longrightarrow> ScanEntry e \<in> set es'"
    using dictScan_ok[of ty d bf v] x(3) by auto
  have "place (scan_advance (mask a) v) = 0" using a(2) last.hyps by (simp add: place_0_iff)
  then have "take_bit a (hash_word ty k) = take_bit a v" using advance_covers[of a v "hash_word ty k"] a(1) last.prems by simp
  then show ?case using a(2,3) x last.hyps by auto
next
  case (more bf d v v' es ds es')
  then obtain x where x: "(k, x) \<in> set (dict_entries d)" "dict_map d k = Some x" "dictSize d \<noteq> 0"
    using dict_mapE[of ty d k] by auto
  from more.prems more.hyps obtain a where a: "a \<le> 63" "v' = scan_advance (mask a) v" "small_size d = 2 ^ a"
    "\<forall>e \<in> set (dict_entries d). take_bit a (hash_word ty (fst e)) = take_bit a v \<longrightarrow> ScanEntry e \<in> set es"
    using dictScan_ok[of ty d bf v] x(3) by auto
  show ?case
  proof (cases "place (hash_word ty k) < place v'")
    case True
    then have "take_bit a (hash_word ty k) = take_bit a v" using advance_covers[of a v "hash_word ty k"] a more.prems by simp
    then show ?thesis using a(4) x by auto
  next
    case False
    have "unat v' < small_size d" using advance_small[of a v] a by simp
    then have "\<forall>d \<in> set ds. dictIsRehashing d \<longrightarrow> unat v' < small_size d" using more.prems(2) by force
    then show ?thesis using more.IH more.prems False by auto
  qed
qed

text \<open>
  C2. A complete scan, started at cursor zero and continued until the cursor is zero again, returns every
  key that was in the dictionary at each of its calls, although the dictionary may be rehashed,
  expanded and otherwise changed between the calls; the tables may only not have shrunk when a call
  finds them being rehashed.
\<close>

theorem dictScan_complete:
  assumes "complete_scan bf 0 ds es" "\<forall>d \<in> set ds. dict_inv ty d \<and> dict_map d k \<noteq> None" "scan_steady ds"
  shows "\<exists>d \<in> set ds. \<exists>x. dict_map d k = Some x \<and> ScanEntry (k, x) \<in> set es"
proof (rule complete_scan_covers[OF assms])
  have "0 < small_size d" if "dict_inv ty d" "dictIsRehashing d" for d :: "('a, 'b) dict"
    using that ht_ok_size_pos[of ty "d_ht0 d"] ht_ok_size_pos[of ty "d_ht1 d"]
    by (auto simp: small_size_def dict_inv_rh rh_inv_def)
  then show "\<forall>d \<in> set ds. dictIsRehashing d \<longrightarrow> unat (0 :: 64 word) < small_size d" using assms(2) by auto
  show "place 0 \<le> place (hash_word ty k)" by (simp add: place_def)
qed

lemma dictScan_progress:
  assumes "dict_inv ty d"
  shows "\<exists>v' es. dictScan bf d v = Inr (v', es) \<and> (v' = 0 \<or> place v < place v')"
proof (cases "dictSize d = 0")
  case True
  then show ?thesis by (simp add: dictScan_def)
next
  case False
  then obtain a es where "a \<le> 63" "dictScan bf d v = Inr (scan_advance (mask a) v, es)"
    using dictScan_ok[OF assms] by blast
  then show ?thesis using advance_less[of a v] by auto
qed

lemma complete_scan_exists:
  assumes "\<And>i. dict_inv ty (f i)"
  shows "\<exists>n es. complete_scan bf v (map f [0..<n]) es \<and> n + place v \<le> 2 ^ 64"
  using assms
proof (induction "2 ^ 64 - place v" arbitrary: f v rule: less_induct)
  case less
  obtain v' es where s: "dictScan bf (f 0) v = Inr (v', es)" "v' = 0 \<or> place v < place v'"
    using dictScan_progress[of ty "f 0" bf v] less.prems by blast
  show ?case
  proof (cases "v' = 0")
    case True
    then have "complete_scan bf v (map f [0..<1]) es" using s(1) by (simp add: complete_scan.last)
    then show ?thesis using place_less[of v] by (intro exI[of _ 1] exI[of _ es]) simp
  next
    case False
    then have lt: "place v < place v'" using s(2) by simp
    then have "2 ^ 64 - place v' < 2 ^ 64 - place v" using place_less[of v'] by simp
    from less.hyps[OF this, of "\<lambda>i. f (Suc i)"] less.prems obtain n es' where
      n: "complete_scan bf v' (map (\<lambda>i. f (Suc i)) [0..<n]) es'" "n + place v' \<le> 2 ^ 64" by blast
    have "complete_scan bf v (map f [0..<Suc n]) (es @ es')"
      using complete_scan.more[OF s(1) False n(1)] by (simp add: map_upt_Suc del: upt_Suc)
    then show ?thesis using n(2) lt by (intro exI[of _ "Suc n"] exI[of _ "es @ es'"]) simp
  qed
qed

text \<open>
  C9. A scan ends whatever happens to the dictionary between its calls: on any sequence of well-formed
  states the cursor returns to zero after at most \<open>2 ^ 64\<close> calls, none of which accesses a table out
  of bounds.
\<close>

theorem dictScan_ends:
  assumes "\<And>i. dict_inv ty (f i)"
  shows "\<exists>n es. 0 < n \<and> n \<le> 2 ^ 64 \<and> complete_scan bf 0 (map f [0..<n]) es"
proof -
  obtain n es where n: "complete_scan bf 0 (map f [0..<n]) es" "n + place 0 \<le> 2 ^ 64"
    using complete_scan_exists[of ty f bf 0] assms by blast
  moreover have "0 < n" using n(1) by (cases n) (auto elim: complete_scan.cases)
  ultimately show ?thesis by auto
qed

section \<open>A scan of a table that shrinks\<close>

definition sparse_dict :: "(nat, nat) dict" where
  "sparse_dict = \<lparr>d_ht0 = \<lparr>ht_table = Some [[], [], [], [], [(4, 40)], [], [], [], [], [], [], [], [], [], [], []],
     ht_size = 16, ht_sizemask = 15, ht_used = 1\<rparr>, d_ht1 = dictReset, d_rehashidx = - 1, d_iterators = 0\<rparr>"

definition shrinking_dict :: "(nat, nat) dict" where
  "shrinking_dict = fst (dictResize True sparse_dict)"

lemma shrinking_dict_eq:
  "shrinking_dict = sparse_dict\<lparr>d_ht1 := \<lparr>ht_table = Some [[], [], [], []], ht_size = 4, ht_sizemask = 3, ht_used = 0\<rparr>, d_rehashidx := 0\<rparr>"
proof -
  have "dictNextPower 4 = 4" by (simp add: dictNextPower_def nextPower_loop.simps)
  moreover have "replicate 4 [] = [[], [], [], [] :: (nat \<times> nat) list]" by (simp add: eval_nat_numeral)
  ultimately show ?thesis
    by (simp add: shrinking_dict_def dictResize_def dictExpand_def sparse_dict_def dictIsRehashing_def s32_def to_size_def)
qed

lemma sparse_dict_inv: "dict_inv nat_type sparse_dict" "dict_map sparse_dict 4 = Some 40"
proof -
  have "ht_ok nat_type (d_ht0 sparse_dict)"
    unfolding ht_ok_def
    by (intro exI[of _ "[[], [], [], [], [(4, 40)], [], [], [], [], [], [], [], [], [], [], []]"] exI[of _ 4])
       (auto simp: ht_slot_def nat_type_def less_Suc_eq sparse_dict_def nth_Cons split: nat.splits)
  then show "dict_inv nat_type sparse_dict" "dict_map sparse_dict 4 = Some 40"
    by (simp_all add: dict_inv_def dictIsRehashing_def dict_entries_def ht_entries_def dictReset_def sparse_dict_def dict_map_def)
qed

lemma scan_advance_eqI: "v OR NOT m = x \<Longrightarrow> rev64 x = y \<Longrightarrow> rev64 (y + 1) = w \<Longrightarrow> scan_advance m v = w"
  by (simp add: scan_advance_def)

lemma rev64_values:
  "rev64 0xFFFFFFFFFFFFFFF0 = 0x0FFFFFFFFFFFFFFF" "rev64 0x1000000000000000 = 8"
  "rev64 0xFFFFFFFFFFFFFFFC = 0x3FFFFFFFFFFFFFFF" "rev64 0x4000000000000000 = 2"
  "rev64 0xFFFFFFFFFFFFFFFE = 0x7FFFFFFFFFFFFFFF" "rev64 0x8000000000000000 = 1"
  "rev64 0xFFFFFFFFFFFFFFFD = 0xBFFFFFFFFFFFFFFF" "rev64 0xC000000000000000 = 3"
  by (simp_all add: rev64_stages rev_stage_def)

lemma rev64_ones: "rev64 (- 1) = - 1"
  unfolding rev64_reverse by (rule bit_word_eqI) (simp add: bit_simps)

lemma scan_cursors:
  "scan_advance 15 0 = 8" "scan_advance 3 16 = 2" "scan_advance 3 18 = 1" "scan_advance 3 17 = 3" "scan_advance 3 19 = 0"
proof -
  show "scan_advance 15 0 = 8"
    by (rule scan_advance_eqI[OF _ rev64_values(1)]) (simp_all add: rev64_values(2))
  show "scan_advance 3 16 = 2"
    by (rule scan_advance_eqI[OF _ rev64_values(3)]) (simp_all add: rev64_values(4))
  show "scan_advance 3 18 = 1"
    by (rule scan_advance_eqI[OF _ rev64_values(5)]) (simp_all add: rev64_values(6))
  show "scan_advance 3 17 = 3"
    by (rule scan_advance_eqI[OF _ rev64_values(7)]) (simp_all add: rev64_values(8))
  show "scan_advance 3 19 = 0"
    by (rule scan_advance_eqI[OF _ rev64_ones]) (simp_all add: rev64_reverse)
qed

lemma scan_sparse: "dictScan False sparse_dict 0 = Inr (8, [])"
  by (simp add: dictScan_def sparse_dict_def dictSize_def dictReset_def dictIsRehashing_def ht_mask_def scan_emit_def ht_bucket_def scan_cursors)

lemmas scan_expand_numeral = scan_expand.simps(2)[of "pred_numeral k" for k, folded numeral_eq_Suc]

lemma shrinking_state:
  "dictSize shrinking_dict = 1" "dictIsRehashing shrinking_dict" "ht_size (d_ht0 shrinking_dict) = 16"
  "ht_size (d_ht1 shrinking_dict) = 4" "ht_mask (d_ht0 shrinking_dict) = 15" "ht_mask (d_ht1 shrinking_dict) = 3"
  by (simp_all add: shrinking_dict_eq sparse_dict_def dictSize_def dictIsRehashing_def ht_mask_def)

lemma shrinking_buckets:
  "i \<in> {0, 1, 2, 3} \<Longrightarrow> scan_emit False shrinking_dict 1 i = Inr []"
  "i \<in> {1, 2, 3, 5, 6, 7, 8, 9, 10, 11, 12, 13, 14, 15} \<Longrightarrow> scan_emit False shrinking_dict 0 i = Inr []"
  by (auto simp: shrinking_dict_eq sparse_dict_def scan_emit_def ht_bucket_def)

lemma scan_shrinking:
  "dictScan False shrinking_dict 8 = Inr (2, [])"
  "dictScan False shrinking_dict 2 = Inr (1, [])"
  "dictScan False shrinking_dict 1 = Inr (3, [])"
  "dictScan False shrinking_dict 3 = Inr (0, [])"
  by (simp_all add: dictScan_def shrinking_state shrinking_buckets[simplified] scan_expand_numeral scan_cursors)

lemma shrinking_dict_inv: "dict_inv nat_type shrinking_dict" "dict_map shrinking_dict 4 = Some 40"
proof -
  have "dict_inv nat_type (fst (dictExpand sparse_dict 4)) \<and> dict_entries (fst (dictExpand sparse_dict 4)) = dict_entries sparse_dict"
    using dictExpand_ok[OF sparse_dict_inv(1), of 4] by (auto split: prod.splits)
  moreover have "shrinking_dict = fst (dictExpand sparse_dict 4)"
    by (simp add: shrinking_dict_def dictResize_def sparse_dict_def dictIsRehashing_def s32_def to_size_def)
  ultimately show "dict_inv nat_type shrinking_dict" "dict_map shrinking_dict 4 = Some 40"
    using sparse_dict_inv(2) by (simp_all add: dict_map_def)
qed

text \<open>
  C10. A scan can miss a key when the table shrinks: on a dictionary with the single key 4 in 16 buckets,
  one call followed by \<open>dictResize\<close> and by the remaining calls while the rehashing is in progress is a
  complete scan that returns nothing, although the key is in the dictionary all the time. The inner
  loop of \<open>dictScan\<close> does not visit the expansions below a cursor that comes from the larger table, so the
  guarantee stated above the function (all elements present are returned) does not hold.
\<close>

theorem dictScan_shrink_misses:
  "complete_scan False 0 [sparse_dict, shrinking_dict, shrinking_dict, shrinking_dict, shrinking_dict] []
   \<and> shrinking_dict = fst (dictResize True sparse_dict)
   \<and> dict_inv nat_type sparse_dict \<and> dict_map sparse_dict 4 = Some 40
   \<and> dict_inv nat_type shrinking_dict \<and> dict_map shrinking_dict 4 = Some 40"
proof -
  have "complete_scan False 3 [shrinking_dict] []" by (rule complete_scan.last[OF scan_shrinking(4)])
  from complete_scan.more[OF scan_shrinking(3) _ this]
  have "complete_scan False 1 [shrinking_dict, shrinking_dict] []" by simp
  from complete_scan.more[OF scan_shrinking(2) _ this]
  have "complete_scan False 2 [shrinking_dict, shrinking_dict, shrinking_dict] []" by simp
  from complete_scan.more[OF scan_shrinking(1) _ this]
  have "complete_scan False 8 [shrinking_dict, shrinking_dict, shrinking_dict, shrinking_dict] []" by simp
  from complete_scan.more[OF scan_sparse _ this]
  show ?thesis using sparse_dict_inv shrinking_dict_inv by (simp add: shrinking_dict_def)
qed

lemma scan_static:
  assumes "dict_inv ty d"
  shows "\<exists>n es. complete_scan bf 0 (replicate n d) es"
  using complete_scan_exists[of ty "\<lambda>_. d" bf 0] assms by (auto simp: map_replicate_trivial)

theorem dictScan_complete_witness:
  "\<exists>n es. complete_scan False 0 (replicate n rehashing_dict) es \<and> ScanEntry (5, 50) \<in> set es"
proof -
  obtain n es where n: "complete_scan False 0 (replicate n rehashing_dict) es" using scan_static[OF rehashing_dict_inv] by blast
  have m: "dict_map rehashing_dict 5 = Some 50" by (simp add: rehashing_dict_eq dict_map_def dict_entries_def ht_entries_def)
  have "scan_steady (replicate n rehashing_dict)" by (induction n) auto
  then show ?thesis using dictScan_complete[OF n, of nat_type 5] rehashing_dict_inv m n by auto
qed

theorem dictScan_ends_witness:
  "\<exists>n es. 0 < n \<and> n \<le> 2 ^ 64 \<and> complete_scan True 0 (map (\<lambda>i. if even i then sparse_dict else shrinking_dict) [0..<n]) es"
  by (rule dictScan_ends[of nat_type]) (simp add: sparse_dict_inv shrinking_dict_inv)

end
