(* ===== verification/DictIter.thy ===== *)
theory DictIter
  imports DictCorrect "HOL-Library.Word"
begin

text \<open>
  The other walks over a dictionary of \<open>dict.c\<close>: safe and unsafe iterators with their fingerprint,
  release of the whole table, random keys and sampling. What \<open>random()\<close> and the addresses of the tables
  are is left open.
\<close>

unbundle bit_operations_syntax

section \<open>Fingerprint\<close>

text \<open>Tomas Wang's integer hash; \<open>long long\<close> wraps around and its right shift is arithmetic.\<close>

definition wang_step :: "64 word \<Rightarrow> 64 word" where
  "wang_step h =
     (let h1 = NOT h + push_bit 21 h;
          h2 = h1 XOR signed_drop_bit 24 h1;
          h3 = (h2 + push_bit 3 h2) + push_bit 8 h2;
          h4 = h3 XOR signed_drop_bit 14 h3;
          h5 = (h4 + push_bit 2 h4) + push_bit 4 h4;
          h6 = h5 XOR signed_drop_bit 28 h5
      in h6 + push_bit 31 h6)"

text \<open>
  \<open>addr\<close> gives the addresses of the two table arrays. The integers are of type \<open>long long\<close>; the additions
  and shifts of \<open>dictFingerprint\<close> that leave its range, which the C standard does not define, wrap around
  here, as they do on the machine. Only equality of fingerprints matters.
\<close>

definition dictFingerprint :: "(nat \<Rightarrow> 64 word) \<Rightarrow> ('k, 'v) dict \<Rightarrow> 64 word" where
  "dictFingerprint addr d =
     foldl (\<lambda>hash x. wang_step (hash + x)) 0
       [addr 0, of_nat (ht_size (d_ht0 d)), of_nat (ht_used (d_ht0 d)),
        addr 1, of_nat (ht_size (d_ht1 d)), of_nat (ht_used (d_ht1 d))]"

section \<open>Iterators\<close>

text \<open>
  The pointers \<open>entry\<close> and \<open>nextEntry\<close> into a chain are the chain from that entry on, \<open>[]\<close> is \<open>NULL\<close>.
  The dictionary an iterator points to is passed along with it.
\<close>

record ('k, 'v) dictIterator =
  it_index :: int
  it_table :: nat
  it_safe :: bool
  it_entry :: "('k \<times> 'v) list"
  it_nextEntry :: "('k \<times> 'v) list"
  it_fingerprint :: "64 word"

definition dictGetIterator :: "64 word \<Rightarrow> ('k, 'v) dictIterator" where
  "dictGetIterator junk = \<lparr>it_index = - 1, it_table = 0, it_safe = False, it_entry = [], it_nextEntry = [], it_fingerprint = junk\<rparr>"

definition dictGetSafeIterator :: "64 word \<Rightarrow> ('k, 'v) dictIterator" where
  "dictGetSafeIterator junk = (dictGetIterator junk)\<lparr>it_safe := True\<rparr>"

definition iter_first :: "(nat \<Rightarrow> 64 word) \<Rightarrow> ('k, 'v) dict \<Rightarrow> ('k, 'v) dictIterator \<Rightarrow> ('k, 'v) dict \<times> ('k, 'v) dictIterator" where
  "iter_first addr d it =
     (if it_index it = - 1 \<and> it_table it = 0
      then if it_safe it then (d\<lparr>d_iterators := d_iterators d + 1\<rparr>, it)
           else (d, it\<lparr>it_fingerprint := dictFingerprint addr d\<rparr>)
      else (d, it))"

text \<open>The next bucket: table and index, or the end.\<close>

definition iter_bucket :: "('k, 'v) dict \<Rightarrow> ('k, 'v) dictIterator \<Rightarrow> (nat \<times> int) option" where
  "iter_bucket d it =
     (let i = it_index it + 1 in
      if i \<ge> int (ht_size (dict_get_ht d (it_table it)))
      then if dictIsRehashing d \<and> it_table it = 0 then Some (1, 0) else None
      else Some (it_table it, i))"

definition iter_todo :: "('k, 'v) dict \<Rightarrow> ('k, 'v) dictIterator \<Rightarrow> nat" where
  "iter_todo d it =
     2 * ((if it_table it = 0 then ht_size (d_ht1 d) + 2 else 0) + nat (int (ht_size (dict_get_ht d (it_table it))) - it_index it))
     + (if it_entry it = [] then 0 else 1)"

lemma iter_first_keeps:
  "iter_first addr d it = (d', it') \<Longrightarrow> d_ht0 d' = d_ht0 d"
  "iter_first addr d it = (d', it') \<Longrightarrow> d_ht1 d' = d_ht1 d"
  "iter_first addr d it = (d', it') \<Longrightarrow> d_rehashidx d' = d_rehashidx d"
  "iter_first addr d it = (d', it') \<Longrightarrow> it_index it' = it_index it"
  "iter_first addr d it = (d', it') \<Longrightarrow> it_table it' = it_table it"
  "iter_first addr d it = (d', it') \<Longrightarrow> it_safe it' = it_safe it"
  by (auto simp: iter_first_def split: if_splits)

function dictNext ::
    "(nat \<Rightarrow> 64 word) \<Rightarrow> ('k, 'v) dict \<Rightarrow> ('k, 'v) dictIterator \<Rightarrow>
     (('k, 'v) dict \<times> ('k, 'v) dictIterator \<times> ('k \<times> 'v) option) res" where
  "dictNext addr d it =
     (if it_entry it = [] then
        case iter_first addr d it of (d1, it1) \<Rightarrow>
          (case iter_bucket d1 it1 of
             None \<Rightarrow> Inr (d1, it1\<lparr>it_index := it_index it1 + 1\<rparr>, None)
           | Some (t, i) \<Rightarrow>
               bindE (ht_bucket (dict_get_ht d1 t) (nat i)) (\<lambda>b.
                 let it2 = it1\<lparr>it_table := t, it_index := i, it_entry := b\<rparr> in
                 if b \<noteq> [] then Inr (d1, it2\<lparr>it_nextEntry := tl b\<rparr>, Some (hd b))
                 else dictNext addr d1 it2))
      else
        let it1 = it\<lparr>it_entry := it_nextEntry it\<rparr> in
        if it_entry it1 \<noteq> []
        then Inr (d, it1\<lparr>it_nextEntry := tl (it_entry it1)\<rparr>, Some (hd (it_entry it1)))
        else dictNext addr d it1)"
  by pat_completeness auto
termination
proof (relation "measure (\<lambda>(_, d, it). iter_todo d it)", goal_cases)
  case (2 addr d it d1 it1 p t i b it2)
  note k = iter_first_keeps[OF 2(2)[symmetric]]
  show ?case using 2 k
    by (auto simp: iter_todo_def iter_bucket_def dict_get_ht_def Let_def split: if_splits)
next
  case (3 addr d it it1)
  then show ?case by (simp add: iter_todo_def)
qed simp

declare dictNext.simps [simp del]

definition dictReleaseIterator :: "(nat \<Rightarrow> 64 word) \<Rightarrow> ('k, 'v) dict \<Rightarrow> ('k, 'v) dictIterator \<Rightarrow> ('k, 'v) dict res" where
  "dictReleaseIterator addr d it =
     (if \<not> (it_index it = - 1 \<and> it_table it = 0)
      then if it_safe it then Inr (d\<lparr>d_iterators := d_iterators d - 1\<rparr>)
           else if it_fingerprint it = dictFingerprint addr d then Inr d else Inl AssertFail
      else Inr d)"

text \<open>The loop of the callers: entries until \<open>NULL\<close>, then the iterator is released.\<close>

fun iterate :: "nat \<Rightarrow> (nat \<Rightarrow> 64 word) \<Rightarrow> ('k, 'v) dict \<Rightarrow> ('k, 'v) dictIterator \<Rightarrow> (('k, 'v) dict \<times> ('k \<times> 'v) list) res" where
  "iterate 0 addr d it = Inl UndefBehaviour"
| "iterate (Suc n) addr d it =
     bindE (dictNext addr d it) (\<lambda>(d', it', r).
       case r of
         None \<Rightarrow> bindE (dictReleaseIterator addr d' it') (\<lambda>d''. Inr (d'', []))
       | Some e \<Rightarrow> bindE (iterate n addr d' it') (\<lambda>(d'', es). Inr (d'', e # es)))"

section \<open>Iteration returns every entry once\<close>

definition ht_buckets :: "('k, 'v) dictht \<Rightarrow> ('k \<times> 'v) list list" where
  "ht_buckets ht = (case ht_table ht of None \<Rightarrow> [] | Some bs \<Rightarrow> bs)"

text \<open>The entries an iterator has still to return.\<close>

definition iter_rest :: "('k, 'v) dict \<Rightarrow> nat \<Rightarrow> int \<Rightarrow> ('k \<times> 'v) list" where
  "iter_rest d t i = concat (drop (nat (i + 1)) (ht_buckets (dict_get_ht d t)))
     @ (if t = 0 \<and> dictIsRehashing d then ht_entries (d_ht1 d) else [])"

definition iter_rem :: "('k, 'v) dict \<Rightarrow> ('k, 'v) dictIterator \<Rightarrow> ('k \<times> 'v) list" where
  "iter_rem d it = (if it_entry it = [] then [] else it_nextEntry it) @ iter_rest d (it_table it) (it_index it)"

definition iter_started :: "('k, 'v) dictIterator \<Rightarrow> bool" where
  "iter_started it \<longleftrightarrow> \<not> (it_index it = - 1 \<and> it_table it = 0)"

text \<open>The state of an iteration over \<open>d0\<close>.\<close>

definition iter_inv :: "(nat \<Rightarrow> 64 word) \<Rightarrow> ('k, 'v) dict \<Rightarrow> ('k, 'v) dict \<Rightarrow> ('k, 'v) dictIterator \<Rightarrow> bool" where
  "iter_inv addr d0 d it \<longleftrightarrow> - 1 \<le> it_index it \<and> (it_table it = 0 \<or> it_table it = 1 \<and> dictIsRehashing d0 \<and> 0 \<le> it_index it)
     \<and> (iter_started it \<or> it_entry it = [])
     \<and> d = (if it_safe it \<and> iter_started it then d0\<lparr>d_iterators := d_iterators d0 + 1\<rparr> else d0)
     \<and> (\<not> it_safe it \<and> iter_started it \<longrightarrow> it_fingerprint it = dictFingerprint addr d0)"

lemma dict_inv_buckets:
  assumes "dict_inv ty d" "t = 0 \<or> t = 1 \<and> dictIsRehashing d"
  shows "length (ht_buckets (dict_get_ht d t)) = ht_size (dict_get_ht d t)"
    "i < ht_size (dict_get_ht d t) \<Longrightarrow> ht_bucket (dict_get_ht d t) i = Inr (ht_buckets (dict_get_ht d t) ! i)"
proof -
  have "dict_get_ht d t = dictReset \<or> ht_ok ty (dict_get_ht d t)"
    using assms by (auto simp: dict_inv_rh rh_inv_def split: if_splits)
  then show "length (ht_buckets (dict_get_ht d t)) = ht_size (dict_get_ht d t)"
    "i < ht_size (dict_get_ht d t) \<Longrightarrow> ht_bucket (dict_get_ht d t) i = Inr (ht_buckets (dict_get_ht d t) ! i)"
    by (auto simp: ht_buckets_def dictReset_def ht_bucket_def elim!: ht_okE)
qed

lemma iter_rest_bucket:
  assumes inv: "dict_inv ty d" and t: "it_table it = 0 \<or> it_table it = 1 \<and> dictIsRehashing d" "- 1 \<le> it_index it"
  shows "case iter_bucket d it of
      None \<Rightarrow> iter_rest d (it_table it) (it_index it) = []
    | Some (t, i) \<Rightarrow> (t = 0 \<or> t = 1 \<and> dictIsRehashing d) \<and> 0 \<le> i \<and> \<not> (i = - 1 \<and> t = 0)
        \<and> (\<exists>b. ht_bucket (dict_get_ht d t) (nat i) = Inr b \<and> iter_rest d (it_table it) (it_index it) = b @ iter_rest d t i)"
proof -
  let ?t = "it_table it" and ?i = "it_index it + 1"
  note b = dict_inv_buckets[OF inv t(1)]
  show ?thesis
  proof (cases "?i \<ge> int (ht_size (dict_get_ht d ?t))")
    case True
    then have r: "iter_rest d ?t (it_index it) = (if ?t = 0 \<and> dictIsRehashing d then ht_entries (d_ht1 d) else [])"
      using b(1) by (simp add: iter_rest_def)
    show ?thesis
    proof (cases "dictIsRehashing d \<and> ?t = 0")
      case T: True
      then have s: "0 < ht_size (d_ht1 d)" using inv ht_ok_size_pos[of ty "d_ht1 d"] by (simp add: dict_inv_rh rh_inv_def)
      note b1 = dict_inv_buckets[OF inv, of 1, unfolded get_ht_simps]
      have e: "ht_entries (d_ht1 d) = ht_buckets (d_ht1 d) ! 0 @ concat (drop 1 (ht_buckets (d_ht1 d)))"
        using s b1(1) T by (cases "ht_buckets (d_ht1 d)") (auto simp: ht_entries_def ht_buckets_def split: option.splits)
      then show ?thesis using r T True b1(2)[of 0] s by (simp add: iter_bucket_def iter_rest_def)
    next
      case False
      then show ?thesis using r True by (auto simp: iter_bucket_def)
    qed
  next
    case False
    then have lt: "nat ?i < ht_size (dict_get_ht d ?t)" using t(2) by linarith
    then have "drop (nat ?i) (ht_buckets (dict_get_ht d ?t)) = ht_buckets (dict_get_ht d ?t) ! nat ?i # drop (Suc (nat ?i)) (ht_buckets (dict_get_ht d ?t))"
      using b(1) by (simp add: Cons_nth_drop_Suc)
    moreover have "nat (?i + 1) = Suc (nat ?i)" using t(2) by simp
    ultimately show ?thesis using b(2)[OF lt] False t
      by (auto simp: iter_bucket_def iter_rest_def)
  qed
qed

lemma iter_first_inv:
  assumes "iter_inv addr d0 d it" "it_entry it = []" "iter_first addr d it = (d1, it1)"
    and "iter_bucket d1 it1 = Some (t, i)" "(t = 0 \<or> t = 1 \<and> dictIsRehashing d0)" "0 \<le> i"
  shows "iter_inv addr d0 d1 (it1\<lparr>it_table := t, it_index := i, it_entry := b\<rparr>)"
    and "iter_inv addr d0 d1 (it1\<lparr>it_table := t, it_index := i, it_entry := b, it_nextEntry := b'\<rparr>)"
  using assms by (auto simp: iter_inv_def iter_first_def iter_started_def split: if_splits)

lemma dict_inv_iterators [simp]:
  "dict_inv ty (d\<lparr>d_iterators := n\<rparr>) = dict_inv ty d" "iter_rest (d\<lparr>d_iterators := n\<rparr>) = iter_rest d"
  by (auto simp: dict_inv_def dictIsRehashing_def dict_entries_def iter_rest_def dict_get_ht_def fun_eq_iff)

lemma dictNext_ok:
  assumes "dict_inv ty d0" "iter_inv addr d0 d it"
  shows "\<exists>d' it' r. dictNext addr d it = Inr (d', it', r) \<and> iter_inv addr d0 d' it' \<and> iter_started it' \<and> it_safe it' = it_safe it \<and>
    (case iter_rem d0 it of [] \<Rightarrow> r = None | e # es \<Rightarrow> r = Some e \<and> iter_rem d0 it' = es)"
  using assms
proof (induction addr d it rule: dictNext.induct)
  case (1 addr d it)
  note inv = "1.prems"(1) and it = "1.prems"(2)
  have inv': "dict_inv ty d" using inv it by (auto simp: iter_inv_def)
  have rest: "iter_rest d = iter_rest d0" "dictIsRehashing d = dictIsRehashing d0"
    using it by (auto simp: iter_inv_def dictIsRehashing_def)
  show ?case
  proof (cases "it_entry it = []")
    case True
    obtain d1 it1 where f: "iter_first addr d it = (d1, it1)" by force
    note k = iter_first_keeps[OF f]
    have d1: "dict_inv ty d1" "iter_rest d1 = iter_rest d0" "dictIsRehashing d1 = dictIsRehashing d0"
      using f inv' rest by (auto simp: iter_first_def dictIsRehashing_def split: if_splits)
    have t: "it_table it1 = 0 \<or> it_table it1 = 1 \<and> dictIsRehashing d1" "- 1 \<le> it_index it1"
      using it k d1(3) by (auto simp: iter_inv_def)
    have rem: "iter_rem d0 it = iter_rest d1 (it_table it1) (it_index it1)" using True k d1(2) by (simp add: iter_rem_def)
    show ?thesis
    proof (cases "iter_bucket d1 it1")
      case None
      then have "iter_rem d0 it = []" using iter_rest_bucket[OF d1(1) t] rem by simp
      moreover have "dictNext addr d it = Inr (d1, it1\<lparr>it_index := it_index it1 + 1\<rparr>, None)"
        using True f None by (subst dictNext.simps) simp
      moreover have "iter_inv addr d0 d1 (it1\<lparr>it_index := it_index it1 + 1\<rparr>)"
        using it f k True by (auto simp: iter_inv_def iter_first_def iter_started_def split: if_splits)
      ultimately show ?thesis using k t by (auto simp: iter_started_def)
    next
      case (Some p)
      obtain t i where p: "p = (t, i)" by force
      with iter_rest_bucket[OF d1(1) t] Some obtain b where b: "t = 0 \<or> t = 1 \<and> dictIsRehashing d0" "0 \<le> i"
        "ht_bucket (dict_get_ht d1 t) (nat i) = Inr b" "iter_rem d0 it = b @ iter_rest d1 t i" "\<not> (i = - 1 \<and> t = 0)"
        using rem d1(3) by auto
      define it2 where "it2 = it1\<lparr>it_table := t, it_index := i, it_entry := b\<rparr>"
      have inv2: "iter_inv addr d0 d1 it2" "iter_inv addr d0 d1 (it2\<lparr>it_nextEntry := b'\<rparr>)" for b'
        using iter_first_inv[OF it True f Some[unfolded p] b(1,2)] by (simp_all add: it2_def)
      show ?thesis
      proof (cases "b = []")
        case N: False
        then have "dictNext addr d it = Inr (d1, it2\<lparr>it_nextEntry := tl b\<rparr>, Some (hd b))"
          using True f Some p b(3) by (subst dictNext.simps) (simp add: it2_def)
        moreover have "iter_rem d0 (it2\<lparr>it_nextEntry := tl b\<rparr>) = tl b @ iter_rest d1 t i"
          using N d1(2) by (simp add: iter_rem_def it2_def)
        ultimately show ?thesis using inv2(2) N b(4,5) k by (cases b) (auto simp: iter_started_def it2_def)
      next
        case N: True
        then have s: "dictNext addr d it = dictNext addr d1 it2"
          using True f Some p b(3) by (subst dictNext.simps) (simp add: it2_def)
        have "iter_rem d0 it2 = iter_rem d0 it" using b(4) N d1(2) by (simp add: iter_rem_def it2_def)
        moreover have "it_safe it2 = it_safe it" using k by (simp add: it2_def)
        moreover have "\<exists>d' it' r. dictNext addr d1 it2 = Inr (d', it', r) \<and> iter_inv addr d0 d' it' \<and> iter_started it' \<and> it_safe it' = it_safe it2 \<and>
            (case iter_rem d0 it2 of [] \<Rightarrow> r = None | e # es \<Rightarrow> r = Some e \<and> iter_rem d0 it' = es)"
          using "1.IH"(1)[OF True f[symmetric] Some p[symmetric] b(3) it2_def _ inv inv2(1)] N p by simp
        ultimately show ?thesis using s by simp
      qed
    qed
  next
    case False
    define it1 where "it1 = it\<lparr>it_entry := it_nextEntry it\<rparr>"
    have inv1: "iter_inv addr d0 d it1" "iter_inv addr d0 d (it1\<lparr>it_nextEntry := b'\<rparr>)" for b'
      using it False by (auto simp: iter_inv_def it1_def iter_started_def)
    have st: "iter_started it" using it False by (auto simp: iter_inv_def)
    show ?thesis
    proof (cases "it_nextEntry it")
      case (Cons e es)
      then have "dictNext addr d it = Inr (d, it1\<lparr>it_nextEntry := es\<rparr>, Some e)"
        using False by (subst dictNext.simps) (simp add: it1_def)
      then show ?thesis using inv1(2)[of es] Cons False st by (auto simp: iter_rem_def it1_def iter_started_def)
    next
      case Nil
      then have "dictNext addr d it = dictNext addr d it1" using False by (subst dictNext.simps) (simp add: it1_def)
      moreover have "iter_rem d0 it1 = iter_rem d0 it" using Nil False by (simp add: iter_rem_def it1_def)
      moreover have "it_safe it1 = it_safe it" by (simp add: it1_def)
      ultimately show ?thesis using "1.IH"(2)[OF False it1_def _ inv inv1(1)] Nil by (simp add: it1_def)
    qed
  qed
qed

lemma dictFingerprint_iterators [simp]: "dictFingerprint addr (d\<lparr>d_iterators := n\<rparr>) = dictFingerprint addr d"
  by (simp add: dictFingerprint_def)

lemma iterate_ok:
  assumes "dict_inv ty d0" "iter_inv addr d0 d it" "length (iter_rem d0 it) < n"
  shows "iterate n addr d it = Inr (d0, iter_rem d0 it)"
  using assms(2,3)
proof (induction n arbitrary: d it)
  case (Suc n)
  obtain d' it' r where s: "dictNext addr d it = Inr (d', it', r)" "iter_inv addr d0 d' it'" "iter_started it'"
    "case iter_rem d0 it of [] \<Rightarrow> r = None | e # es \<Rightarrow> r = Some e \<and> iter_rem d0 it' = es"
    using dictNext_ok[OF assms(1) Suc.prems(1)] by blast
  show ?case
  proof (cases "iter_rem d0 it")
    case Nil
    have "dictReleaseIterator addr d' it' = Inr d0"
      using s(2,3) by (auto simp: dictReleaseIterator_def iter_inv_def iter_started_def)
    then show ?thesis using s(1,4) Nil by simp
  next
    case (Cons e es)
    then show ?thesis using s Suc.IH[OF s(2)] Suc.prems(2) by simp
  qed
qed simp

lemma iter_start:
  assumes "dict_inv ty d" "it \<in> {dictGetIterator junk, dictGetSafeIterator junk}"
  shows "iter_inv addr d d it" "iter_rem d it = dict_entries d"
proof -
  show "iter_inv addr d d it"
    using assms(2) by (auto simp: iter_inv_def iter_started_def dictGetIterator_def dictGetSafeIterator_def)
  show "iter_rem d it = dict_entries d"
    using assms by (auto simp: iter_rem_def iter_rest_def dictGetIterator_def dictGetSafeIterator_def dict_entries_def
        ht_entries_def ht_buckets_def dict_inv_rh dictReset_def split: option.splits if_splits)
qed

text \<open>
  C18. Iterating over a dictionary that is not changed meanwhile, with a safe or an unsafe iterator and
  also in the middle of a rehashing, returns every entry exactly once, in the order of the buckets of
  the two tables; the fingerprint assertion of the release holds and the dictionary is left as it was.
\<close>

theorem dictIterate_entries:
  assumes "dict_inv ty d" "it \<in> {dictGetIterator junk, dictGetSafeIterator junk}"
  shows "iterate (length (dict_entries d) + 1) addr d it = Inr (d, dict_entries d)"
  using iterate_ok[OF assms(1) iter_start(1)[OF assms]] iter_start(2)[OF assms] by (simp del: iterate.simps)

theorem dictIterate_entries_witness:
  "iterate 4 (\<lambda>t. of_nat (16 * t)) rehashing_dict (dictGetSafeIterator 0) = Inr (rehashing_dict, [(4, 40), (5, 50), (1, 10)])"
proof -
  have e: "dict_entries rehashing_dict = [(4, 40), (5, 50), (1, 10)]"
    by (simp add: rehashing_dict_eq dict_entries_def ht_entries_def)
  have n: "length [(4, 40), (5, 50), (1, 10) :: nat \<times> nat] + 1 = 4" by simp
  show ?thesis
    using dictIterate_entries[OF rehashing_dict_inv, of "dictGetSafeIterator 0" 0 "\<lambda>t. of_nat (16 * t)", unfolded e n]
    by simp
qed

section \<open>Clearing\<close>

text \<open>The loop of \<open>_dictClear\<close> frees the chains while entries are counted as used; the freed entries are returned.\<close>

fun clear_loop :: "('k \<times> 'v) list list \<Rightarrow> nat \<Rightarrow> ('k \<times> 'v) list" where
  "clear_loop [] used = []"
| "clear_loop (b # bs) used = (if used > 0 then b @ clear_loop bs (used - length b) else [])"

definition dictClear :: "('k, 'v) dictht \<Rightarrow> ('k \<times> 'v) list \<times> ('k, 'v) dictht" where
  "dictClear ht = (clear_loop (take (ht_size ht) (ht_buckets ht)) (ht_used ht), dictReset)"

definition dictRelease :: "('k, 'v) dict \<Rightarrow> ('k \<times> 'v) list" where
  "dictRelease d = fst (dictClear (d_ht0 d)) @ fst (dictClear (d_ht1 d))"

lemma clear_loop_all: "used = length (concat bs) \<Longrightarrow> clear_loop bs used = concat bs"
  by (induction bs arbitrary: used) auto

text \<open>
  Releasing a dictionary frees each of its entries exactly once: the early exit of the loop when no
  entry is counted any more never leaves an entry behind.
\<close>

lemma dictRelease_frees_all:
  assumes "dict_inv ty d"
  shows "dictRelease d = dict_entries d"
proof -
  have "fst (dictClear ht) = ht_entries ht" if "ht = dictReset \<or> ht_ok ty ht" for ht :: "('a, 'b) dictht"
    using that
  proof
    assume "ht_ok ty ht"
    then show ?thesis by (rule ht_okE) (simp add: dictClear_def ht_buckets_def ht_entries_def clear_loop_all)
  qed (simp add: dictClear_def dictReset_def ht_buckets_def ht_entries_def)
  then show ?thesis using assms
    by (auto simp: dictRelease_def dict_entries_def dict_inv_rh rh_inv_def split: if_splits)
qed

lemma dictRelease_frees_all_witness: "dictRelease rehashing_dict = [(4, 40), (5, 50), (1, 10)]"
  using dictRelease_frees_all[OF rehashing_dict_inv] by (simp add: rehashing_dict_eq dict_entries_def ht_entries_def)

section \<open>Random entries\<close>

text \<open>
  The successive results of \<open>random()\<close> are a list; a loop that needs more of them than the list holds does
  not return (\<open>None\<close>).
\<close>

fun random_bucket :: "(nat \<Rightarrow> ('k \<times> 'v) list res) \<Rightarrow> nat list \<Rightarrow> (('k \<times> 'v) list \<times> nat list) option res" where
  "random_bucket pick [] = Inr None"
| "random_bucket pick (r # rs) =
     bindE (pick r) (\<lambda>he. if he = [] then random_bucket pick rs else Inr (Some (he, rs)))"

definition random_pick :: "('k, 'v) dict \<Rightarrow> nat \<Rightarrow> ('k \<times> 'v) list res" where
  "random_pick d r =
     (if dictIsRehashing d then
        let h = nat (d_rehashidx d) + r mod (ht_size (d_ht0 d) + ht_size (d_ht1 d) - nat (d_rehashidx d)) in
        if h \<ge> ht_size (d_ht0 d) then ht_bucket (d_ht1 d) (h - ht_size (d_ht0 d)) else ht_bucket (d_ht0 d) h
      else ht_bucket (d_ht0 d) (r AND ht_sizemask (d_ht0 d)))"

definition dictGetRandomKey ::
    "'k dictType \<Rightarrow> ('k, 'v) dict \<Rightarrow> nat list \<Rightarrow> (('k, 'v) dict \<times> ('k \<times> 'v) option) option res" where
  "dictGetRandomKey ty d rs =
     (if dictSize d = 0 then Inr (Some (d, None))
      else
        bindE (if dictIsRehashing d then dictRehashStep ty d else Inr d) (\<lambda>d1.
        bindE (random_bucket (random_pick d1) rs) (\<lambda>r.
          case r of
            Some (he, r' # rs') \<Rightarrow> Inr (Some (d1, Some (he ! (r' mod length he))))
          | _ \<Rightarrow> Inr None)))"

lemma random_pick_ok:
  assumes inv: "dict_inv ty d" and ne: "dict_entries d \<noteq> []"
  shows "\<exists>b. random_pick d r = Inr b \<and> set b \<subseteq> set (dict_entries d)"
proof (cases "dictIsRehashing d")
  case True
  define h where "h = nat (d_rehashidx d) + r mod (ht_size (d_ht0 d) + ht_size (d_ht1 d) - nat (d_rehashidx d))"
  have ok: "ht_ok ty (d_ht0 d)" "ht_ok ty (d_ht1 d)" "0 \<le> d_rehashidx d" "d_rehashidx d \<le> int (ht_size (d_ht0 d))"
    using inv True by (auto simp: dict_inv_rh rh_inv_def)
  have "0 < ht_size (d_ht0 d) + ht_size (d_ht1 d) - nat (d_rehashidx d)"
    using ok ht_ok_size_pos[OF ok(2)] by linarith
  then have "r mod (ht_size (d_ht0 d) + ht_size (d_ht1 d) - nat (d_rehashidx d)) < ht_size (d_ht0 d) + ht_size (d_ht1 d) - nat (d_rehashidx d)"
    by (rule mod_less_divisor)
  then have "h < ht_size (d_ht0 d) + ht_size (d_ht1 d)" unfolding h_def by linarith
  then have "h - ht_size (d_ht0 d) < ht_size (d_ht1 d)" if "h \<ge> ht_size (d_ht0 d)" using that by linarith
  then show ?thesis using ht_bucket_ok[OF ok(1), of h] ht_bucket_ok[OF ok(2), of "h - ht_size (d_ht0 d)"] True
    by (cases "h \<ge> ht_size (d_ht0 d)") (auto simp: random_pick_def Let_def h_def[symmetric] dict_entries_def)
next
  case False
  have ok: "ht_ok ty (d_ht0 d)" by (rule entries_ht_ok[OF inv ne])
  have "r AND ht_sizemask (d_ht0 d) < ht_size (d_ht0 d)" using ok by (rule ht_okE) (simp add: and_mask_less_Suc)
  from ht_bucket_ok[OF ok this] False show ?thesis by (auto simp: random_pick_def dict_entries_def)
qed

text \<open>Every entry is in a bucket that some number picks.\<close>

lemma ht_entry_bucket:
  assumes "ht_ok ty ht" "e \<in> set (ht_entries ht)"
  obtains i b where "i < ht_size ht" "ht_bucket ht i = Inr b" "e \<in> set b" "b = the (ht_table ht) ! i"
proof -
  from assms(1) obtain bs k where bs: "ht_table ht = Some bs" "ht_size ht = 2 ^ k" "length bs = 2 ^ k" by (rule ht_okE)
  then obtain b where "b \<in> set bs" "e \<in> set b" using assms(2) by (auto simp: ht_entries_def)
  then obtain i where "i < length bs" "e \<in> set (bs ! i)" by (metis in_set_conv_nth)
  then show ?thesis using bs by (intro that[of i "bs ! i"]) (simp_all add: ht_bucket_def)
qed

lemma random_pick_reaches:
  assumes inv: "dict_inv ty d" and e: "e \<in> set (dict_entries d)"
  shows "\<exists>r b. r < ht_size (d_ht0 d) + ht_size (d_ht1 d) \<and> random_pick d r = Inr b \<and> e \<in> set b"
proof (cases "dictIsRehashing d")
  case True
  define ri where "ri = nat (d_rehashidx d)"
  have ok: "ht_ok ty (d_ht0 d)" "ht_ok ty (d_ht1 d)" "ri \<le> ht_size (d_ht0 d)"
    and empty: "\<forall>i < ri. the (ht_table (d_ht0 d)) ! i = []"
    using inv True by (auto simp: dict_inv_def ri_def)
  have pick: "random_pick d (h - ri) = (if h \<ge> ht_size (d_ht0 d) then ht_bucket (d_ht1 d) (h - ht_size (d_ht0 d)) else ht_bucket (d_ht0 d) h)"
    if h: "ri \<le> h" "h < ht_size (d_ht0 d) + ht_size (d_ht1 d)" for h
  proof -
    have "(h - ri) mod (ht_size (d_ht0 d) + ht_size (d_ht1 d) - ri) = h - ri" using h by (intro mod_less) linarith
    then show ?thesis using True h by (simp add: random_pick_def Let_def flip: ri_def)
  qed
  consider "e \<in> set (ht_entries (d_ht0 d))" | "e \<in> set (ht_entries (d_ht1 d))" using e by (auto simp: dict_entries_def)
  then show ?thesis
  proof cases
    case 1
    obtain i b where i: "i < ht_size (d_ht0 d)" "ht_bucket (d_ht0 d) i = Inr b" "e \<in> set b" "b = the (ht_table (d_ht0 d)) ! i"
      using ht_entry_bucket[OF ok(1) 1] .
    then have "ri \<le> i" using empty by (cases "i < ri") auto
    then show ?thesis using pick[of i] i by (intro exI[of _ "i - ri"] exI[of _ b]) auto
  next
    case 2
    obtain i b where i: "i < ht_size (d_ht1 d)" "ht_bucket (d_ht1 d) i = Inr b" "e \<in> set b"
      using ht_entry_bucket[OF ok(2) 2] .
    then show ?thesis using pick[of "ht_size (d_ht0 d) + i"] ok(3)
      by (intro exI[of _ "ht_size (d_ht0 d) + i - ri"] exI[of _ b]) auto
  qed
next
  case False
  have "dict_entries d \<noteq> []" using e by (metis empty_iff list.set(1))
  then have ok: "ht_ok ty (d_ht0 d)" by (rule entries_ht_ok[OF inv])
  have "e \<in> set (ht_entries (d_ht0 d))" using e inv False by (auto simp: dict_inv_rh dict_entries_def dictReset_def ht_entries_def)
  from ht_entry_bucket[OF ok this] obtain i b where i: "i < ht_size (d_ht0 d)" "ht_bucket (d_ht0 d) i = Inr b" "e \<in> set b" .
  have "i AND ht_sizemask (d_ht0 d) = i" using ok
  proof (rule ht_okE)
    fix bs k assume "ht_size (d_ht0 d) = 2 ^ k" "ht_sizemask (d_ht0 d) = 2 ^ k - 1"
    moreover from this have "i AND (2 ^ k - 1) = take_bit k i" by (simp only: take_bit_eq_mask mask_eq_exp_minus_1)
    ultimately show ?thesis using i(1) by (simp add: take_bit_nat_eq_self)
  qed
  then show ?thesis using i False by (intro exI[of _ i] exI[of _ b]) (simp add: random_pick_def)
qed

lemma ht_bucket_length: "ht_bucket ht i = Inr b \<Longrightarrow> length b \<le> length (ht_entries ht)"
proof -
  assume "ht_bucket ht i = Inr b"
  then obtain bs where bs: "ht_table ht = Some bs" "i < length bs" "b = bs ! i"
    by (auto simp: ht_bucket_def split: option.splits if_splits)
  then have "length b \<in> set (map length bs)" by simp
  from member_le_sum_list[OF this] show ?thesis using bs(1) by (simp add: ht_entries_def length_concat)
qed

lemma random_pick_length: "dict_inv ty d \<Longrightarrow> random_pick d r = Inr b \<Longrightarrow> length b \<le> length (dict_entries d)"
  by (auto simp: random_pick_def Let_def dict_entries_def split: if_splits dest!: ht_bucket_length)

text \<open>What a call does with the numbers it is given: it returns once one of them, not the last, picks a bucket with entries.\<close>

lemma random_bucket_cases:
  assumes pick: "\<And>r. \<exists>b. pick r = Inr b \<and> set b \<subseteq> S"
  shows "if \<forall>r \<in> set (butlast rs). pick r = Inr [] then \<exists>x. random_bucket pick rs = Inr x \<and> (\<forall>he rs'. x = Some (he, rs') \<longrightarrow> rs' = [])
    else \<exists>he r rs'. random_bucket pick rs = Inr (Some (he, r # rs')) \<and> he \<noteq> [] \<and> set he \<subseteq> S"
proof (induction rs)
  case (Cons r rs)
  obtain b where b: "pick r = Inr b" "set b \<subseteq> S" using pick by blast
  show ?case
  proof (cases "b = []")
    case True
    then have "random_bucket pick (r # rs) = random_bucket pick rs" using b by simp
    moreover have "(\<forall>x \<in> set (butlast (r # rs)). pick x = Inr []) \<longleftrightarrow> (\<forall>x \<in> set (butlast rs). pick x = Inr [])"
      using b True by auto
    ultimately show ?thesis using Cons.IH by presburger
  next
    case False
    then show ?thesis using b by (cases rs) auto
  qed
qed simp

text \<open>The choice of an entry from the dictionary after the rehashing step.\<close>

abbreviation random_choice :: "('k, 'v) dict \<Rightarrow> nat list \<Rightarrow> (('k, 'v) dict \<times> ('k \<times> 'v) option) option res" where
  "random_choice d rs \<equiv> bindE (random_bucket (random_pick d) rs) (\<lambda>r. case r of
     Some (he, r' # rs') \<Rightarrow> Inr (Some (d, Some (he ! (r' mod length he)))) | _ \<Rightarrow> Inr None)"

lemma dict_entries_map: "dict_inv ty d \<Longrightarrow> (k, v) \<in> set (dict_entries d) \<longleftrightarrow> dict_map d k = Some v"
  by (metis dict_inv_def dict_map_def map_of_is_SomeI map_of_SomeD)

lemma random_choice_cases:
  assumes inv: "dict_inv ty d" and ne: "dict_entries d \<noteq> []"
  shows "if \<forall>r \<in> set (butlast rs). random_pick d r = Inr [] then random_choice d rs = Inr None
    else \<exists>k v. random_choice d rs = Inr (Some (d, Some (k, v))) \<and> dict_map d k = Some v"
proof -
  have pick: "\<exists>b. random_pick d r = Inr b \<and> set b \<subseteq> set (dict_entries d)" for r by (rule random_pick_ok[OF inv ne])
  note cs = random_bucket_cases[of "random_pick d" "set (dict_entries d)" rs, OF pick]
  show ?thesis
  proof (cases "\<forall>r \<in> set (butlast rs). random_pick d r = Inr []")
    case True
    obtain x where "random_bucket (random_pick d) rs = Inr x" "\<forall>he rs'. x = Some (he, rs') \<longrightarrow> rs' = []"
      using cs unfolding if_P[OF True] by blast
    then have "random_choice d rs = Inr None" by (cases x) auto
    then show ?thesis unfolding if_P[OF True] .
  next
    case F: False
    obtain he r rs' where h: "random_bucket (random_pick d) rs = Inr (Some (he, r # rs'))" "he \<noteq> []" "set he \<subseteq> set (dict_entries d)"
      using cs unfolding if_not_P[OF F] by blast
    obtain k v where kv: "he ! (r mod length he) = (k, v)" by force
    have "(k, v) \<in> set (dict_entries d)" using h(2,3) nth_mem[of "r mod length he" he] kv by auto
    then show ?thesis unfolding if_not_P[OF F] using h(1) kv dict_entries_map[OF inv] by simp
  qed
qed

lemma random_choice_reaches:
  assumes inv: "dict_inv ty d" and kv: "dict_map d k = Some v"
  shows "\<exists>r1 < ht_size (d_ht0 d) + ht_size (d_ht1 d). \<exists>r2 < length (dict_entries d). random_choice d [r1, r2] = Inr (Some (d, Some (k, v)))"
proof -
  have e: "(k, v) \<in> set (dict_entries d)" using kv dict_entries_map[OF inv] by simp
  obtain r1 b where r1: "r1 < ht_size (d_ht0 d) + ht_size (d_ht1 d)" "random_pick d r1 = Inr b" "(k, v) \<in> set b"
    using random_pick_reaches[OF inv e] by blast
  then obtain r2 where r2: "r2 < length b" "b ! r2 = (k, v)" by (metis in_set_conv_nth)
  then show ?thesis using r1 random_pick_length[OF inv r1(2)] by (intro exI[of _ r1] exI[of _ r2] conjI) auto
qed



section \<open>Sampling\<close>

text \<open>
  State of the sampling loop: position, length of the run of empty buckets, entries stored, number of
  calls of \<open>random()\<close> so far. \<open>rnd n\<close> is the result of the \<open>n\<close>-th call.
\<close>

record ('k, 'v) sample =
  sm_i :: nat
  sm_emptylen :: nat
  sm_des :: "('k \<times> 'v) list"
  sm_calls :: nat

definition sample_jump :: "(nat \<Rightarrow> nat) \<Rightarrow> nat \<Rightarrow> ('k, 'v) sample \<Rightarrow> ('k, 'v) sample" where
  "sample_jump rnd maxsizemask s =
     s\<lparr>sm_i := rnd (sm_calls s) AND maxsizemask, sm_emptylen := 0, sm_calls := sm_calls s + 1\<rparr>"

text \<open>The body for table \<open>j\<close>; the flag says that \<open>count\<close> entries are stored and the function returns.\<close>

definition sample_table ::
    "(nat \<Rightarrow> nat) \<Rightarrow> ('k, 'v) dict \<Rightarrow> nat \<Rightarrow> nat \<Rightarrow> nat \<Rightarrow> nat \<Rightarrow> ('k, 'v) sample \<Rightarrow> (('k, 'v) sample \<times> bool) res" where
  "sample_table rnd d cnt maxsizemask tables j s =
     (if tables = 2 \<and> j = 0 \<and> sm_i s < nat (d_rehashidx d)
      then Inr (if sm_i s \<ge> ht_size (d_ht1 d) then s\<lparr>sm_i := nat (d_rehashidx d)\<rparr> else s, False)
      else if sm_i s \<ge> ht_size (dict_get_ht d j) then Inr (s, False)
      else
        bindE (ht_bucket (dict_get_ht d j) (sm_i s)) (\<lambda>he.
          if he = [] then
            let s1 = s\<lparr>sm_emptylen := sm_emptylen s + 1\<rparr> in
            Inr (if sm_emptylen s1 \<ge> 5 \<and> sm_emptylen s1 > cnt then sample_jump rnd maxsizemask s1 else s1, False)
          else
            let room = cnt - length (sm_des s); s1 = s\<lparr>sm_emptylen := 0, sm_des := sm_des s @ take room he\<rparr> in
            Inr (s1, length he \<ge> room)))"

fun sample_loop ::
    "(nat \<Rightarrow> nat) \<Rightarrow> ('k, 'v) dict \<Rightarrow> nat \<Rightarrow> nat \<Rightarrow> nat \<Rightarrow> nat \<Rightarrow> ('k, 'v) sample \<Rightarrow> ('k, 'v) sample res" where
  "sample_loop rnd d cnt maxsizemask tables 0 s = Inr s"
| "sample_loop rnd d cnt maxsizemask tables (Suc maxsteps) s =
     (if length (sm_des s) < cnt then
        bindE (sample_table rnd d cnt maxsizemask tables 0 s) (\<lambda>(s1, full).
          if full then Inr s1
          else
            bindE (if tables = 2 then sample_table rnd d cnt maxsizemask tables 1 s1 else Inr (s1, False)) (\<lambda>(s2, full').
              if full' then Inr s2
              else sample_loop rnd d cnt maxsizemask tables maxsteps (s2\<lparr>sm_i := (sm_i s2 + 1) AND maxsizemask\<rparr>)))
      else Inr s)"

fun sample_rehash :: "'k dictType \<Rightarrow> nat \<Rightarrow> ('k, 'v) dict \<Rightarrow> ('k, 'v) dict res" where
  "sample_rehash ty 0 d = Inr d"
| "sample_rehash ty (Suc j) d =
     (if dictIsRehashing d then bindE (dictRehashStep ty d) (\<lambda>d'. sample_rehash ty j d') else Inr d)"

text \<open>\<open>count\<close> is an \<open>unsigned int\<close>, so \<open>count*10\<close> is taken modulo \<open>2 ^ 32\<close>.\<close>

definition dictGetSomeKeys ::
    "(nat \<Rightarrow> nat) \<Rightarrow> 'k dictType \<Rightarrow> ('k, 'v) dict \<Rightarrow> nat \<Rightarrow> (('k, 'v) dict \<times> ('k \<times> 'v) list) res" where
  "dictGetSomeKeys rnd ty d cnt0 =
     (let cnt = (if dictSize d < cnt0 then dictSize d else cnt0); maxsteps = cnt * 10 mod 2 ^ 32 in
      bindE (sample_rehash ty cnt d) (\<lambda>d1.
        let tables = (if dictIsRehashing d1 then 2 else 1);
            m0 = ht_sizemask (d_ht0 d1);
            maxsizemask = (if tables > 1 \<and> m0 < ht_sizemask (d_ht1 d1) then ht_sizemask (d_ht1 d1) else m0) in
        bindE (sample_loop rnd d1 cnt maxsizemask tables maxsteps
            \<lparr>sm_i = rnd 0 AND maxsizemask, sm_emptylen = 0, sm_des = [], sm_calls = 1\<rparr>) (\<lambda>s.
          Inr (d1, sm_des s))))"

lemma sample_table_ok:
  assumes inv: "dict_inv ty d" and j: "j = 0 \<or> j = 1 \<and> dictIsRehashing d"
    and s: "length (sm_des s) < cnt" "set (sm_des s) \<subseteq> set (dict_entries d)"
  shows "\<exists>s' full. sample_table rnd d cnt msk tables j s = Inr (s', full) \<and> length (sm_des s') \<le> cnt
    \<and> (\<not> full \<longrightarrow> length (sm_des s') < cnt) \<and> set (sm_des s') \<subseteq> set (dict_entries d)"
proof (cases "sm_i s < ht_size (dict_get_ht d j)")
  case True
  have "dict_get_ht d j = dictReset \<or> ht_ok ty (dict_get_ht d j)"
    using inv j by (auto simp: dict_inv_rh rh_inv_def split: if_splits)
  then have ok: "ht_ok ty (dict_get_ht d j)" using True by (auto simp: dictReset_def)
  obtain b where b: "ht_bucket (dict_get_ht d j) (sm_i s) = Inr b" "set b \<subseteq> set (ht_entries (dict_get_ht d j))"
    using ht_bucket_ok[OF ok True] by blast
  have "set b \<subseteq> set (dict_entries d)" using b(2) j by (auto simp: dict_entries_def)
  then have t: "set (take n b) \<subseteq> set (dict_entries d)" for n using set_take_subset by fast
  show ?thesis using s t b(1)
    by (auto simp: sample_table_def sample_jump_def Let_def)
next
  case False
  then show ?thesis using s by (auto simp: sample_table_def)
qed

lemma sample_loop_ok:
  assumes inv: "dict_inv ty d" and t: "tables = (if dictIsRehashing d then 2 else 1)"
    and s: "length (sm_des s) \<le> cnt" "set (sm_des s) \<subseteq> set (dict_entries d)"
  shows "\<exists>s'. sample_loop rnd d cnt msk tables n s = Inr s' \<and> length (sm_des s') \<le> cnt
    \<and> set (sm_des s') \<subseteq> set (dict_entries d)"
  using s
proof (induction n arbitrary: s)
  case (Suc n)
  show ?case
  proof (cases "length (sm_des s) < cnt")
    case True
    obtain s1 f1 where s1: "sample_table rnd d cnt msk tables 0 s = Inr (s1, f1)" "length (sm_des s1) \<le> cnt"
      "\<not> f1 \<longrightarrow> length (sm_des s1) < cnt" "set (sm_des s1) \<subseteq> set (dict_entries d)"
      using sample_table_ok[OF inv _ True Suc.prems(2), of 0 rnd msk tables] by auto
    show ?thesis
    proof (cases f1)
      case True
      then show ?thesis using s1 \<open>length (sm_des s) < cnt\<close> by simp
    next
      case False
      obtain s2 f2 where s2: "(if tables = 2 then sample_table rnd d cnt msk tables 1 s1 else Inr (s1, False)) = Inr (s2, f2)"
        "length (sm_des s2) \<le> cnt" "set (sm_des s2) \<subseteq> set (dict_entries d)"
      proof (cases "dictIsRehashing d")
        case R: True
        then have "\<exists>s2 f2. sample_table rnd d cnt msk tables 1 s1 = Inr (s2, f2) \<and> length (sm_des s2) \<le> cnt
            \<and> set (sm_des s2) \<subseteq> set (dict_entries d)"
          using sample_table_ok[OF inv, of 1 s1 cnt rnd msk tables] s1 False by blast
        then show ?thesis using that t R by auto
      next
        case R: False
        then show ?thesis using that[of s1 False] t s1 by simp
      qed
      show ?thesis
      proof (cases f2)
        case True
        then show ?thesis using True s1(1) s2 False \<open>length (sm_des s) < cnt\<close> by simp
      next
        case F: False
        have "\<exists>s'. sample_loop rnd d cnt msk tables n (s2\<lparr>sm_i := (sm_i s2 + 1) AND msk\<rparr>) = Inr s' \<and> length (sm_des s') \<le> cnt
            \<and> set (sm_des s') \<subseteq> set (dict_entries d)"
          using s2(2,3) by (intro Suc.IH) simp_all
        then show ?thesis using s1(1) s2(1) False F \<open>length (sm_des s) < cnt\<close> by simp
      qed
    qed
  next
    case False
    then show ?thesis using Suc.prems by simp
  qed
qed simp

lemma sample_rehash_ok:
  assumes "dict_inv ty d"
  shows "\<exists>d'. sample_rehash ty n d = Inr d' \<and> dict_inv ty d' \<and> mset (dict_entries d') = mset (dict_entries d)"
  using assms
proof (induction n arbitrary: d)
  case (Suc n)
  obtain d1 where "dictRehashStep ty d = Inr d1" "dict_inv ty d1" "mset (dict_entries d1) = mset (dict_entries d)"
    using dictRehashStep_ok[OF Suc.prems] by blast
  then show ?case using Suc.IH[of d1] Suc.prems by auto
qed simp

text \<open>
  C31. Sampling is safe: whatever \<open>random()\<close> returns, \<open>dictGetSomeKeys\<close> reads only buckets of the tables,
  keeps the invariant and the map, stores at most \<open>count\<close> entries in the array of the caller, and every
  one of them is an entry of the dictionary.
\<close>

theorem dictGetSomeKeys_safe:
  assumes inv: "dict_inv ty d"
  shows "\<exists>d' des. dictGetSomeKeys rnd ty d cnt = Inr (d', des) \<and> dict_inv ty d' \<and> dict_map d' = dict_map d
    \<and> length des \<le> cnt \<and> set des \<subseteq> set (dict_entries d)"
proof -
  define c where "c = (if dictSize d < cnt then dictSize d else cnt)"
  obtain d1 where d1: "sample_rehash ty c d = Inr d1" "dict_inv ty d1" "mset (dict_entries d1) = mset (dict_entries d)"
    using sample_rehash_ok[OF inv] by blast
  define t :: nat where "t = (if dictIsRehashing d1 then 2 else 1)"
  define m where "m = (if t > 1 \<and> ht_sizemask (d_ht0 d1) < ht_sizemask (d_ht1 d1) then ht_sizemask (d_ht1 d1) else ht_sizemask (d_ht0 d1))"
  obtain s where s: "sample_loop rnd d1 c m t (c * 10 mod 2 ^ 32) \<lparr>sm_i = rnd 0 AND m, sm_emptylen = 0, sm_des = [], sm_calls = 1\<rparr> = Inr s"
    "length (sm_des s) \<le> c" "set (sm_des s) \<subseteq> set (dict_entries d1)"
    using sample_loop_ok[OF d1(2) t_def, of "\<lparr>sm_i = rnd 0 AND m, sm_emptylen = 0, sm_des = [], sm_calls = 1\<rparr>" c rnd m "c * 10 mod 2 ^ 32"]
    by (metis empty_subsetI le0 list.set(1) list.size(3) sample.select_convs(3))
  have "dictGetSomeKeys rnd ty d cnt = Inr (d1, sm_des s)"
    using d1(1) s(1) unfolding dictGetSomeKeys_def Let_def c_def[symmetric] by (simp add: t_def[symmetric] m_def split: if_splits)
  moreover have "set (dict_entries d1) = set (dict_entries d)" using d1(3) by (metis set_mset_mset)
  moreover have "c \<le> cnt" by (simp add: c_def)
  ultimately show ?thesis using s d1 dict_map_mset[OF d1(3)[symmetric] inv] by auto
qed

theorem dictGetSomeKeys_safe_witness:
  "\<exists>d' des. dictGetSomeKeys (\<lambda>n. 3 * n) nat_type rehashing_dict 2 = Inr (d', des) \<and> dict_inv nat_type d'
    \<and> dict_map d' = dict_map rehashing_dict \<and> length des \<le> 2 \<and> set des \<subseteq> set (dict_entries rehashing_dict)"
  by (rule dictGetSomeKeys_safe[OF rehashing_dict_inv])

end
