(* ===== verification/Adlist.thy ===== *)
theory Adlist
  imports Prelude
begin

text \<open>
  The doubly linked list of \<open>adlist.c\<close> in an explicit heap of nodes. A node is an address with its three
  fields; reading or writing through \<open>NULL\<close> or through an address that is not allocated is an error.
  \<open>zm h\<close> is the address \<open>zmalloc\<close> returns for a new node in the heap \<open>h\<close>.
\<close>

section \<open>Nodes, lists, iterators\<close>

type_synonym addr = nat

record 'v listNode =
  n_prev :: "addr option"
  n_next :: "addr option"
  n_value :: 'v

type_synonym 'v heap = "addr \<Rightarrow> 'v listNode option"

record 'v alist =
  l_head :: "addr option"
  l_tail :: "addr option"
  l_dup :: "('v \<Rightarrow> 'v option) option"
  l_free :: bool
  l_match :: "('v \<Rightarrow> 'v \<Rightarrow> bool) option"
  l_len :: nat

record listIter =
  i_next :: "addr option"
  i_direction :: int

definition AL_START_HEAD :: int where "AL_START_HEAD = 0"

definition AL_START_TAIL :: int where "AL_START_TAIL = 1"

definition node_at :: "'v heap \<Rightarrow> addr \<Rightarrow> 'v listNode res" where
  "node_at h p = (case h p of None \<Rightarrow> Inl UndefBehaviour | Some n \<Rightarrow> Inr n)"

definition node_upd :: "'v heap \<Rightarrow> addr option \<Rightarrow> ('v listNode \<Rightarrow> 'v listNode) \<Rightarrow> 'v heap res" where
  "node_upd h r f = (case r of
     None \<Rightarrow> Inl NullDeref
   | Some p \<Rightarrow> bindE (node_at h p) (\<lambda>n. Inr (h(p \<mapsto> f n))))"

text \<open>
  \<open>new_list\<close> is the record with the fields \<open>listCreate\<close> sets. The argument of \<open>listCreate\<close> says whether
  \<open>zmalloc\<close> finds room for the record; without it the result is \<open>NULL\<close>.
\<close>

definition new_list :: "'v alist" where
  "new_list = \<lparr>l_head = None, l_tail = None, l_dup = None, l_free = False, l_match = None, l_len = 0\<rparr>"

definition listCreate :: "bool \<Rightarrow> 'v alist option" where
  "listCreate room = (if room then Some new_list else None)"

section \<open>Operations\<close>

text \<open>The loop of \<open>listEmpty\<close>; the third component collects the values given to the free method.\<close>

fun listEmpty_loop :: "'v heap \<Rightarrow> addr option \<Rightarrow> nat \<Rightarrow> ('v heap \<times> 'v list) res" where
  "listEmpty_loop h cur 0 = Inr (h, [])"
| "listEmpty_loop h cur (Suc len) = (case cur of
     None \<Rightarrow> Inl NullDeref
   | Some p \<Rightarrow>
       bindE (node_at h p) (\<lambda>n.
       bindE (listEmpty_loop (h(p := None)) (n_next n) len) (\<lambda>(h', vs). Inr (h', n_value n # vs))))"

definition listEmpty :: "'v heap \<Rightarrow> 'v alist \<Rightarrow> ('v heap \<times> 'v alist \<times> 'v list) res" where
  "listEmpty h l =
     bindE (listEmpty_loop h (l_head l) (l_len l)) (\<lambda>(h', vs).
       Inr (h', l\<lparr>l_head := None, l_tail := None, l_len := 0\<rparr>, if l_free l then vs else []))"

text \<open>The last component is \<open>False\<close> when \<open>NULL\<close> is returned.\<close>

definition listAddNodeHead :: "('v heap \<Rightarrow> addr option) \<Rightarrow> 'v heap \<Rightarrow> 'v alist \<Rightarrow> 'v \<Rightarrow> ('v heap \<times> 'v alist \<times> bool) res" where
  "listAddNodeHead zm h l v = (case zm h of
     None \<Rightarrow> Inr (h, l, False)
   | Some p \<Rightarrow>
       if l_len l = 0 then
         Inr (h(p \<mapsto> \<lparr>n_prev = None, n_next = None, n_value = v\<rparr>),
              l\<lparr>l_head := Some p, l_tail := Some p, l_len := l_len l + 1\<rparr>, True)
       else
         bindE (node_upd (h(p \<mapsto> \<lparr>n_prev = None, n_next = l_head l, n_value = v\<rparr>)) (l_head l) (n_prev_update (\<lambda>_. Some p))) (\<lambda>h'.
           Inr (h', l\<lparr>l_head := Some p, l_len := l_len l + 1\<rparr>, True)))"

definition listAddNodeTail :: "('v heap \<Rightarrow> addr option) \<Rightarrow> 'v heap \<Rightarrow> 'v alist \<Rightarrow> 'v \<Rightarrow> ('v heap \<times> 'v alist \<times> bool) res" where
  "listAddNodeTail zm h l v = (case zm h of
     None \<Rightarrow> Inr (h, l, False)
   | Some p \<Rightarrow>
       if l_len l = 0 then
         Inr (h(p \<mapsto> \<lparr>n_prev = None, n_next = None, n_value = v\<rparr>),
              l\<lparr>l_head := Some p, l_tail := Some p, l_len := l_len l + 1\<rparr>, True)
       else
         bindE (node_upd (h(p \<mapsto> \<lparr>n_prev = l_tail l, n_next = None, n_value = v\<rparr>)) (l_tail l) (n_next_update (\<lambda>_. Some p))) (\<lambda>h'.
           Inr (h', l\<lparr>l_tail := Some p, l_len := l_len l + 1\<rparr>, True)))"

text \<open>An update that is skipped for \<open>NULL\<close>.\<close>

definition node_upd_if :: "'v heap \<Rightarrow> addr option \<Rightarrow> ('v listNode \<Rightarrow> 'v listNode) \<Rightarrow> 'v heap res" where
  "node_upd_if h r f = (if r = None then Inr h else node_upd h r f)"

definition listInsertNode ::
    "('v heap \<Rightarrow> addr option) \<Rightarrow> 'v heap \<Rightarrow> 'v alist \<Rightarrow> addr \<Rightarrow> 'v \<Rightarrow> bool \<Rightarrow> ('v heap \<times> 'v alist \<times> bool) res" where
  "listInsertNode zm h l old v after = (case zm h of
     None \<Rightarrow> Inr (h, l, False)
   | Some p \<Rightarrow>
       bindE (node_at h old) (\<lambda>o_node.
         let node = (if after then \<lparr>n_prev = Some old, n_next = n_next o_node, n_value = v\<rparr>
                     else \<lparr>n_prev = n_prev o_node, n_next = Some old, n_value = v\<rparr>);
             l1 = (if after then if l_tail l = Some old then l\<lparr>l_tail := Some p\<rparr> else l
                   else if l_head l = Some old then l\<lparr>l_head := Some p\<rparr> else l) in
         bindE (node_upd_if (h(p \<mapsto> node)) (n_prev node) (n_next_update (\<lambda>_. Some p))) (\<lambda>h1.
         bindE (node_upd_if h1 (n_next node) (n_prev_update (\<lambda>_. Some p))) (\<lambda>h2.
           Inr (h2, l1\<lparr>l_len := l_len l1 + 1\<rparr>, True)))))"

definition listDelNode :: "'v heap \<Rightarrow> 'v alist \<Rightarrow> addr \<Rightarrow> ('v heap \<times> 'v alist \<times> 'v list) res" where
  "listDelNode h l p =
     bindE (node_at h p) (\<lambda>n.
     bindE (node_upd_if h (n_prev n) (n_next_update (\<lambda>_. n_next n))) (\<lambda>h1.
       let l1 = (if n_prev n = None then l\<lparr>l_head := n_next n\<rparr> else l) in
       bindE (node_at h1 p) (\<lambda>n1.
       bindE (node_upd_if h1 (n_next n1) (n_prev_update (\<lambda>_. n_prev n1))) (\<lambda>h2.
         let l2 = (if n_next n1 = None then l1\<lparr>l_tail := n_prev n1\<rparr> else l1) in
         Inr (h2(p := None), l2\<lparr>l_len := l_len l2 - 1\<rparr>, if l_free l then [n_value n1] else [])))))"

definition listGetIterator :: "'v alist \<Rightarrow> int \<Rightarrow> listIter" where
  "listGetIterator l direction =
     \<lparr>i_next = (if direction = AL_START_HEAD then l_head l else l_tail l), i_direction = direction\<rparr>"

definition listRewind :: "'v alist \<Rightarrow> listIter" where
  "listRewind l = \<lparr>i_next = l_head l, i_direction = AL_START_HEAD\<rparr>"

definition listRewindTail :: "'v alist \<Rightarrow> listIter" where
  "listRewindTail l = \<lparr>i_next = l_tail l, i_direction = AL_START_TAIL\<rparr>"

definition listNext :: "'v heap \<Rightarrow> listIter \<Rightarrow> (listIter \<times> addr option) res" where
  "listNext h it = (case i_next it of
     None \<Rightarrow> Inr (it, None)
   | Some p \<Rightarrow>
       bindE (node_at h p) (\<lambda>n.
         Inr (it\<lparr>i_next := if i_direction it = AL_START_HEAD then n_next n else n_prev n\<rparr>, Some p)))"

text \<open>
  The loops over an iterator do not end on a cyclic chain of nodes: \<open>None\<close> is a run that does not return.
\<close>

partial_function (option) listSearch_loop :: "'v heap \<Rightarrow> ('v \<Rightarrow> bool) \<Rightarrow> listIter \<Rightarrow> addr option res option" where
  "listSearch_loop h P it = (case listNext h it of
     Inl e \<Rightarrow> Some (Inl e)
   | Inr (it', None) \<Rightarrow> Some (Inr None)
   | Inr (it', Some p) \<Rightarrow>
       (case node_at h p of
          Inl e \<Rightarrow> Some (Inl e)
        | Inr n \<Rightarrow> if P (n_value n) then Some (Inr (Some p)) else listSearch_loop h P it'))"

definition listSearchKey :: "'v heap \<Rightarrow> 'v alist \<Rightarrow> 'v \<Rightarrow> addr option res option" where
  "listSearchKey h l key =
     listSearch_loop h (\<lambda>v. case l_match l of Some m \<Rightarrow> m v key | None \<Rightarrow> key = v) (listRewind l)"

text \<open>
  \<open>None\<close> in the second component of the result is \<open>NULL\<close>; the third one collects the values that releasing
  the unfinished copy gives to the free method. A value made by the duplication method for which there
  is no node is not among them. The first argument of \<open>listDup\<close> says whether there is room for the list
  record of the copy.
\<close>

partial_function (option) listDup_loop ::
    "('v heap \<Rightarrow> addr option) \<Rightarrow> 'v heap \<Rightarrow> 'v alist \<Rightarrow> listIter \<Rightarrow> ('v heap \<times> 'v alist option \<times> 'v list) res option" where
  "listDup_loop zm h cp it = (case listNext h it of
     Inl e \<Rightarrow> Some (Inl e)
   | Inr (it', None) \<Rightarrow> Some (Inr (h, Some cp, []))
   | Inr (it', Some p) \<Rightarrow>
       (case node_at h p of
          Inl e \<Rightarrow> Some (Inl e)
        | Inr n \<Rightarrow>
            (case (case l_dup cp of Some f \<Rightarrow> f (n_value n) | None \<Rightarrow> Some (n_value n)) of
               None \<Rightarrow> Some (bindE (listEmpty h cp) (\<lambda>(h', _, freed). Inr (h', None, freed)))
             | Some v \<Rightarrow>
                 (case listAddNodeTail zm h cp v of
                    Inl e \<Rightarrow> Some (Inl e)
                  | Inr (h', cp', ok) \<Rightarrow>
                      if ok then listDup_loop zm h' cp' it'
                      else Some (bindE (listEmpty h' cp') (\<lambda>(h'', _, freed). Inr (h'', None, freed)))))))"

definition listDup :: "bool \<Rightarrow> ('v heap \<Rightarrow> addr option) \<Rightarrow> 'v heap \<Rightarrow> 'v alist
    \<Rightarrow> ('v heap \<times> 'v alist option \<times> 'v list) res option" where
  "listDup room zm h orig = (case listCreate room of
     None \<Rightarrow> Some (Inr (h, None, []))
   | Some cp \<Rightarrow>
       listDup_loop zm h (cp\<lparr>l_dup := l_dup orig, l_free := l_free orig, l_match := l_match orig\<rparr>) (listRewind orig))"

fun listIndex_loop :: "'v heap \<Rightarrow> ('v listNode \<Rightarrow> addr option) \<Rightarrow> nat \<Rightarrow> addr option \<Rightarrow> addr option res" where
  "listIndex_loop h step 0 n = Inr n"
| "listIndex_loop h step (Suc index) n = (case n of
     None \<Rightarrow> Inr None
   | Some p \<Rightarrow> bindE (node_at h p) (\<lambda>nd. listIndex_loop h step index (step nd)))"

text \<open>\<open>-index\<close> overflows for the least \<open>long\<close>.\<close>

definition listIndex :: "'v heap \<Rightarrow> 'v alist \<Rightarrow> int \<Rightarrow> addr option res" where
  "listIndex h l index =
     (if index = - (2 ^ 63) then Inl UndefBehaviour
      else if index < 0 then listIndex_loop h n_prev (nat (- index - 1)) (l_tail l)
      else listIndex_loop h n_next (nat index) (l_head l))"

definition listRotate :: "'v heap \<Rightarrow> 'v alist \<Rightarrow> ('v heap \<times> 'v alist) res" where
  "listRotate h l =
     (if l_len l \<le> 1 then Inr (h, l)
      else (case l_tail l of
        None \<Rightarrow> Inl NullDeref
      | Some t \<Rightarrow>
          bindE (node_at h t) (\<lambda>n.
          bindE (node_upd h (n_prev n) (n_next_update (\<lambda>_. None))) (\<lambda>h1.
          bindE (node_upd h1 (l_head l) (n_prev_update (\<lambda>_. Some t))) (\<lambda>h2.
          bindE (node_upd h2 (Some t) (\<lambda>nd. nd\<lparr>n_prev := None, n_next := l_head l\<rparr>)) (\<lambda>h3.
            Inr (h3, l\<lparr>l_tail := n_prev n, l_head := Some t\<rparr>)))))))"

definition listJoin :: "'v heap \<Rightarrow> 'v alist \<Rightarrow> 'v alist \<Rightarrow> ('v heap \<times> 'v alist \<times> 'v alist) res" where
  "listJoin h l o_list =
     bindE (node_upd_if h (l_head o_list) (n_prev_update (\<lambda>_. l_tail l))) (\<lambda>h1.
     bindE (node_upd_if h1 (l_tail l) (n_next_update (\<lambda>_. l_head o_list))) (\<lambda>h2.
       let l1 = (if l_tail l = None then l\<lparr>l_head := l_head o_list\<rparr> else l);
           l2 = (if l_tail o_list \<noteq> None then l1\<lparr>l_tail := l_tail o_list\<rparr> else l1) in
       Inr (h2, l2\<lparr>l_len := l_len l2 + l_len o_list\<rparr>, o_list\<lparr>l_head := None, l_tail := None, l_len := 0\<rparr>)))"

section \<open>Segments\<close>

text \<open>
  A segment is given by its cells, addresses with values. Its first cell points back to \<open>prv\<close> and its
  last one forward to \<open>nxt\<close>.
\<close>

type_synonym 'v cells = "(addr \<times> 'v) list"

definition first_of :: "'v cells \<Rightarrow> addr option \<Rightarrow> addr option" where
  "first_of cs nxt = (case cs of [] \<Rightarrow> nxt | c # _ \<Rightarrow> Some (fst c))"

definition last_of :: "'v cells \<Rightarrow> addr option \<Rightarrow> addr option" where
  "last_of cs prv = (if cs = [] then prv else Some (fst (last cs)))"

lemma first_of_simps [simp]: "first_of [] n = n" "first_of (c # cs) n = Some (fst c)"
  "first_of (cs @ ds) n = first_of cs (first_of ds n)"
  by (simp_all add: first_of_def split: list.splits)

lemma last_of_simps [simp]: "last_of [] n = n" "last_of (c # cs) n = last_of cs (Some (fst c))" "last_of (cs @ ds) n = last_of ds (last_of cs n)"
  by (simp_all add: last_of_def)

fun dls :: "'v heap \<Rightarrow> addr option \<Rightarrow> 'v cells \<Rightarrow> addr option \<Rightarrow> bool" where
  "dls h prv [] nxt \<longleftrightarrow> True"
| "dls h prv ((p, v) # cs) nxt \<longleftrightarrow>
     h p = Some \<lparr>n_prev = prv, n_next = first_of cs nxt, n_value = v\<rparr> \<and> dls h (Some p) cs nxt"

lemma dls_append [simp]: "dls h prv (as @ bs) nxt \<longleftrightarrow> dls h prv as (first_of bs nxt) \<and> dls h (last_of as prv) bs nxt"
proof (induction as arbitrary: prv)
  case (Cons c as)
  then show ?case by (cases c) simp
qed simp

abbreviation addrs :: "'v cells \<Rightarrow> addr set" where
  "addrs cs \<equiv> fst ` set cs"

definition frame :: "addr set \<Rightarrow> 'v heap \<Rightarrow> 'v heap \<Rightarrow> bool" where
  "frame S h h' \<longleftrightarrow> (\<forall>q. q \<notin> S \<longrightarrow> h' q = h q)"

lemma frame_refl [simp]: "frame S h h"
  by (simp add: frame_def)

lemma frame_upd: "frame S h h' \<Longrightarrow> p \<in> S \<Longrightarrow> frame S h (h'(p := x))"
  by (simp add: frame_def)

lemma frame_trans: "frame S h h' \<Longrightarrow> frame T h' h'' \<Longrightarrow> S \<union> T \<subseteq> U \<Longrightarrow> frame U h h''"
  unfolding frame_def by (metis UnCI subsetD)

lemma dls_frame:
  assumes "frame S h h'" "addrs cs \<inter> S = {}" "dls h prv cs nxt"
  shows "dls h' prv cs nxt"
  using assms(2,3)
proof (induction cs arbitrary: prv)
  case (Cons c cs)
  then show ?case using assms(1) by (cases c) (simp add: frame_def)
qed simp

lemma dls_upd_other: "p \<notin> addrs cs \<Longrightarrow> dls (h(p := x)) prv cs nxt \<longleftrightarrow> dls h prv cs nxt"
proof (induction cs arbitrary: prv)
  case (Cons c cs)
  then show ?case by (cases c) simp
qed simp

lemma dls_alloc: "dls h prv cs nxt \<Longrightarrow> p \<in> addrs cs \<Longrightarrow> h p \<noteq> None"
proof (induction cs arbitrary: prv)
  case (Cons c cs)
  then show ?case by (cases c) auto
qed simp

text \<open>Redirecting the ends of a segment.\<close>

lemma relink_next:
  assumes "dls h prv as nxt" "distinct (map fst as)"
  shows "\<exists>h'. node_upd_if h (last_of as None) (n_next_update (\<lambda>_. r)) = Inr h' \<and> dls h' prv as r \<and> frame (addrs as) h h'"
proof (cases as rule: rev_cases)
  case Nil
  then show ?thesis by (simp add: node_upd_if_def)
next
  case (snoc as' c)
  obtain p v where c: "c = (p, v)" by force
  let ?n = "\<lparr>n_prev = last_of as' prv, n_next = r, n_value = v\<rparr>"
  have h: "h p = Some \<lparr>n_prev = last_of as' prv, n_next = nxt, n_value = v\<rparr>" "dls h prv as' (Some p)"
    using assms(1) snoc c by auto
  have p: "p \<notin> addrs as'" using assms(2) snoc c by auto
  have "node_upd_if h (last_of as None) (n_next_update (\<lambda>_. r)) = Inr (h(p \<mapsto> ?n))"
    using h(1) snoc c by (simp add: node_upd_if_def node_upd_def node_at_def)
  moreover have "dls (h(p \<mapsto> ?n)) prv as r" using h(2) p snoc c by (simp add: dls_upd_other)
  ultimately show ?thesis using snoc c by (auto intro!: frame_upd)
qed

lemma relink_prev:
  assumes "dls h prv bs nxt" "distinct (map fst bs)"
  shows "\<exists>h'. node_upd_if h (first_of bs None) (n_prev_update (\<lambda>_. r)) = Inr h' \<and> dls h' r bs nxt \<and> frame (addrs bs) h h'"
proof (cases bs)
  case Nil
  then show ?thesis by (simp add: node_upd_if_def)
next
  case (Cons c bs')
  obtain p v where c: "c = (p, v)" by force
  let ?n = "\<lparr>n_prev = r, n_next = first_of bs' nxt, n_value = v\<rparr>"
  have "node_upd_if h (first_of bs None) (n_prev_update (\<lambda>_. r)) = Inr (h(p \<mapsto> ?n))"
    using assms(1) Cons c by (simp add: node_upd_if_def node_upd_def node_at_def)
  moreover have "dls (h(p \<mapsto> ?n)) r bs nxt" using assms Cons c by (auto simp: dls_upd_other)
  ultimately show ?thesis using Cons c by (auto intro!: frame_upd)
qed

text \<open>Joining two segments, with a new cell in between.\<close>

lemma link_ok:
  assumes as: "dls h None as (first_of bs None)" and bs: "dls h (last_of as None) bs None"
    and d: "distinct (map fst (as @ bs))" and p: "p \<notin> addrs (as @ bs)"
  shows "\<exists>h1 h2. node_upd_if (h(p \<mapsto> \<lparr>n_prev = last_of as None, n_next = first_of bs None, n_value = v\<rparr>)) (last_of as None)
      (n_next_update (\<lambda>_. Some p)) = Inr h1 \<and>
    node_upd_if h1 (first_of bs None) (n_prev_update (\<lambda>_. Some p)) = Inr h2 \<and>
    dls h2 None (as @ (p, v) # bs) None \<and> frame (insert p (addrs (as @ bs))) h h2"
proof -
  define n where "n = \<lparr>n_prev = last_of as None, n_next = first_of bs None, n_value = v\<rparr>"
  have as': "dls (h(p \<mapsto> n)) None as (first_of bs None)" and bs': "dls (h(p \<mapsto> n)) (last_of as None) bs None"
    using as bs p by (simp_all add: dls_upd_other image_Un)
  obtain h1 where h1: "node_upd_if (h(p \<mapsto> n)) (last_of as None) (n_next_update (\<lambda>_. Some p)) = Inr h1"
    "dls h1 None as (Some p)" "frame (addrs as) (h(p \<mapsto> n)) h1"
    using relink_next[OF as', of "Some p"] d by auto
  have b1: "dls h1 (last_of as None) bs None" by (rule dls_frame[OF h1(3) _ bs']) (use d in auto)
  obtain h2 where h2: "node_upd_if h1 (first_of bs None) (n_prev_update (\<lambda>_. Some p)) = Inr h2"
    "dls h2 (Some p) bs None" "frame (addrs bs) h1 h2"
    using relink_prev[OF b1, of "Some p"] d by auto
  have "dls h2 None as (Some p)" by (rule dls_frame[OF h2(3) _ h1(2)]) (use d in auto)
  moreover have "h2 p = Some n" using h1(3) h2(3) p by (simp add: frame_def image_Un)
  moreover have "frame (insert p (addrs (as @ bs))) h h2" using h1(3) h2(3) by (auto simp: frame_def image_Un)
  ultimately show ?thesis using h1(1) h2(1,2) by (auto simp: n_def)
qed

lemma unlink_ok:
  assumes as: "dls h None as nxt" and bs: "dls h prv bs None" and d: "distinct (map fst (as @ bs))"
  shows "\<exists>h1 h2. node_upd_if h (last_of as None) (n_next_update (\<lambda>_. first_of bs None)) = Inr h1 \<and>
    node_upd_if h1 (first_of bs None) (n_prev_update (\<lambda>_. last_of as None)) = Inr h2 \<and>
    dls h2 None (as @ bs) None \<and> frame (addrs (as @ bs)) h h2 \<and> frame (addrs as) h h1"
proof -
  obtain h1 where h1: "node_upd_if h (last_of as None) (n_next_update (\<lambda>_. first_of bs None)) = Inr h1"
    "dls h1 None as (first_of bs None)" "frame (addrs as) h h1"
    using relink_next[OF as, of "first_of bs None"] d by auto
  have b1: "dls h1 prv bs None" by (rule dls_frame[OF h1(3) _ bs]) (use d in auto)
  obtain h2 where h2: "node_upd_if h1 (first_of bs None) (n_prev_update (\<lambda>_. last_of as None)) = Inr h2"
    "dls h2 (last_of as None) bs None" "frame (addrs bs) h1 h2"
    using relink_prev[OF b1, of "last_of as None"] d by auto
  have "dls h2 None as (first_of bs None)" by (rule dls_frame[OF h2(3) _ h1(2)]) (use d in auto)
  moreover have "frame (addrs (as @ bs)) h h2" using h1(3) h2(3) by (auto simp: frame_def image_Un)
  ultimately show ?thesis using h1 h2 by auto
qed

section \<open>Lists\<close>

definition list_rep :: "'v heap \<Rightarrow> 'v alist \<Rightarrow> 'v cells \<Rightarrow> bool" where
  "list_rep h l cs \<longleftrightarrow> distinct (map fst cs) \<and> dls h None cs None \<and> l_head l = first_of cs None
     \<and> l_tail l = last_of cs None \<and> l_len l = length cs"

text \<open>What \<open>zmalloc\<close> returns was not allocated.\<close>

definition zmalloc_ok :: "('v heap \<Rightarrow> addr option) \<Rightarrow> bool" where
  "zmalloc_ok zm \<longleftrightarrow> (\<forall>h p. zm h = Some p \<longrightarrow> h p = None)"

text \<open>The method pointers of a list are kept.\<close>

definition same_methods :: "'v alist \<Rightarrow> 'v alist \<Rightarrow> bool" where
  "same_methods l l' \<longleftrightarrow> l_dup l' = l_dup l \<and> l_free l' = l_free l \<and> l_match l' = l_match l"

lemma list_rep_create [simp]: "list_rep h new_list []"
  by (simp add: list_rep_def new_list_def)

lemma list_rep_fresh: "zmalloc_ok zm \<Longrightarrow> zm h = Some p \<Longrightarrow> list_rep h l cs \<Longrightarrow> p \<notin> addrs cs"
  using dls_alloc[of h None cs None p] by (auto simp: zmalloc_ok_def list_rep_def)

lemma last_of_ne: "cs \<noteq> [] \<Longrightarrow> last_of cs a = last_of cs b" "cs \<noteq> [] \<Longrightarrow> last_of cs a \<noteq> None"
  by (simp_all add: last_of_def)

lemma first_of_ne: "cs \<noteq> [] \<Longrightarrow> first_of cs a = first_of cs b" "cs \<noteq> [] \<Longrightarrow> first_of cs a \<noteq> None"
  by (cases cs; simp)+

lemma ends_Some [simp]: "last_of cs (Some a) \<noteq> None" "first_of cs (Some a) \<noteq> None"
  by (simp_all add: last_of_def first_of_def split: list.splits)

lemma node_upd_ne: "r \<noteq> None \<Longrightarrow> node_upd h r f = node_upd_if h r f"
  by (cases r) (simp_all add: node_upd_if_def)

lemma listAddNodeHead_ok:
  assumes rep: "list_rep h l cs" and p: "zm h = Some p" and new: "p \<notin> addrs cs"
  shows "\<exists>h' l'. listAddNodeHead zm h l v = Inr (h', l', True) \<and> list_rep h' l' ((p, v) # cs)
    \<and> same_methods l l' \<and> frame (insert p (addrs cs)) h h'"
proof (cases "cs = []")
  case True
  then show ?thesis using rep p
    by (simp add: list_rep_def listAddNodeHead_def same_methods_def frame_def)
next
  case False
  have d: "dls h None [] (first_of cs None)" "dls h (last_of [] None) cs None" "distinct (map fst ([] @ cs))" "p \<notin> addrs ([] @ cs)"
    using rep new by (auto simp: list_rep_def)
  from link_ok[OF d, of v] obtain h2 where h2:
    "node_upd_if (h(p \<mapsto> \<lparr>n_prev = None, n_next = first_of cs None, n_value = v\<rparr>)) (first_of cs None) (n_prev_update (\<lambda>_. Some p)) = Inr h2"
    "dls h2 None ((p, v) # cs) None" "frame (insert p (addrs cs)) h h2"
    by (auto simp: node_upd_if_def)
  have "listAddNodeHead zm h l v = Inr (h2, l\<lparr>l_head := Some p, l_len := l_len l + 1\<rparr>, True)"
    using h2(1) p rep False by (simp add: listAddNodeHead_def list_rep_def node_upd_ne first_of_ne)
  then show ?thesis using h2(2,3) rep new False
    by (auto simp: list_rep_def same_methods_def last_of_ne(1)[of cs "Some p" None])
qed

lemma listAddNodeTail_ok:
  assumes rep: "list_rep h l cs" and p: "zm h = Some p" and new: "p \<notin> addrs cs"
  shows "\<exists>h' l'. listAddNodeTail zm h l v = Inr (h', l', True) \<and> list_rep h' l' (cs @ [(p, v)])
    \<and> same_methods l l' \<and> frame (insert p (addrs cs)) h h'"
proof (cases "cs = []")
  case True
  then show ?thesis using rep p
    by (simp add: list_rep_def listAddNodeTail_def same_methods_def frame_def)
next
  case False
  have d: "dls h None cs (first_of [] None)" "dls h (last_of cs None) [] None" "distinct (map fst (cs @ []))" "p \<notin> addrs (cs @ [])"
    using rep new by (auto simp: list_rep_def)
  from link_ok[OF d, of v] obtain h2 where h2:
    "node_upd_if (h(p \<mapsto> \<lparr>n_prev = last_of cs None, n_next = None, n_value = v\<rparr>)) (last_of cs None) (n_next_update (\<lambda>_. Some p)) = Inr h2"
    "dls h2 None (cs @ [(p, v)]) None" "frame (insert p (addrs cs)) h h2"
    by (auto simp: node_upd_if_def)
  have "listAddNodeTail zm h l v = Inr (h2, l\<lparr>l_tail := Some p, l_len := l_len l + 1\<rparr>, True)"
    using h2(1) p rep False by (simp add: listAddNodeTail_def list_rep_def node_upd_ne last_of_ne)
  then show ?thesis using h2(2,3) rep new False
    by (auto simp: list_rep_def same_methods_def first_of_ne(1)[of cs "Some p" None])
qed

text \<open>The cells around a node of the list.\<close>

lemma list_rep_split:
  assumes "list_rep h l (as @ (q, x) # bs)"
  shows "h q = Some \<lparr>n_prev = last_of as None, n_next = first_of bs None, n_value = x\<rparr>"
    "dls h None as (Some q)" "dls h (Some q) bs None" "distinct (map fst (as @ (q, x) # bs))" "q \<notin> addrs (as @ bs)"
  using assms by (auto simp: list_rep_def)

lemma listInsertNode_ok:
  assumes rep: "list_rep h l (as @ (q, x) # bs)" and p: "zm h = Some p" and new: "p \<notin> addrs (as @ (q, x) # bs)"
  shows "\<exists>h' l'. listInsertNode zm h l q v after = Inr (h', l', True) \<and> same_methods l l' \<and>
    list_rep h' l' (if after then as @ (q, x) # (p, v) # bs else as @ (p, v) # (q, x) # bs)
    \<and> frame (insert p (addrs (as @ (q, x) # bs))) h h'"
proof -
  note s = list_rep_split[OF rep]
  define as' where "as' = (if after then as @ [(q, x)] else as)"
  define bs' where "bs' = (if after then bs else (q, x) # bs)"
  have cs: "as' @ bs' = as @ (q, x) # bs" by (simp add: as'_def bs'_def)
  have d: "dls h None as' (first_of bs' None)" "dls h (last_of as' None) bs' None" "distinct (map fst (as' @ bs'))" "p \<notin> addrs (as' @ bs')"
    using s new rep unfolding cs by (auto simp: as'_def bs'_def list_rep_def)
  from link_ok[OF d, of v] obtain h1 h2 where h2:
    "node_upd_if (h(p \<mapsto> \<lparr>n_prev = last_of as' None, n_next = first_of bs' None, n_value = v\<rparr>)) (last_of as' None) (n_next_update (\<lambda>_. Some p)) = Inr h1"
    "node_upd_if h1 (first_of bs' None) (n_prev_update (\<lambda>_. Some p)) = Inr h2"
    "dls h2 None (as' @ (p, v) # bs') None" "frame (insert p (addrs (as' @ bs'))) h h2" by blast
  have tail: "l_tail l = Some q \<longleftrightarrow> bs = []"
    using rep s(5) by (cases bs rule: rev_cases) (auto simp: list_rep_def last_of_def)
  have head: "l_head l = Some q \<longleftrightarrow> as = []"
    using rep s(5) by (cases as) (auto simp: list_rep_def)
  have "\<exists>l'. listInsertNode zm h l q v after = Inr (h2, l', True) \<and> same_methods l l' \<and> l_len l' = l_len l + 1 \<and>
      l_head l' = first_of (as' @ (p, v) # bs') None \<and> l_tail l' = last_of (as' @ (p, v) # bs') None"
    using p s(1) h2(1,2) tail head rep
    by (cases after; cases bs rule: rev_cases; cases as)
       (auto simp: listInsertNode_def node_at_def as'_def bs'_def same_methods_def list_rep_def last_of_def)
  then obtain l' where l': "listInsertNode zm h l q v after = Inr (h2, l', True)" "same_methods l l'" "l_len l' = l_len l + 1"
      "l_head l' = first_of (as' @ (p, v) # bs') None" "l_tail l' = last_of (as' @ (p, v) # bs') None" by blast
  have "length (as' @ (p, v) # bs') = l_len l + 1" using rep cs[symmetric] by (simp add: list_rep_def)
  then have "list_rep h2 l' (as' @ (p, v) # bs')" using d(3,4) h2(3) l'(3-5) by (auto simp: list_rep_def)
  moreover have "as' @ (p, v) # bs' = (if after then as @ (q, x) # (p, v) # bs else as @ (p, v) # (q, x) # bs)"
    by (simp add: as'_def bs'_def)
  ultimately show ?thesis using l'(1,2) h2(4) unfolding cs by auto
qed

lemma listDelNode_ok:
  assumes rep: "list_rep h l (as @ (q, x) # bs)"
  shows "\<exists>h' l'. listDelNode h l q = Inr (h', l', if l_free l then [x] else []) \<and> list_rep h' l' (as @ bs) \<and> same_methods l l'
    \<and> frame (addrs (as @ (q, x) # bs)) h h' \<and> h' q = None"
proof -
  note s = list_rep_split[OF rep]
  have d: "distinct (map fst (as @ bs))" using s(4) by auto
  from unlink_ok[OF s(2,3) d] obtain h1 h2 where u:
    "node_upd_if h (last_of as None) (n_next_update (\<lambda>_. first_of bs None)) = Inr h1"
    "node_upd_if h1 (first_of bs None) (n_prev_update (\<lambda>_. last_of as None)) = Inr h2"
    "dls h2 None (as @ bs) None" "frame (addrs (as @ bs)) h h2" "frame (addrs as) h h1" by blast
  have q1: "h1 q = h q" using u(5) s(5) by (auto simp: frame_def)
  define l' where "l' = (let l1 = (if last_of as None = None then l\<lparr>l_head := first_of bs None\<rparr> else l);
      l2 = (if first_of bs None = None then l1\<lparr>l_tail := last_of as None\<rparr> else l1) in l2\<lparr>l_len := l_len l2 - 1\<rparr>)"
  have "listDelNode h l q = Inr (h2(q := None), l', if l_free l then [x] else [])"
    using s(1) q1 u(1,2) by (simp add: listDelNode_def node_at_def l'_def Let_def)
  moreover have "list_rep (h2(q := None)) l' (as @ bs)"
  proof -
    have "l_head l' = first_of (as @ bs) None"
      using rep by (cases as) (auto simp: l'_def list_rep_def Let_def)
    moreover have "l_tail l' = last_of (as @ bs) None"
      using rep by (cases bs rule: rev_cases) (auto simp: l'_def list_rep_def Let_def first_of_ne last_of_def)
    moreover have "dls (h2(q := None)) None (as @ bs) None"
      using u(3) dls_upd_other[OF s(5)] by blast
    moreover have "l_len l' = length (as @ bs)" using rep by (simp add: l'_def list_rep_def Let_def)
    ultimately show ?thesis using d by (simp add: list_rep_def)
  qed
  moreover have "same_methods l l'" by (simp add: l'_def same_methods_def Let_def)
  moreover have "frame (addrs (as @ (q, x) # bs)) h (h2(q := None))" using u(4) by (auto simp: frame_def)
  ultimately show ?thesis by auto
qed

lemma listEmpty_loop_ok:
  assumes "dls h prv cs None" "distinct (map fst cs)"
  shows "listEmpty_loop h (first_of cs None) (length cs) = Inr (h |` (- addrs cs), map snd cs)"
  using assms
proof (induction cs arbitrary: h prv)
  case (Cons c cs)
  obtain p v where c: "c = (p, v)" by force
  have d: "dls (h(p := None)) (Some p) cs None" using Cons.prems c by (simp add: dls_upd_other)
  have e: "(h(p := None)) |` (- addrs cs) = h |` (- addrs (c # cs))" using c by (auto simp: restrict_map_def fun_eq_iff)
  have "listEmpty_loop (h(p := None)) (first_of cs None) (length cs) = Inr (h |` (- addrs (c # cs)), map snd cs)"
    unfolding e[symmetric] by (rule Cons.IH[OF d]) (use Cons.prems in simp)
  then show ?case using Cons.prems c by (simp add: node_at_def)
qed (simp add: restrict_map_def)

lemma listEmpty_ok:
  assumes "list_rep h l cs"
  shows "\<exists>l'. listEmpty h l = Inr (h |` (- addrs cs), l', if l_free l then map snd cs else [])
    \<and> list_rep (h |` (- addrs cs)) l' [] \<and> same_methods l l'"
  using assms listEmpty_loop_ok[of h None cs] by (auto simp: listEmpty_def list_rep_def same_methods_def)

lemma listJoin_ok:
  assumes l: "list_rep h l cs" and m: "list_rep h m ds" and dj: "addrs cs \<inter> addrs ds = {}"
  shows "\<exists>h' l' m'. listJoin h l m = Inr (h', l', m') \<and> list_rep h' l' (cs @ ds) \<and> list_rep h' m' []
    \<and> same_methods l l' \<and> same_methods m m' \<and> frame (addrs (cs @ ds)) h h'"
proof -
  have c: "dls h None cs None" "distinct (map fst cs)" and d: "dls h None ds None" "distinct (map fst ds)"
    using l m by (auto simp: list_rep_def)
  obtain h1 where h1: "node_upd_if h (first_of ds None) (n_prev_update (\<lambda>_. last_of cs None)) = Inr h1"
    "dls h1 (last_of cs None) ds None" "frame (addrs ds) h h1"
    using relink_prev[OF d, of "last_of cs None"] by blast
  have c1: "dls h1 None cs None" using dls_frame[OF h1(3) dj c(1)] .
  obtain h2 where h2: "node_upd_if h1 (last_of cs None) (n_next_update (\<lambda>_. first_of ds None)) = Inr h2"
    "dls h2 None cs (first_of ds None)" "frame (addrs cs) h1 h2"
    using relink_next[OF c1 c(2), of "first_of ds None"] by blast
  have d2: "dls h2 (last_of cs None) ds None" by (rule dls_frame[OF h2(3) _ h1(2)]) (use dj in auto)
  define l' where "l' = (let l1 = (if l_tail l = None then l\<lparr>l_head := l_head m\<rparr> else l);
      l2 = (if l_tail m \<noteq> None then l1\<lparr>l_tail := l_tail m\<rparr> else l1) in l2\<lparr>l_len := l_len l2 + l_len m\<rparr>)"
  have "listJoin h l m = Inr (h2, l', m\<lparr>l_head := None, l_tail := None, l_len := 0\<rparr>)"
    using h1(1) h2(1) l m by (simp add: listJoin_def l'_def list_rep_def Let_def)
  moreover have "list_rep h2 l' (cs @ ds)"
    using h2(2) d2 c(2) d(2) dj l m
    by (cases "cs = []"; cases "ds = []")
       (auto simp: list_rep_def l'_def Let_def first_of_ne last_of_ne last_of_def first_of_def split: list.splits)
  moreover have "same_methods l l'" by (simp add: l'_def same_methods_def Let_def)
  moreover have "frame (addrs (cs @ ds)) h h2" using h1(3) h2(3) by (auto simp: frame_def image_Un)
  ultimately show ?thesis using m by (auto simp: list_rep_def same_methods_def)
qed

lemma listRotate_ok:
  assumes rep: "list_rep h l cs"
  shows "\<exists>h' l'. listRotate h l = Inr (h', l') \<and> list_rep h' l' (if cs = [] then [] else last cs # butlast cs)
    \<and> same_methods l l' \<and> frame (addrs cs) h h'"
proof (cases "length cs \<le> 1")
  case True
  then have "(if cs = [] then [] else last cs # butlast cs) = cs" by (cases cs) auto
  then show ?thesis using rep True by (simp add: listRotate_def list_rep_def same_methods_def)
next
  case False
  then obtain as q x where cs: "cs = as @ [(q, x)]" "as \<noteq> []" by (cases cs rule: rev_cases) auto
  note s = list_rep_split[of h l as q x "[]", folded cs(1), OF rep]
  have d: "distinct (map fst as)" "q \<notin> addrs as" using s(4,5) cs(1) by auto
  obtain h1 where h1: "node_upd_if h (last_of as None) (n_next_update (\<lambda>_. None)) = Inr h1" "dls h1 None as None"
    "frame (addrs as) h h1"
    using relink_next[OF s(2) d(1), of None] by blast
  obtain h2 where h2: "node_upd_if h1 (first_of as None) (n_prev_update (\<lambda>_. Some q)) = Inr h2" "dls h2 (Some q) as None"
    "frame (addrs as) h1 h2"
    using relink_prev[OF h1(2) d(1), of "Some q"] by blast
  define n where "n = \<lparr>n_prev = None, n_next = first_of as None, n_value = x\<rparr>"
  have q2: "h2 q = h q" using h1(3) h2(3) d(2) by (simp add: frame_def)
  have hd: "l_head l = first_of as None" using rep cs first_of_ne(1)[OF cs(2)] by (simp add: list_rep_def)
  have "listRotate h l = Inr (h2(q \<mapsto> n), l\<lparr>l_tail := last_of as None, l_head := Some q\<rparr>)"
    using rep cs s(1) h1(1) h2(1) hd q2 False
    by (simp add: listRotate_def list_rep_def node_at_def node_upd_ne last_of_ne first_of_ne n_def)
       (simp add: node_upd_if_def node_upd_def node_at_def)
  moreover have "list_rep (h2(q \<mapsto> n)) (l\<lparr>l_tail := last_of as None, l_head := Some q\<rparr>) ((q, x) # as)"
    using h2(2) d rep cs by (simp add: list_rep_def dls_upd_other n_def last_of_ne(1)[OF cs(2), of "Some q" None])
  moreover have "frame (addrs cs) h (h2(q \<mapsto> n))" using h1(3) h2(3) cs by (auto simp: frame_def)
  ultimately show ?thesis using cs by (simp add: same_methods_def)
qed

lemma listIndex_next:
  "dls h prv cs None \<Longrightarrow> listIndex_loop h n_next i (first_of cs None) = Inr (if i < length cs then Some (fst (cs ! i)) else None)"
proof (induction i arbitrary: cs prv)
  case 0
  then show ?case by (cases cs) auto
next
  case (Suc i)
  then show ?case by (cases cs) (auto simp: node_at_def)
qed

lemma listIndex_prev:
  "dls h None cs nxt \<Longrightarrow> listIndex_loop h n_prev i (last_of cs None) =
     Inr (if i < length cs then Some (fst (cs ! (length cs - 1 - i))) else None)"
proof (induction i arbitrary: cs nxt)
  case 0
  then show ?case by (simp add: last_of_def last_conv_nth)
next
  case (Suc i)
  show ?case
  proof (cases cs rule: rev_cases)
    case (snoc as c)
    then show ?thesis using Suc.prems Suc.IH[of as "Some (fst c)"] by (cases c) (auto simp: node_at_def nth_append)
  qed simp
qed

lemma listIndex_ok:
  assumes "list_rep h l cs" "- (2 ^ 63) < i"
  shows "listIndex h l i =
    Inr (if 0 \<le> i \<and> i < int (length cs) then Some (fst (cs ! nat i))
         else if i < 0 \<and> - i \<le> int (length cs) then Some (fst (cs ! nat (int (length cs) + i))) else None)"
proof (cases "i < 0")
  case True
  define k where "k = nat (- i - 1)"
  have k: "i = - int k - 1" using True by (simp add: k_def)
  have "listIndex h l i = listIndex_loop h n_prev k (last_of cs None)"
    using True assms by (simp add: listIndex_def list_rep_def k_def)
  also have "\<dots> = Inr (if k < length cs then Some (fst (cs ! (length cs - 1 - k))) else None)"
    by (rule listIndex_prev[of h cs None]) (use assms(1) in \<open>simp add: list_rep_def\<close>)
  moreover have "nat (int (length cs) + i) = length cs - 1 - k" if "k < length cs" using that k by simp
  moreover have "k < length cs \<longleftrightarrow> - i \<le> int (length cs)" using k by auto
  ultimately show ?thesis using True by auto
next
  case False
  then have "nat i < length cs \<longleftrightarrow> i < int (length cs)" by auto
  then show ?thesis using False assms listIndex_next[of h None cs "nat i"] by (simp add: listIndex_def list_rep_def)
qed

section \<open>Iteration\<close>

lemma listNext_head:
  assumes "dls h prv cs None" "i_next it = first_of cs None" "i_direction it = AL_START_HEAD"
  shows "listNext h it = (case cs of [] \<Rightarrow> Inr (it, None) | (p, v) # ds \<Rightarrow> Inr (it\<lparr>i_next := first_of ds None\<rparr>, Some p))"
  using assms by (cases cs) (auto simp: listNext_def node_at_def)

lemma listSearch_loop_ok:
  assumes "dls h prv cs None" "i_next it = first_of cs None" "i_direction it = AL_START_HEAD"
  shows "listSearch_loop h P it = Some (Inr (map_option fst (find (\<lambda>c. P (snd c)) cs)))"
  using assms
proof (induction cs arbitrary: prv it)
  case Nil
  then show ?case by (subst listSearch_loop.simps) (simp add: listNext_def)
next
  case (Cons c cs)
  obtain p v where c: "c = (p, v)" by force
  have "listNext h it = Inr (it\<lparr>i_next := first_of cs None\<rparr>, Some p)" using listNext_head[OF Cons.prems] c by simp
  then show ?case using Cons.prems Cons.IH[of "Some p" "it\<lparr>i_next := first_of cs None\<rparr>"] c
    by (subst listSearch_loop.simps) (simp add: node_at_def)
qed

lemma listSearchKey_ok:
  assumes "list_rep h l cs"
  shows "listSearchKey h l key = Some (Inr (map_option fst
    (find (\<lambda>c. case l_match l of Some m \<Rightarrow> m (snd c) key | None \<Rightarrow> key = snd c) cs)))"
  unfolding listSearchKey_def
  by (rule listSearch_loop_ok[of h None]) (use assms in \<open>simp_all add: list_rep_def listRewind_def\<close>)

section \<open>Duplication\<close>

definition dup_value :: "'v alist \<Rightarrow> 'v \<Rightarrow> 'v option" where
  "dup_value l v = (case l_dup l of Some f \<Rightarrow> f v | None \<Rightarrow> Some v)"

text \<open>The heap \<open>h\<close> is \<open>h0\<close> with the cells of the copy made so far.\<close>

definition dup_heap :: "'v heap \<Rightarrow> 'v cells \<Rightarrow> 'v heap \<Rightarrow> bool" where
  "dup_heap h0 ds h \<longleftrightarrow> frame (addrs ds) h0 h \<and> (\<forall>p \<in> addrs ds. h0 p = None)"

text \<open>Memory runs out before the copy has \<open>k\<close> cells.\<close>

definition dup_no_room :: "('v heap \<Rightarrow> addr option) \<Rightarrow> 'v heap \<Rightarrow> nat \<Rightarrow> bool" where
  "dup_no_room zm h0 k \<longleftrightarrow> (\<exists>ds h. dup_heap h0 ds h \<and> length ds < k \<and> zm h = None)"

lemma dup_heap_empty: "dup_heap h0 ds h \<Longrightarrow> h |` (- addrs ds) = h0"
  by (auto simp: dup_heap_def frame_def restrict_map_def fun_eq_iff)

lemma dup_heap_release:
  assumes "dup_heap h0 ds h" "list_rep h cp ds"
  shows "bindE (listEmpty h cp) (\<lambda>(h', _, freed). Inr (h', None, freed)) = Inr (h0, None, if l_free cp then map snd ds else [])"
  using listEmpty_ok[OF assms(2)] dup_heap_empty[OF assms(1)] by auto

text \<open>
  The copy stops at one of the remaining cells: its value cannot be duplicated or there is no room for
  its node, and the free method gets the values copied before it.
\<close>

definition dup_stops :: "('v heap \<Rightarrow> addr option) \<Rightarrow> 'v heap \<Rightarrow> nat \<Rightarrow> 'v alist \<Rightarrow> 'v list \<Rightarrow> 'v cells \<Rightarrow> 'v list \<Rightarrow> bool" where
  "dup_stops zm h0 n l vs rs freed \<longleftrightarrow> (\<exists>k < length rs. \<exists>es. map Some es = map (dup_value l \<circ> snd) (take k rs)
     \<and> freed = (if l_free l then vs @ es else []) \<and> (dup_value l (snd (rs ! k)) = None \<or> dup_no_room zm h0 n))"

lemma dup_stops_here:
  assumes "dup_value l (snd c) = None \<or> dup_no_room zm h0 n"
  shows "dup_stops zm h0 n l vs (c # rs) (if l_free l then vs else [])"
  using assms unfolding dup_stops_def by (intro exI[of _ 0]) auto

lemma dup_stops_later:
  assumes "dup_stops zm h0 n l (vs @ [v]) rs freed" "dup_value l (snd c) = Some v"
  shows "dup_stops zm h0 n l vs (c # rs) freed"
proof -
  obtain k es where k: "k < length rs" "map Some es = map (dup_value l \<circ> snd) (take k rs)"
    "freed = (if l_free l then (vs @ [v]) @ es else [])" "dup_value l (snd (rs ! k)) = None \<or> dup_no_room zm h0 n"
    using assms(1) unfolding dup_stops_def by blast
  then have "Suc k < length (c # rs) \<and> map Some (v # es) = map (dup_value l \<circ> snd) (take (Suc k) (c # rs))
    \<and> freed = (if l_free l then vs @ v # es else []) \<and> (dup_value l (snd ((c # rs) ! Suc k)) = None \<or> dup_no_room zm h0 n)"
    using assms(2) by simp
  then show ?thesis unfolding dup_stops_def by blast
qed

lemma dup_stops_methods:
  "same_methods l l' \<Longrightarrow> dup_stops zm h0 n l' vs rs freed = dup_stops zm h0 n l vs rs freed"
proof -
  assume m: "same_methods l l'"
  then have "dup_value l' = dup_value l" by (simp add: dup_value_def same_methods_def fun_eq_iff)
  then show ?thesis using m by (simp add: dup_stops_def same_methods_def)
qed

lemma dup_heap_dls: "dup_heap h0 ds h \<Longrightarrow> dls h0 prv cs nxt \<Longrightarrow> dls h prv cs nxt"
  using dls_alloc[of h0 prv cs nxt] dls_frame[of "addrs ds" h0 h cs prv nxt] unfolding dup_heap_def by blast

lemma dup_heap_add:
  assumes "dup_heap h0 ds h" "h p = None" "frame (insert p (addrs ds)) h h'"
  shows "dup_heap h0 (ds @ [(p, v)]) h'"
proof -
  have "h0 p = None" using assms(1,2) by (cases "p \<in> addrs ds") (auto simp: dup_heap_def frame_def)
  then show ?thesis using assms by (auto simp: dup_heap_def frame_def)
qed

lemma listDup_loop_ok:
  assumes zm: "zmalloc_ok zm" and "dls h0 prv rs None" "i_next it = first_of rs None" "i_direction it = AL_START_HEAD"
    and "dup_heap h0 ds h" "list_rep h cp ds"
  shows "\<exists>h' r freed. listDup_loop zm h cp it = Some (Inr (h', r, freed)) \<and>
    (case r of
       None \<Rightarrow> h' = h0 \<and> dup_stops zm h0 (length ds + length rs) cp (map snd ds) rs freed
     | Some cp' \<Rightarrow> freed = [] \<and> (\<exists>es. list_rep h' cp' (ds @ es) \<and> map (Some \<circ> snd) es = map (dup_value cp \<circ> snd) rs
         \<and> dup_heap h0 (ds @ es) h' \<and> same_methods cp cp'))"
  using assms(2-)
proof (induction rs arbitrary: h prv it cp ds)
  case Nil
  then have "listDup_loop zm h cp it = Some (Inr (h, Some cp, []))"
    by (subst listDup_loop.simps) (simp add: listNext_def)
  then show ?case using Nil by (auto simp: same_methods_def)
next
  case (Cons c rs)
  obtain q x where c: "c = (q, x)" by force
  have dls: "dls h prv (c # rs) None" by (rule dup_heap_dls[OF Cons.prems(4,1)])
  let ?it = "it\<lparr>i_next := first_of rs None\<rparr>"
  have nx: "listNext h it = Inr (?it, Some q)" using listNext_head[OF dls Cons.prems(2,3)] c by simp
  have at: "\<exists>n. node_at h q = Inr n \<and> n_value n = x" using dls c by (simp add: node_at_def)
  show ?case
  proof (cases "dup_value cp x")
    case None
    then have "listDup_loop zm h cp it = Some (Inr (h0, None, if l_free cp then map snd ds else []))"
      using nx at dup_heap_release[OF Cons.prems(4,5)]
      by (subst listDup_loop.simps) (auto simp: dup_value_def)
    then show ?thesis using dup_stops_here[of cp c] None c by auto
  next
    case (Some v)
    show ?thesis
    proof (cases "zm h")
      case N: None
      then have "listDup_loop zm h cp it = Some (Inr (h0, None, if l_free cp then map snd ds else []))"
        using nx at Some dup_heap_release[OF Cons.prems(4,5)]
        by (subst listDup_loop.simps) (auto simp: dup_value_def listAddNodeTail_def)
      moreover have "dup_no_room zm h0 (length ds + length (c # rs))"
        using N Cons.prems(4) by (auto simp: dup_no_room_def intro!: exI[of _ ds])
      ultimately show ?thesis using dup_stops_here[of cp c] by auto
    next
      case P: (Some p)
      have "p \<notin> addrs ds" by (rule list_rep_fresh[OF zm P Cons.prems(5)])
      from listAddNodeTail_ok[where zm = zm, OF Cons.prems(5) P this, of v] obtain h1 cp1 where a:
        "listAddNodeTail zm h cp v = Inr (h1, cp1, True)" "list_rep h1 cp1 (ds @ [(p, v)])" "same_methods cp cp1"
        "frame (insert p (addrs ds)) h h1" by blast
      have s: "listDup_loop zm h cp it = listDup_loop zm h1 cp1 ?it"
        using nx at Some a(1) by (subst listDup_loop.simps) (auto simp: dup_value_def)
      have "h p = None" using zm P by (simp add: zmalloc_ok_def)
      then have dh: "dup_heap h0 (ds @ [(p, v)]) h1" by (rule dup_heap_add[OF Cons.prems(4) _ a(4)])
      have dv: "dup_value cp1 = dup_value cp" using a(3) by (simp add: dup_value_def same_methods_def fun_eq_iff)
      have "dls h0 (Some q) rs None" using Cons.prems(1) c by simp
      from Cons.IH[OF this _ _ dh a(2), of ?it, unfolded dv dup_stops_methods[OF a(3)]] Cons.prems(3) obtain h' r freed where r:
        "listDup_loop zm h1 cp1 ?it = Some (Inr (h', r, freed))"
        "case r of None \<Rightarrow> h' = h0 \<and> dup_stops zm h0 (length (ds @ [(p, v)]) + length rs) cp (map snd (ds @ [(p, v)])) rs freed
         | Some cp' \<Rightarrow> freed = [] \<and> (\<exists>es. list_rep h' cp' ((ds @ [(p, v)]) @ es) \<and> map (Some \<circ> snd) es = map (dup_value cp \<circ> snd) rs
             \<and> dup_heap h0 ((ds @ [(p, v)]) @ es) h' \<and> same_methods cp1 cp')" by auto
      show ?thesis
      proof (cases r)
        case None
        then show ?thesis using r s dup_stops_later[of zm h0 _ cp "map snd ds" v rs freed c] c \<open>dup_value cp x = Some v\<close> by auto
      next
        case (Some cp')
        then obtain es where es: "list_rep h' cp' (ds @ (p, v) # es)" "map (Some \<circ> snd) es = map (dup_value cp \<circ> snd) rs"
          "dup_heap h0 (ds @ (p, v) # es) h'" "same_methods cp1 cp'" and fr: "freed = []" using r(2) by auto
        have "same_methods cp cp'" using a(3) es(4) by (simp add: same_methods_def)
        moreover have "map (Some \<circ> snd) ((p, v) # es) = map (dup_value cp \<circ> snd) (c # rs)"
          using es(2) c \<open>dup_value cp x = Some v\<close> by simp
        ultimately show ?thesis using r(1) s Some es fr by (intro exI[of _ h'] exI[of _ r] exI[of _ freed]) (auto intro!: exI[of _ "(p, v) # es"])
      qed
    qed
  qed
qed

lemma listDup_ok:
  assumes zm: "zmalloc_ok zm" and rep: "list_rep h l cs"
  shows "\<exists>h' r freed. listDup True zm h l = Some (Inr (h', r, freed)) \<and> list_rep h' l cs \<and>
    (case r of
       None \<Rightarrow> h' = h \<and> dup_stops zm h (length cs) l [] cs freed
     | Some cp \<Rightarrow> freed = [] \<and> (\<exists>ds. list_rep h' cp ds \<and> map (Some \<circ> snd) ds = map (dup_value l \<circ> snd) cs
         \<and> addrs ds \<inter> addrs cs = {} \<and> frame (addrs ds) h h' \<and> same_methods l cp))"
proof -
  define cp where "cp = new_list\<lparr>l_dup := l_dup l, l_free := l_free l, l_match := l_match l\<rparr>"
  have cp: "list_rep h cp []" "dup_value cp = dup_value l" "dup_heap h [] h" "same_methods l cp"
    by (auto simp: cp_def list_rep_def new_list_def dup_value_def dup_heap_def same_methods_def)
  have d: "dls h None cs None" "i_next (listRewind l) = first_of cs None" "i_direction (listRewind l) = AL_START_HEAD"
    using rep by (simp_all add: list_rep_def listRewind_def)
  have e: "listDup True zm h l = listDup_loop zm h cp (listRewind l)" by (simp add: listDup_def listCreate_def cp_def)
  from listDup_loop_ok[OF zm d cp(3,1), unfolded cp(2) dup_stops_methods[OF cp(4)]] obtain h' r freed where
    r: "listDup True zm h l = Some (Inr (h', r, freed))"
    "case r of None \<Rightarrow> h' = h \<and> dup_stops zm h (length cs) l [] cs freed
     | Some cp' \<Rightarrow> freed = [] \<and> (\<exists>es. list_rep h' cp' es \<and> map (Some \<circ> snd) es = map (dup_value l \<circ> snd) cs
         \<and> dup_heap h es h' \<and> same_methods cp cp')"
    unfolding e append_Nil list.size(3) list.map(1) add_0 by blast
  show ?thesis
  proof (cases r)
    case None
    then show ?thesis using r rep by auto
  next
    case (Some cp')
    then obtain es where es: "list_rep h' cp' es" "map (Some \<circ> snd) es = map (dup_value l \<circ> snd) cs" "dup_heap h es h'"
      "same_methods cp cp'" "freed = []"
      using r(2) by auto
    have "list_rep h' l cs" using rep dup_heap_dls[OF es(3)] by (auto simp: list_rep_def)
    moreover have "addrs es \<inter> addrs cs = {}" using es(3) dls_alloc[OF d(1)] unfolding dup_heap_def by blast
    moreover have "same_methods l cp'" using cp(4) es(4) by (simp add: same_methods_def)
    ultimately show ?thesis using r(1) Some es by (auto simp: dup_heap_def intro!: exI[of _ h'])
  qed
qed

section \<open>Sequences of operations\<close>

text \<open>
  Requests as the callers make them: nodes are looked up by index. A request on an index out of range
  does nothing.
\<close>

datatype 'v list_op = PushHead 'v | PushTail 'v | InsertAt int 'v bool | DelAt int | Rotate

definition with_index :: "'v heap \<times> 'v alist \<Rightarrow> int \<Rightarrow> (addr \<Rightarrow> ('v heap \<times> 'v alist \<times> 'r) res) \<Rightarrow> ('v heap \<times> 'v alist) res" where
  "with_index s i f = bindE (listIndex (fst s) (snd s) i) (\<lambda>r.
     case r of None \<Rightarrow> Inr s | Some p \<Rightarrow> bindE (f p) (\<lambda>(h, l, _). Inr (h, l)))"

fun list_step :: "('v heap \<Rightarrow> addr option) \<Rightarrow> 'v heap \<times> 'v alist \<Rightarrow> 'v list_op \<Rightarrow> ('v heap \<times> 'v alist) res" where
  "list_step zm s (PushHead v) = bindE (listAddNodeHead zm (fst s) (snd s) v) (\<lambda>(h, l, _). Inr (h, l))"
| "list_step zm s (PushTail v) = bindE (listAddNodeTail zm (fst s) (snd s) v) (\<lambda>(h, l, _). Inr (h, l))"
| "list_step zm s (InsertAt i v after) = with_index s i (\<lambda>p. listInsertNode zm (fst s) (snd s) p v after)"
| "list_step zm s (DelAt i) = with_index s i (\<lambda>p. listDelNode (fst s) (snd s) p)"
| "list_step zm s Rotate = listRotate (fst s) (snd s)"

fun list_run :: "('v heap \<Rightarrow> addr option) \<Rightarrow> 'v heap \<times> 'v alist \<Rightarrow> 'v list_op list \<Rightarrow> ('v heap \<times> 'v alist) res" where
  "list_run zm s [] = Inr s"
| "list_run zm s (p # ps) = bindE (list_step zm s p) (\<lambda>s'. list_run zm s' ps)"

definition list_pos :: "'v list \<Rightarrow> int \<Rightarrow> nat option" where
  "list_pos xs i = (if 0 \<le> i \<and> i < int (length xs) then Some (nat i)
     else if i < 0 \<and> - i \<le> int (length xs) then Some (nat (int (length xs) + i)) else None)"

fun list_spec :: "'v list \<Rightarrow> 'v list_op \<Rightarrow> 'v list" where
  "list_spec xs (PushHead v) = v # xs"
| "list_spec xs (PushTail v) = xs @ [v]"
| "list_spec xs (InsertAt i v after) = (case list_pos xs i of None \<Rightarrow> xs
     | Some k \<Rightarrow> let j = (if after then k + 1 else k) in take j xs @ v # drop j xs)"
| "list_spec xs (DelAt i) = (case list_pos xs i of None \<Rightarrow> xs | Some k \<Rightarrow> take k xs @ drop (k + 1) xs)"
| "list_spec xs Rotate = (if xs = [] then [] else last xs # butlast xs)"

fun op_index_ok :: "'v list_op \<Rightarrow> bool" where
  "op_index_ok (InsertAt i v after) \<longleftrightarrow> - (2 ^ 63) < i"
| "op_index_ok (DelAt i) \<longleftrightarrow> - (2 ^ 63) < i"
| "op_index_ok _ \<longleftrightarrow> True"

lemma list_index_split:
  assumes "list_rep h l cs" "- (2 ^ 63) < i"
  shows "case list_pos (map snd cs) i of
      None \<Rightarrow> listIndex h l i = Inr None
    | Some k \<Rightarrow> \<exists>as q x bs. listIndex h l i = Inr (Some q) \<and> cs = as @ (q, x) # bs \<and> k = length as"
proof (cases "list_pos (map snd cs) i")
  case None
  then show ?thesis using listIndex_ok[OF assms] by (auto simp: list_pos_def split: if_splits)
next
  case (Some k)
  then have k: "k < length cs" "listIndex h l i = Inr (Some (fst (cs ! k)))"
    using listIndex_ok[OF assms] by (auto simp: list_pos_def split: if_splits)
  have "cs = take k cs @ (fst (cs ! k), snd (cs ! k)) # drop (k + 1) cs" using id_take_nth_drop[OF k(1)] by simp
  moreover have "k = length (take k cs)" using k(1) by simp
  ultimately show ?thesis unfolding Some option.case using k(2) by blast
qed

lemma list_rep_dom: "list_rep h l cs \<Longrightarrow> addrs cs \<subseteq> dom h"
  using dls_alloc[of h None cs None] by (auto simp: list_rep_def)

lemma frame_dom: "frame S h h' \<Longrightarrow> S \<subseteq> insert p (dom h) \<Longrightarrow> dom h' \<subseteq> insert p (dom h)"
  by (rule subsetI, rule ccontr) (auto simp: frame_def)

lemma list_step_ok:
  assumes zm: "zmalloc_ok zm" "zm h = Some p" and rep: "list_rep h l cs" and i: "op_index_ok op"
  shows "\<exists>h' l' cs'. list_step zm (h, l) op = Inr (h', l') \<and> list_rep h' l' cs' \<and> map snd cs' = list_spec (map snd cs) op
    \<and> dom h' \<subseteq> insert p (dom h)"
proof -
  note p = zm(2)
  have fr: "dom h' \<subseteq> insert p (dom h)" if "frame S h h'" "S \<subseteq> insert p (addrs cs)" for S h'
    using frame_dom[OF that(1)] that(2) list_rep_dom[OF rep] by blast
  have new: "p \<notin> addrs cs" by (rule list_rep_fresh[OF zm(1) p rep])
  show ?thesis
  proof (cases op)
    case (PushHead v)
    then show ?thesis using listAddNodeHead_ok[where zm = zm, OF rep p new, of v] fr by fastforce
  next
    case (PushTail v)
    then show ?thesis using listAddNodeTail_ok[where zm = zm, OF rep p new, of v] fr by fastforce
  next
    case (InsertAt i' v after)
    show ?thesis
    proof (cases "list_pos (map snd cs) i'")
      case None
      then show ?thesis using list_index_split[OF rep, of i'] i InsertAt rep by (auto simp: with_index_def)
    next
      case (Some k)
      then obtain as q x bs where q: "listIndex h l i' = Inr (Some q)" "cs = as @ (q, x) # bs" "k = length as"
        using list_index_split[OF rep, of i'] i InsertAt by auto
      from listInsertNode_ok[where zm = zm, OF rep[unfolded q(2)] p new[unfolded q(2)], of v after]
      obtain h' l' where r: "listInsertNode zm h l q v after = Inr (h', l', True)"
        "list_rep h' l' (if after then as @ (q, x) # (p, v) # bs else as @ (p, v) # (q, x) # bs)"
        "frame (insert p (addrs (as @ (q, x) # bs))) h h'" by blast
      have "map snd (if after then as @ (q, x) # (p, v) # bs else as @ (p, v) # (q, x) # bs) = list_spec (map snd cs) op"
        using InsertAt Some q(2,3) by simp
      moreover have "dom h' \<subseteq> insert p (dom h)" by (rule fr[OF r(3)]) (simp add: q(2))
      ultimately show ?thesis using r(1,2) q(1) InsertAt by (fastforce simp: with_index_def)
    qed
  next
    case (DelAt i')
    show ?thesis
    proof (cases "list_pos (map snd cs) i'")
      case None
      then show ?thesis using list_index_split[OF rep, of i'] i DelAt rep by (auto simp: with_index_def)
    next
      case (Some k)
      then obtain as q x bs where q: "listIndex h l i' = Inr (Some q)" "cs = as @ (q, x) # bs" "k = length as"
        using list_index_split[OF rep, of i'] i DelAt by auto
      obtain h' l' vs where r: "listDelNode h l q = Inr (h', l', vs)" "list_rep h' l' (as @ bs)" "frame (addrs (as @ (q, x) # bs)) h h'"
        using listDelNode_ok[OF rep[unfolded q(2)]] by blast
      have "dom h' \<subseteq> insert p (dom h)" by (rule fr[OF r(3)]) (auto simp: q(2))
      then show ?thesis using r(1,2) q Some DelAt by (fastforce simp: with_index_def)
    qed
  next
    case Rotate
    have "map snd (if cs = [] then [] else last cs # butlast cs) = list_spec (map snd cs) op"
      using Rotate by (auto simp: last_map map_butlast)
    moreover obtain h' l' where r: "listRotate h l = Inr (h', l')" "list_rep h' l' (if cs = [] then [] else last cs # butlast cs)"
      "frame (addrs cs) h h'" using listRotate_ok[OF rep] by blast
    moreover have "dom h' \<subseteq> insert p (dom h)" by (rule fr[OF r(3)]) auto
    ultimately show ?thesis using Rotate by fastforce
  qed
qed

text \<open>\<open>zmalloc\<close> succeeds as long as fewer than \<open>n\<close> nodes are allocated.\<close>

definition zmalloc_room :: "('v heap \<Rightarrow> addr option) \<Rightarrow> nat \<Rightarrow> bool" where
  "zmalloc_room zm n \<longleftrightarrow> (\<forall>h. finite (dom h) \<and> card (dom h) < n \<longrightarrow> zm h \<noteq> None)"

text \<open>
  C5. Any sequence of insertions at both ends and around a node, deletions and rotations on the linked
  list, with nodes found by positive or negative index, never follows a null or dangling pointer, keeps
  the list well formed (both link directions, ends and length agree) and has the effect of the same
  operations on a sequence of values, as long as memory is available for the new nodes.
\<close>

theorem adlist_refines_sequence:
  assumes "zmalloc_ok zm" "zmalloc_room zm n" "list_rep h l cs" "\<forall>op \<in> set ops. op_index_ok op"
    and "finite (dom h)" "card (dom h) + length ops \<le> n"
  shows "\<exists>h' l' cs'. list_run zm (h, l) ops = Inr (h', l') \<and> list_rep h' l' cs' \<and> map snd cs' = foldl list_spec (map snd cs) ops"
  using assms(3-)
proof (induction ops arbitrary: h l cs)
  case (Cons op ops)
  obtain p where p: "zm h = Some p" using Cons.prems assms(2) by (auto simp: zmalloc_room_def)
  from list_step_ok[OF assms(1) p Cons.prems(1), of op] Cons.prems(2) obtain h1 l1 cs1 where s:
    "list_step zm (h, l) op = Inr (h1, l1)" "list_rep h1 l1 cs1" "map snd cs1 = list_spec (map snd cs) op"
    "dom h1 \<subseteq> insert p (dom h)" by auto
  have f: "finite (dom h1)" using s(4) Cons.prems(3) finite_subset by blast
  have "card (dom h1) \<le> card (insert p (dom h))" by (rule card_mono) (use s(4) Cons.prems(3) in auto)
  then have "card (dom h1) + length ops \<le> n" using Cons.prems(3,4) by (auto simp: card_insert_if split: if_splits)
  from Cons.IH[OF s(2) _ f this] Cons.prems(2) s show ?case by auto
qed auto

definition find_free :: "'v heap \<Rightarrow> addr option" where
  "find_free h = find (\<lambda>p. h p = None) [1..<9]"

lemma find_free_ok: "zmalloc_ok find_free" "zmalloc_room find_free 8"
proof -
  show "zmalloc_ok find_free" by (auto simp: zmalloc_ok_def find_free_def find_Some_iff)
  have "8 \<le> card (dom h)" if "finite (dom h)" "find_free h = None" for h :: "'v heap"
  proof -
    have "{1..<9} \<subseteq> dom h" using that(2) by (auto simp: find_free_def find_None_iff)
    from card_mono[OF that(1) this] show ?thesis by simp
  qed
  then show "zmalloc_room find_free 8" by (fastforce simp: zmalloc_room_def)
qed

theorem adlist_refines_sequence_witness:
  "\<exists>h' l' cs'. list_run find_free (Map.empty, new_list) [PushTail 2, PushTail 3, PushHead 1, InsertAt (- 1) 9 False, DelAt 1, Rotate] = Inr (h', l')
    \<and> list_rep h' l' cs' \<and> map snd cs' = [3, 1, 9 :: nat]"
  using adlist_refines_sequence[OF find_free_ok list_rep_create,
      of "[PushTail (2::nat), PushTail 3, PushHead 1, InsertAt (- 1) 9 False, DelAt 1, Rotate]" Map.empty]
  by (simp add: list_pos_def del: list_run.simps)

lemma dup_no_room_False:
  assumes "zmalloc_room zm n" "finite (dom h)" "card (dom h) + k \<le> n"
  shows "\<not> dup_no_room zm h k"
proof
  assume "dup_no_room zm h k"
  then obtain ds h' where d: "dup_heap h ds h'" "length ds < k" "zm h' = None" by (auto simp: dup_no_room_def)
  have sub: "dom h' \<subseteq> dom h \<union> addrs ds"
  proof
    fix q assume "q \<in> dom h'"
    then show "q \<in> dom h \<union> addrs ds" using d(1) by (cases "q \<in> addrs ds") (auto simp: dup_heap_def frame_def)
  qed
  have "finite (dom h')" by (rule finite_subset[OF sub]) (simp add: assms(2))
  moreover have "card (dom h') \<le> card (dom h \<union> addrs ds)" using sub assms(2) by (intro card_mono) auto
  moreover have "card (dom h \<union> addrs ds) \<le> card (dom h) + card (addrs ds)" by (rule card_Un_le)
  moreover have "card (addrs ds) \<le> length ds" by (metis card_length length_map set_map)
  ultimately show False using assms(1,3) d(2,3) by (auto simp: zmalloc_room_def)
qed

text \<open>
  C24. \<open>listDup\<close> always returns and never changes the original. Either the result is a copy, with the
  methods of the original, made of new nodes that hold the values given by the duplication method, in
  order, and no value is freed; or it is \<open>NULL\<close>, no node is left over, and either the list record could not be
  allocated or copying stopped at some cell, where the value could not be duplicated or there was no
  room for a node. The free method has then been given exactly the values copied for the cells before
  that one: not the duplicate made for the cell itself, which nothing refers to any more when only its
  node is missing, and, in a list with a free but no duplication method, values that the original still
  holds. With memory for the record and the new nodes \<open>NULL\<close> is returned only if a value cannot be duplicated.
\<close>

theorem listDup_copies:
  assumes "zmalloc_ok zm" "list_rep h l cs"
  shows "\<exists>h' r freed. listDup room zm h l = Some (Inr (h', r, freed)) \<and> list_rep h' l cs \<and>
    (case r of
       None \<Rightarrow> h' = h \<and> (if room
         then \<exists>k < length cs. \<exists>es. map Some es = map (dup_value l \<circ> snd) (take k cs) \<and> freed = (if l_free l then es else [])
           \<and> (dup_value l (snd (cs ! k)) = None \<or> dup_no_room zm h (length cs))
         else freed = [])
     | Some cp \<Rightarrow> room \<and> freed = [] \<and> (\<exists>ds. list_rep h' cp ds \<and> map (Some \<circ> snd) ds = map (dup_value l \<circ> snd) cs
         \<and> addrs ds \<inter> addrs cs = {} \<and> frame (addrs ds) h h' \<and> same_methods l cp)) \<and>
    (room \<and> zmalloc_room zm n \<and> finite (dom h) \<and> card (dom h) + length cs \<le> n \<longrightarrow>
       (r = None \<longleftrightarrow> (\<exists>c \<in> set cs. dup_value l (snd c) = None)))"
proof (cases room)
  case False
  then show ?thesis using assms(2) by (simp add: listDup_def listCreate_def)
next
  case True
  obtain h' r freed where r: "listDup True zm h l = Some (Inr (h', r, freed))" "list_rep h' l cs"
    "case r of
       None \<Rightarrow> h' = h \<and> dup_stops zm h (length cs) l [] cs freed
     | Some cp \<Rightarrow> freed = [] \<and> (\<exists>ds. list_rep h' cp ds \<and> map (Some \<circ> snd) ds = map (dup_value l \<circ> snd) cs
         \<and> addrs ds \<inter> addrs cs = {} \<and> frame (addrs ds) h h' \<and> same_methods l cp)"
    using listDup_ok[OF assms] by blast
  show ?thesis
  proof (cases r)
    case None
    have st: "\<exists>k < length cs. \<exists>es. map Some es = map (dup_value l \<circ> snd) (take k cs) \<and> freed = (if l_free l then es else [])
      \<and> (dup_value l (snd (cs ! k)) = None \<or> dup_no_room zm h (length cs))" and h: "h' = h"
      using r(3) unfolding None option.case dup_stops_def append_Nil by blast+
    moreover have "\<exists>c \<in> set cs. dup_value l (snd c) = None"
      if "zmalloc_room zm n \<and> finite (dom h) \<and> card (dom h) + length cs \<le> n"
      using st dup_no_room_False[of zm n h "length cs"] that nth_mem by blast
    ultimately show ?thesis using r(1,2) True None by (intro exI[of _ h'] exI[of _ r] exI[of _ freed]) simp
  next
    case (Some cp)
    then obtain ds where ds: "list_rep h' cp ds" "map (Some \<circ> snd) ds = map (dup_value l \<circ> snd) cs" using r(3) unfolding Some option.case by blast
    have "dup_value l (snd c) \<noteq> None" if "c \<in> set cs" for c
    proof -
      have "dup_value l (snd c) \<in> set (map (Some \<circ> snd) ds)" using that unfolding ds(2) by auto
      then show ?thesis by auto
    qed
    then show ?thesis using r Some True by auto
  qed
qed

definition small_heap :: "nat heap" where
  "small_heap = [1 \<mapsto> \<lparr>n_prev = None, n_next = Some 2, n_value = 7\<rparr>, 2 \<mapsto> \<lparr>n_prev = Some 1, n_next = None, n_value = 8\<rparr>]"

definition small_list :: "nat alist" where
  "small_list = new_list\<lparr>l_head := Some 1, l_tail := Some 2, l_len := 2\<rparr>"

lemma small_list_rep: "list_rep small_heap small_list [(1, 7), (2, 8)]"
  by (simp add: list_rep_def small_heap_def small_list_def)

theorem listDup_copies_witness:
  "\<exists>h' r freed. listDup True find_free small_heap small_list = Some (Inr (h', r, freed))
    \<and> list_rep h' small_list [(1, 7), (2, 8)] \<and> r \<noteq> None \<and> freed = []"
proof -
  have "finite (dom small_heap)" "card (dom small_heap) + length [(1, 7), (2, 8) :: nat \<times> nat] \<le> 8" "dup_value small_list = Some"
    by (simp_all add: small_heap_def small_list_def dup_value_def new_list_def fun_eq_iff)
  then show ?thesis using listDup_copies[OF find_free_ok(1) small_list_rep, of True 8] find_free_ok(2) by (auto split: option.splits)
qed

text \<open>
  Two lists with disjoint nodes are joined in constant time into one list with the values of both;
  the second list is left empty but valid, and no other node is touched.
\<close>

lemma listJoin_appends:
  assumes "list_rep h l cs" "list_rep h m ds" "addrs cs \<inter> addrs ds = {}"
  shows "\<exists>h' l' m'. listJoin h l m = Inr (h', l', m') \<and> list_rep h' l' (cs @ ds) \<and> list_rep h' m' []
    \<and> same_methods l l' \<and> same_methods m m' \<and> frame (addrs (cs @ ds)) h h'"
  by (rule listJoin_ok[OF assms])

lemma listJoin_appends_witness:
  "\<exists>h' l' m'. listJoin small_heap small_list new_list = Inr (h', l', m') \<and> list_rep h' l' ([(1, 7), (2, 8)] @ [])
    \<and> list_rep h' m' []"
  using listJoin_appends[OF small_list_rep list_rep_create] by auto

end
