(* ===== verification/LogSpec.thy ===== *)
theory LogSpec
  imports Prelude
begin

text \<open>
  The interface of a list used as a log: entries are pushed at the head, the oldest one is removed at
  the tail, and the length is known. \<open>rep s xs\<close> relates a state to its entries, newest first.
\<close>

text \<open>\<open>while (length > max) remove the last\<close>; \<open>None\<close> is a run that does not return.\<close>

partial_function (option) trim_log :: "('s \<Rightarrow> nat) \<Rightarrow> ('s \<Rightarrow> 's res) \<Rightarrow> nat \<Rightarrow> 's \<Rightarrow> 's res option" where
  "trim_log len del mx s =
     (if len s > mx then (case del s of Inl e \<Rightarrow> Some (Inl e) | Inr s' \<Rightarrow> trim_log len del mx s') else Some (Inr s))"

locale log_list =
  fixes rep :: "'s \<Rightarrow> 'v list \<Rightarrow> bool" and add_head :: "'s \<Rightarrow> 'v \<Rightarrow> 's res" and del_last :: "'s \<Rightarrow> 's res"
    and len :: "'s \<Rightarrow> nat" and room :: "'s \<Rightarrow> bool"
  assumes add_head_rep: "rep s xs \<Longrightarrow> room s \<Longrightarrow> \<exists>s'. add_head s v = Inr s' \<and> rep s' (v # xs)"
    and del_last_rep: "rep s xs \<Longrightarrow> xs \<noteq> [] \<Longrightarrow> \<exists>s'. del_last s = Inr s' \<and> rep s' (butlast xs)"
    and len_rep: "rep s xs \<Longrightarrow> len s = length xs"
begin

text \<open>Trimming returns and keeps the newest entries.\<close>

lemma trim_log_take: "rep s xs \<Longrightarrow> \<exists>s'. trim_log len del_last mx s = Some (Inr s') \<and> rep s' (take mx xs)"
proof (induction xs arbitrary: s rule: rev_induct)
  case Nil
  then show ?case by (subst trim_log.simps) (simp add: len_rep)
next
  case (snoc x xs)
  show ?case
  proof (cases "mx < length (xs @ [x])")
    case True
    obtain s' where s': "del_last s = Inr s'" "rep s' xs" using del_last_rep[OF snoc.prems] by auto
    have "trim_log len del_last mx s = trim_log len del_last mx s'"
      using True s'(1) len_rep[OF snoc.prems] by (subst trim_log.simps) simp
    then show ?thesis using snoc.IH[OF s'(2)] True by simp
  next
    case False
    then show ?thesis using snoc.prems len_rep[OF snoc.prems] by (subst trim_log.simps) simp
  qed
qed

lemma push_trim:
  assumes "rep s xs" "room s"
  shows "\<exists>s1 s2. add_head s v = Inr s1 \<and> trim_log len del_last mx s1 = Some (Inr s2) \<and> rep s2 (take mx (v # xs))"
  using add_head_rep[OF assms] trim_log_take by blast

end

end
