(* ===== verification/Slowlog.thy ===== *)
theory Slowlog
  imports Adlist LogSpec Decimal
begin

text \<open>
  The slow log of \<open>slowlog.c\<close>: a linked list of the most recent slow commands. The clock, the client's
  address and name, and the node allocator are arguments; objects are represented by their bytes. The
  identifier of an entry, a \<open>long long\<close> that counts the entries logged since the start, is an \<open>int\<close> here:
  the model does not follow it past \<open>2\<^sup>6\<^sup>3\<close> entries. The client's name has no zero byte, which
  \<open>CLIENT SETNAME\<close> checks before it is set.
\<close>

section \<open>Entries\<close>

definition SLOWLOG_ENTRY_MAX_ARGC :: nat where "SLOWLOG_ENTRY_MAX_ARGC = 32"

definition SLOWLOG_ENTRY_MAX_STRING :: nat where "SLOWLOG_ENTRY_MAX_STRING = 128"

text \<open>An argument of a command: whether it is a string object in sds encoding, and its bytes.\<close>

record sl_obj =
  o_sds :: bool
  o_bytes :: "byte list"

record sl_client =
  c_peerid :: "byte list"
  c_name :: "byte list option"

record slowlogEntry =
  se_argv :: "byte list list"
  se_argc :: nat
  se_id :: int
  se_duration :: int
  se_time :: int
  se_cname :: "byte list"
  se_peerid :: "byte list"

definition slowlog_arg :: "sl_obj list \<Rightarrow> nat \<Rightarrow> nat \<Rightarrow> byte list" where
  "slowlog_arg argv slargc j =
     (if slargc \<noteq> length argv \<and> j = slargc - 1
      then bytes_of ''... ('' @ dec_nat (length argv - slargc + 1) @ bytes_of '' more arguments)''
      else if o_sds (argv ! j) \<and> length (o_bytes (argv ! j)) > SLOWLOG_ENTRY_MAX_STRING
      then take SLOWLOG_ENTRY_MAX_STRING (o_bytes (argv ! j)) @
           bytes_of ''... ('' @ dec_nat (length (o_bytes (argv ! j)) - SLOWLOG_ENTRY_MAX_STRING) @ bytes_of '' more bytes)''
      else o_bytes (argv ! j))"

definition slowlogCreateEntry :: "int \<Rightarrow> int \<Rightarrow> sl_client \<Rightarrow> sl_obj list \<Rightarrow> int \<Rightarrow> slowlogEntry" where
  "slowlogCreateEntry now entry_id c argv duration =
     (let slargc = (if length argv > SLOWLOG_ENTRY_MAX_ARGC then SLOWLOG_ENTRY_MAX_ARGC else length argv) in
      \<lparr>se_argv = map (slowlog_arg argv slargc) [0..<slargc], se_argc = slargc, se_id = entry_id, se_duration = duration,
       se_time = now, se_cname = (case c_name c of Some n \<Rightarrow> n | None \<Rightarrow> []), se_peerid = c_peerid c\<rparr>)"

section \<open>The log\<close>

record slow_server =
  sl_heap :: "slowlogEntry heap"
  sl_list :: "slowlogEntry alist"
  sl_entry_id :: int
  sl_slower_than :: int
  sl_max_len :: nat

definition slowlogInit :: "bool \<Rightarrow> slow_server \<Rightarrow> slow_server res" where
  "slowlogInit room s = (case listCreate room of
     None \<Rightarrow> Inl NullDeref
   | Some l \<Rightarrow> Inr (s\<lparr>sl_list := l\<lparr>l_free := True\<rparr>, sl_entry_id := 0\<rparr>))"

text \<open>The two list operations the log uses; \<open>listLast\<close> is the tail pointer.\<close>

definition log_add :: "(slowlogEntry heap \<Rightarrow> addr option) \<Rightarrow> slow_server \<Rightarrow> slowlogEntry \<Rightarrow> slow_server res" where
  "log_add zm s e = bindE (listAddNodeHead zm (sl_heap s) (sl_list s) e) (\<lambda>(h, l, _). Inr (s\<lparr>sl_heap := h, sl_list := l\<rparr>))"

definition log_del :: "slow_server \<Rightarrow> slow_server res" where
  "log_del s = (case l_tail (sl_list s) of
     None \<Rightarrow> Inl NullDeref
   | Some p \<Rightarrow> bindE (listDelNode (sl_heap s) (sl_list s) p) (\<lambda>(h, l, _). Inr (s\<lparr>sl_heap := h, sl_list := l\<rparr>)))"

definition log_len :: "slow_server \<Rightarrow> nat" where
  "log_len s = l_len (sl_list s)"

definition slowlogPushEntryIfNeeded ::
    "(slowlogEntry heap \<Rightarrow> addr option) \<Rightarrow> int \<Rightarrow> slow_server \<Rightarrow> sl_client \<Rightarrow> sl_obj list \<Rightarrow> int \<Rightarrow> slow_server res option" where
  "slowlogPushEntryIfNeeded zm now s c argv duration =
     (if sl_slower_than s < 0 then Some (Inr s)
      else
        (case (if duration \<ge> sl_slower_than s
               then log_add zm (s\<lparr>sl_entry_id := sl_entry_id s + 1\<rparr>) (slowlogCreateEntry now (sl_entry_id s) c argv duration)
               else Inr s) of
           Inl e \<Rightarrow> Some (Inl e)
         | Inr s1 \<Rightarrow> trim_log log_len log_del (sl_max_len s1) s1))"

definition slowlogReset :: "slow_server \<Rightarrow> slow_server res option" where
  "slowlogReset s = trim_log log_len log_del 0 s"

text \<open>
  The loop of \<open>SLOWLOG GET\<close>: \<open>count\<close> is decremented before each test, so that a negative count is not a
  limit.
\<close>

partial_function (option) slowlogGet_loop :: "slowlogEntry heap \<Rightarrow> listIter \<Rightarrow> int \<Rightarrow> slowlogEntry list \<Rightarrow> slowlogEntry list res option" where
  "slowlogGet_loop h it cnt sent =
     (if cnt = 0 then Some (Inr sent)
      else (case listNext h it of
        Inl e \<Rightarrow> Some (Inl e)
      | Inr (it', None) \<Rightarrow> Some (Inr sent)
      | Inr (it', Some p) \<Rightarrow>
          (case node_at h p of
             Inl e \<Rightarrow> Some (Inl e)
           | Inr n \<Rightarrow> slowlogGet_loop h it' (cnt - 1) (sent @ [n_value n]))))"

definition slowlogGet :: "slow_server \<Rightarrow> int \<Rightarrow> slowlogEntry list res option" where
  "slowlogGet s cnt = slowlogGet_loop (sl_heap s) (listRewind (sl_list s)) cnt []"

section \<open>Correctness\<close>

definition slow_rep :: "slow_server \<Rightarrow> slowlogEntry list \<Rightarrow> bool" where
  "slow_rep s es \<longleftrightarrow> (\<exists>cs. list_rep (sl_heap s) (sl_list s) cs \<and> es = map snd cs)"

definition log_room :: "(slowlogEntry heap \<Rightarrow> addr option) \<Rightarrow> slow_server \<Rightarrow> bool" where
  "log_room zm s \<longleftrightarrow> zmalloc_ok zm \<and> zm (sl_heap s) \<noteq> None"

text \<open>What the log operations leave alone.\<close>

lemma log_add_keeps: "log_add zm s e = Inr s' \<Longrightarrow> sl_entry_id s' = sl_entry_id s \<and> sl_slower_than s' = sl_slower_than s \<and> sl_max_len s' = sl_max_len s"
  by (auto simp: log_add_def bindE_eq_Inr split: prod.splits)

definition log_state :: "int \<times> int \<times> nat \<Rightarrow> slow_server \<Rightarrow> slowlogEntry list \<Rightarrow> bool" where
  "log_state c s es \<longleftrightarrow> slow_rep s es \<and> c = (sl_entry_id s, sl_slower_than s, sl_max_len s)"

interpretation slow_log: log_list "log_state c" "log_add zm" log_del log_len "log_room zm" for zm c
proof unfold_locales
  fix s es v assume h: "log_state c s es" "log_room zm s"
  then obtain cs p where cs: "list_rep (sl_heap s) (sl_list s) cs" "es = map snd cs" and p: "zm (sl_heap s) = Some p" "zmalloc_ok zm"
    by (auto simp: slow_rep_def log_room_def log_state_def)
  have "p \<notin> addrs cs" by (rule list_rep_fresh[OF p(2,1) cs(1)])
  from listAddNodeHead_ok[where zm = zm, OF cs(1) p(1) this, of v] cs(2) h(1)
  show "\<exists>s'. log_add zm s v = Inr s' \<and> log_state c s' (v # es)"
    by (fastforce simp: log_add_def slow_rep_def log_state_def)
next
  fix s es assume h: "log_state c s es" "es \<noteq> []"
  then obtain as q x where cs: "list_rep (sl_heap s) (sl_list s) (as @ [(q, x)])" "es = map snd (as @ [(q, x)])"
    unfolding slow_rep_def log_state_def by (metis list.map_disc_iff prod.exhaust_sel rev_exhaust)
  then have "l_tail (sl_list s) = Some q" by (simp add: list_rep_def)
  then show "\<exists>s'. log_del s = Inr s' \<and> log_state c s' (butlast es)"
    using listDelNode_ok[OF cs(1)] cs(2) h(1) by (fastforce simp: log_del_def slow_rep_def log_state_def)
next
  fix s es assume "log_state c s es"
  then show "log_len s = length es" by (auto simp: log_state_def slow_rep_def list_rep_def log_len_def)
qed

text \<open>
  C12. Recording a command in the slow log returns and keeps the log well formed: with the log disabled
  nothing changes; a command that took at least the configured time is put in front with the next
  identifier; and afterwards the log holds the newest entries, at most the configured number.
\<close>

theorem slowlogPush_bounded:
  assumes "slow_rep s es" "log_room zm s"
  shows "\<exists>s'. slowlogPushEntryIfNeeded zm now s c argv duration = Some (Inr s') \<and>
    (if sl_slower_than s < 0 then s' = s
     else if duration < sl_slower_than s then slow_rep s' (take (sl_max_len s) es) \<and> sl_entry_id s' = sl_entry_id s
     else slow_rep s' (take (sl_max_len s) (slowlogCreateEntry now (sl_entry_id s) c argv duration # es))
       \<and> sl_entry_id s' = sl_entry_id s + 1)"
proof -
  define s1 where "s1 = s\<lparr>sl_entry_id := sl_entry_id s + 1\<rparr>"
  define e where "e = slowlogCreateEntry now (sl_entry_id s) c argv duration"
  let ?c0 = "(sl_entry_id s, sl_slower_than s, sl_max_len s)" and ?c1 = "(sl_entry_id s + 1, sl_slower_than s, sl_max_len s)"
  have l0: "log_state ?c0 s es" using assms(1) by (simp add: log_state_def)
  have l1: "log_state ?c1 s1 es" "log_room zm s1" using assms by (simp_all add: log_state_def s1_def slow_rep_def log_room_def)
  obtain t where t: "trim_log log_len log_del (sl_max_len s) s = Some (Inr t)" "log_state ?c0 t (take (sl_max_len s) es)"
    using slow_log.trim_log_take[OF l0] by blast
  obtain u v where u: "log_add zm s1 e = Inr u" "trim_log log_len log_del (sl_max_len s) u = Some (Inr v)"
    "log_state ?c1 v (take (sl_max_len s) (e # es))"
    using slow_log.push_trim[OF l1] by blast
  have m: "sl_max_len u = sl_max_len s" using log_add_keeps[OF u(1)] by (simp add: s1_def)
  have "slowlogPushEntryIfNeeded zm now s c argv duration = Some (Inr (if sl_slower_than s < 0 then s else if duration < sl_slower_than s then t else v))"
    using t(1) u(1,2) m unfolding slowlogPushEntryIfNeeded_def s1_def[symmetric] e_def[symmetric] by simp
  then show ?thesis using t(2) u(3) unfolding e_def[symmetric] by (auto simp: log_state_def)
qed

lemma slowlogInit_rep:
  "slowlogInit room s = (if room then Inr (s\<lparr>sl_list := new_list\<lparr>l_free := True\<rparr>, sl_entry_id := 0\<rparr>) else Inl NullDeref)"
  "slow_rep (s\<lparr>sl_list := new_list\<lparr>l_free := True\<rparr>, sl_entry_id := 0\<rparr>) []"
  by (simp_all add: slowlogInit_def listCreate_def slow_rep_def list_rep_def new_list_def)

definition fresh_server :: slow_server where
  "fresh_server = \<lparr>sl_heap = Map.empty, sl_list = new_list\<lparr>l_free := True\<rparr>, sl_entry_id = 0, sl_slower_than = 10, sl_max_len = 2\<rparr>"

lemma fresh_server_init: "slowlogInit True (fresh_server\<lparr>sl_entry_id := 5\<rparr>) = Inr fresh_server"
  by (simp add: slowlogInit_rep(1) fresh_server_def)

lemma fresh_server_rep: "slow_rep fresh_server []" "log_room find_free fresh_server"
  using slowlogInit_rep(2)[of fresh_server]
  by (simp_all add: fresh_server_def slow_rep_def log_room_def find_free_ok) (simp add: find_free_def upt_rec[of "Suc 0"])

theorem slowlogPush_bounded_witness:
  "\<exists>s'. slowlogPushEntryIfNeeded find_free 100 fresh_server \<lparr>c_peerid = [], c_name = None\<rparr> [\<lparr>o_sds = True, o_bytes = [71]\<rparr>] 20 = Some (Inr s')
     \<and> slow_rep s' [slowlogCreateEntry 100 0 \<lparr>c_peerid = [], c_name = None\<rparr> [\<lparr>o_sds = True, o_bytes = [71]\<rparr>] 20] \<and> sl_entry_id s' = 1"
  using slowlogPush_bounded[OF fresh_server_rep, of 100 "\<lparr>c_peerid = [], c_name = None\<rparr>" "[\<lparr>o_sds = True, o_bytes = [71]\<rparr>]" 20]
  by (simp add: fresh_server_def)

lemma slowlogGet_loop_ok:
  assumes "dls h prv cs None" "i_next it = first_of cs None" "i_direction it = AL_START_HEAD"
  shows "slowlogGet_loop h it cnt sent = Some (Inr (sent @ (if cnt < 0 then map snd cs else take (nat cnt) (map snd cs))))"
  using assms
proof (induction cs arbitrary: prv it cnt sent)
  case Nil
  then show ?case by (subst slowlogGet_loop.simps) (simp add: listNext_def)
next
  case (Cons c cs)
  obtain p v where c: "c = (p, v)" by force
  have nx: "listNext h it = Inr (it\<lparr>i_next := first_of cs None\<rparr>, Some p)" using listNext_head[OF Cons.prems] c by simp
  have "nat cnt = Suc (nat (cnt - 1))" if "0 < cnt" using that by simp
  then show ?case using nx Cons.prems Cons.IH[of "Some p" "it\<lparr>i_next := first_of cs None\<rparr>" "cnt - 1" "sent @ [v]"] c
    by (subst slowlogGet_loop.simps) (auto simp: node_at_def)
qed

text \<open>
  \<open>SLOWLOG GET\<close> returns the newest entries in order, as many as asked for, or all of them when the
  count is negative; \<open>SLOWLOG RESET\<close> empties the log.
\<close>

lemma slowlogGet_newest:
  assumes "slow_rep s es"
  shows "slowlogGet s cnt = Some (Inr (if cnt < 0 then es else take (nat cnt) es))
    \<and> (\<exists>s'. slowlogReset s = Some (Inr s') \<and> slow_rep s' [])"
proof -
  obtain cs where cs: "list_rep (sl_heap s) (sl_list s) cs" "es = map snd cs" using assms by (auto simp: slow_rep_def)
  have "slowlogGet s cnt = Some (Inr (if cnt < 0 then es else take (nat cnt) es))"
    using slowlogGet_loop_ok[of "sl_heap s" None cs "listRewind (sl_list s)" cnt "[]"] cs
    by (simp add: slowlogGet_def list_rep_def listRewind_def)
  moreover have "log_state (sl_entry_id s, sl_slower_than s, sl_max_len s) s es" using assms by (simp add: log_state_def)
  then have "\<exists>s'. slowlogReset s = Some (Inr s') \<and> slow_rep s' []"
    using slow_log.trim_log_take[of _ s es 0] by (fastforce simp: slowlogReset_def log_state_def)
  ultimately show ?thesis by blast
qed

lemma slowlogGet_newest_witness: "slowlogGet fresh_server (- 1) = Some (Inr [])"
  using slowlogGet_newest[OF fresh_server_rep(1), of "- 1"] by simp

text \<open>How an argument appears in an entry, and the note that stands for the arguments left out.\<close>

definition shown_arg :: "sl_obj \<Rightarrow> byte list" where
  "shown_arg a = (if o_sds a \<and> 128 < length (o_bytes a)
     then take 128 (o_bytes a) @ bytes_of ''... ('' @ dec_nat (length (o_bytes a) - 128) @ bytes_of '' more bytes)''
     else o_bytes a)"

definition args_note :: "nat \<Rightarrow> byte list" where
  "args_note n = bytes_of ''... ('' @ dec_nat n @ bytes_of '' more arguments)''"

lemma slowlog_arg_shown: "slowlog_arg argv slargc j =
  (if slargc \<noteq> length argv \<and> j = slargc - 1 then args_note (length argv - slargc + 1) else shown_arg (argv ! j))"
  by (simp add: slowlog_arg_def shown_arg_def args_note_def SLOWLOG_ENTRY_MAX_STRING_def)

lemma shown_arg_length: "o_sds a \<Longrightarrow> length (o_bytes a) < 10 ^ 20 \<Longrightarrow> length (shown_arg a) \<le> 165"
  using length_dec_nat[of "length (o_bytes a) - 128" 20] by (auto simp: shown_arg_def bytes_of_def)

lemma args_note_length: "n < 10 ^ 20 \<Longrightarrow> length (args_note n) \<le> 165"
  using length_dec_nat[of n 20] by (simp add: args_note_def bytes_of_def)

lemma slowlog_args:
  "se_argv (slowlogCreateEntry now entry_id c argv duration) =
    (if length argv \<le> 32 then map shown_arg argv else map shown_arg (take 31 argv) @ [args_note (length argv - 31)])"
proof (cases "length argv \<le> 32")
  case True
  then show ?thesis by (auto simp: slowlogCreateEntry_def slowlog_arg_shown SLOWLOG_ENTRY_MAX_ARGC_def Let_def intro!: nth_equalityI)
next
  case False
  have "[0..<32::nat] = [0..<31] @ [31]" by (simp add: upt_rec)
  moreover have "map (slowlog_arg argv 32) [0..<31] = map shown_arg (take 31 argv)"
    using False by (auto simp: slowlog_arg_shown intro!: nth_equalityI)
  moreover have "slowlog_arg argv 32 31 = args_note (length argv - 31)"
  proof -
    have "length argv - 32 + 1 = length argv - 31" using False by linarith
    then show ?thesis using False unfolding slowlog_arg_shown by simp
  qed
  ultimately show ?thesis using False by (simp add: slowlogCreateEntry_def SLOWLOG_ENTRY_MAX_ARGC_def)
qed

text \<open>
  C38. What an entry of the slow log says about the command. Up to 32 arguments are recorded one by one;
  of a longer command the first 31 are, and the last recorded argument says how many are missing. An
  argument is recorded as its bytes, except that one in sds encoding of more than 128 bytes is cut to
  its first 128 bytes and a note of how many were left out. So a recorded argument that comes from one in
  sds encoding, or is the final note, has at most 165 bytes if lengths and counts fit 20 decimal digits.
  The identifier, duration, time and the client's address and name are recorded as they are.
\<close>

theorem slowlogCreateEntry_contents:
  assumes "length argv < 10 ^ 20"
  shows "let e = slowlogCreateEntry now entry_id c argv duration in
    se_argc e = min (length argv) 32 \<and> length (se_argv e) = se_argc e \<and>
    se_argv e = (if length argv \<le> 32 then map shown_arg argv
                 else map shown_arg (take 31 argv) @ [args_note (length argv - 31)]) \<and>
    (\<forall>j < se_argc e. o_sds (argv ! j) \<and> length (o_bytes (argv ! j)) < 10 ^ 20 \<longrightarrow> length (se_argv e ! j) \<le> 165) \<and>
    se_id e = entry_id \<and> se_duration e = duration \<and> se_time e = now \<and> se_peerid e = c_peerid c \<and>
    se_cname e = (case c_name c of Some n \<Rightarrow> n | None \<Rightarrow> [])"
proof -
  let ?e = "slowlogCreateEntry now entry_id c argv duration"
  have c: "se_argc ?e = min (length argv) 32" "length (se_argv ?e) = se_argc ?e"
    by (simp_all add: slowlogCreateEntry_def SLOWLOG_ENTRY_MAX_ARGC_def Let_def)
  have "length (se_argv ?e ! j) \<le> 165" if "j < se_argc ?e" "o_sds (argv ! j)" "length (o_bytes (argv ! j)) < 10 ^ 20" for j
    using that c assms shown_arg_length[of "argv ! j"] args_note_length[of "length argv - 31"]
    by (auto simp: slowlog_args nth_append)
  moreover have "se_id ?e = entry_id \<and> se_duration ?e = duration \<and> se_time ?e = now \<and> se_peerid ?e = c_peerid c
    \<and> se_cname ?e = (case c_name c of Some n \<Rightarrow> n | None \<Rightarrow> [])" by (simp add: slowlogCreateEntry_def Let_def)
  ultimately show ?thesis unfolding Let_def using c slowlog_args by blast
qed

theorem slowlogCreateEntry_contents_witness:
  "se_argv (slowlogCreateEntry 0 0 \<lparr>c_peerid = [], c_name = None\<rparr>
      (\<lparr>o_sds = True, o_bytes = replicate 130 65\<rparr> # replicate 39 \<lparr>o_sds = True, o_bytes = [66]\<rparr>) 1)
   = (replicate 128 65 @ bytes_of ''... (2 more bytes)'') # replicate 30 [66] @ [bytes_of ''... (9 more arguments)'']"
proof -
  have d: "dec_nat 2 = bytes_of ''2''" "dec_nat 9 = bytes_of ''9''"
    by (simp_all add: dec_nat.simps bytes_of_def)
  show ?thesis
    using slowlogCreateEntry_contents[of "\<lparr>o_sds = True, o_bytes = replicate 130 65\<rparr> # replicate 39 \<lparr>o_sds = True, o_bytes = [66]\<rparr>"
      0 0 "\<lparr>c_peerid = [], c_name = None\<rparr>" 1] d
    by (simp add: Let_def shown_arg_def args_note_def take_Cons' bytes_of_def)
qed

end
