(* ===== verification/Listpack.thy ===== *)
theory Listpack
  imports Util
begin

text \<open>
  The listpack of \<open>listpack.c\<close>: a sequence of strings packed into one region of memory. A header of
  six bytes holds the total number of bytes and the number of elements, a byte \<open>0xFF\<close> ends the
  region. An element is stored as an integer of 7 to 64 bits when it is the decimal representation of
  one, and as a string otherwise; it is followed by its own length, written so that it can be read
  from the right. A pointer to an element is its offset in the region.
\<close>

section \<open>Constants and header\<close>

definition LP_HDR_SIZE :: nat where "LP_HDR_SIZE = 6"

definition LP_HDR_NUMELE_UNKNOWN :: nat where "LP_HDR_NUMELE_UNKNOWN = 65535"

definition LP_EOF :: byte where "LP_EOF = 0xFF"

definition LP_INTBUF_SIZE :: nat where "LP_INTBUF_SIZE = 21"

datatype lp_where = LP_BEFORE | LP_AFTER | LP_REPLACE

datatype lp_enctype = LP_ENCODING_INT | LP_ENCODING_STRING

text \<open>The masks that tell the encodings apart by the first byte of an entry.\<close>

definition LP_ENCODING_IS_7BIT_UINT :: "byte \<Rightarrow> bool" where
  "LP_ENCODING_IS_7BIT_UINT b \<longleftrightarrow> b AND 0x80 = 0"

definition LP_ENCODING_IS_6BIT_STR :: "byte \<Rightarrow> bool" where
  "LP_ENCODING_IS_6BIT_STR b \<longleftrightarrow> b AND 0xC0 = 0x80"

definition LP_ENCODING_IS_13BIT_INT :: "byte \<Rightarrow> bool" where
  "LP_ENCODING_IS_13BIT_INT b \<longleftrightarrow> b AND 0xE0 = 0xC0"

definition LP_ENCODING_IS_12BIT_STR :: "byte \<Rightarrow> bool" where
  "LP_ENCODING_IS_12BIT_STR b \<longleftrightarrow> b AND 0xF0 = 0xE0"

definition LP_ENCODING_IS_16BIT_INT :: "byte \<Rightarrow> bool" where
  "LP_ENCODING_IS_16BIT_INT b \<longleftrightarrow> b AND 0xFF = 0xF1"

definition LP_ENCODING_IS_24BIT_INT :: "byte \<Rightarrow> bool" where
  "LP_ENCODING_IS_24BIT_INT b \<longleftrightarrow> b AND 0xFF = 0xF2"

definition LP_ENCODING_IS_32BIT_INT :: "byte \<Rightarrow> bool" where
  "LP_ENCODING_IS_32BIT_INT b \<longleftrightarrow> b AND 0xFF = 0xF3"

definition LP_ENCODING_IS_64BIT_INT :: "byte \<Rightarrow> bool" where
  "LP_ENCODING_IS_64BIT_INT b \<longleftrightarrow> b AND 0xFF = 0xF4"

definition LP_ENCODING_IS_32BIT_STR :: "byte \<Rightarrow> bool" where
  "LP_ENCODING_IS_32BIT_STR b \<longleftrightarrow> b AND 0xFF = 0xF0"

text \<open>The little-endian fields: \<open>k\<close> bytes from offset \<open>p\<close>.\<close>

definition lp_field :: "byte list \<Rightarrow> nat \<Rightarrow> nat \<Rightarrow> nat res" where
  "lp_field lp p k = bindE (mem_read lp p k) (\<lambda>bs. Inr (le_val bs))"

definition LP_ENCODING_6BIT_STR_LEN :: "byte list \<Rightarrow> nat \<Rightarrow> nat res" where
  "LP_ENCODING_6BIT_STR_LEN lp p = bindE (getb lp p) (\<lambda>b. Inr (unat (b AND 0x3F)))"

definition LP_ENCODING_12BIT_STR_LEN :: "byte list \<Rightarrow> nat \<Rightarrow> nat res" where
  "LP_ENCODING_12BIT_STR_LEN lp p =
     bindE (getb lp p) (\<lambda>b0. bindE (getb lp (p + 1)) (\<lambda>b1.
       Inr (push_bit 8 (unat (b0 AND 0xF)) OR unat b1)))"

definition LP_ENCODING_32BIT_STR_LEN :: "byte list \<Rightarrow> nat \<Rightarrow> nat res" where
  "LP_ENCODING_32BIT_STR_LEN lp p = lp_field lp (p + 1) 4"

definition lpGetTotalBytes :: "byte list \<Rightarrow> nat res" where
  "lpGetTotalBytes lp = lp_field lp 0 4"

definition lpGetNumElements :: "byte list \<Rightarrow> nat res" where
  "lpGetNumElements lp = lp_field lp 4 2"

definition lpSetTotalBytes :: "byte list \<Rightarrow> nat \<Rightarrow> byte list res" where
  "lpSetTotalBytes lp v = mem_write lp 0 (le_bytes 4 v)"

definition lpSetNumElements :: "byte list \<Rightarrow> nat \<Rightarrow> byte list res" where
  "lpSetNumElements lp v = mem_write lp 4 (le_bytes 2 v)"

section \<open>Encoding\<close>

text \<open>The digit loop of \<open>lpStringToInt64\<close>; \<open>None\<close> is the return on overflow.\<close>

function lpStringToInt64_loop :: "byte list \<Rightarrow> nat \<Rightarrow> nat \<Rightarrow> nat \<Rightarrow> (nat \<times> nat) option res" where
  "lpStringToInt64_loop s slen plen v =
     (if plen < slen then
        bindE (getb s plen) (\<lambda>c.
          if c \<ge> 48 \<and> c \<le> 57 then
            if v > (2 ^ 64 - 1) div 10 then Inr None
            else if v * 10 > (2 ^ 64 - 1) - (unat c - 48) then Inr None
            else lpStringToInt64_loop s slen (plen + 1) (v * 10 + (unat c - 48))
          else Inr (Some (plen, v)))
      else Inr (Some (plen, v)))"
  by pat_completeness auto
termination by (relation "measure (\<lambda>(s, slen, plen, v). slen - plen)") auto

declare lpStringToInt64_loop.simps [simp del]

definition lpStringToInt64 :: "byte list \<Rightarrow> nat \<Rightarrow> int option res" where
  "lpStringToInt64 s slen =
     (if slen = 0 then Inr None else
      bindE (getb s 0) (\<lambda>c0.
        if slen = 1 \<and> c0 = 48 then Inr (Some 0) else
        let negative = (c0 = 45); plen = (if negative then 1 else 0) in
        if plen = slen then Inr None else
        bindE (getb s plen) (\<lambda>c.
          if c \<ge> 49 \<and> c \<le> 57 then
            bindE (lpStringToInt64_loop s slen (plen + 1) (unat c - 48)) (\<lambda>r.
              case r of
                None \<Rightarrow> Inr None
              | Some (plen, v) \<Rightarrow>
                  if plen < slen then Inr None
                  else if negative then
                    (if v > (2 ^ 63 - 1) + 1 then Inr None else Inr (Some (- int v)))
                  else
                    (if v > 2 ^ 63 - 1 then Inr None else Inr (Some (int v))))
          else if c = 48 \<and> slen = 1 then Inr (Some 0)
          else Inr None)))"

definition lpNew :: "allocator \<Rightarrow> byte list res" where
  "lpNew m =
     bindE (s_malloc m (LP_HDR_SIZE + 1)) (\<lambda>lp.
     bindE (lpSetTotalBytes lp (LP_HDR_SIZE + 1)) (\<lambda>lp.
     bindE (lpSetNumElements lp 0) (\<lambda>lp.
     mem_write lp LP_HDR_SIZE [LP_EOF])))"

text \<open>
  The integer encodings: the bytes written to \<open>intenc\<close>, whose number is \<open>*enclen\<close>. A negative value
  is stored as the two's complement of the width of the encoding.
\<close>

definition lp_intenc :: "int \<Rightarrow> byte list" where
  "lp_intenc v =
     (if v \<ge> 0 \<and> v \<le> 127 then [word_of_int v]
      else if v \<ge> -4096 \<and> v \<le> 4095 then
        let v = (if v < 0 then 2 ^ 13 + v else v) in
        [word_of_int (drop_bit 8 v) OR 0xC0, word_of_int v]
      else if v \<ge> -32768 \<and> v \<le> 32767 then
        let v = (if v < 0 then 2 ^ 16 + v else v) in 0xF1 # le_bytes 2 (nat v)
      else if v \<ge> -8388608 \<and> v \<le> 8388607 then
        let v = (if v < 0 then 2 ^ 24 + v else v) in 0xF2 # le_bytes 3 (nat v)
      else if v \<ge> -2147483648 \<and> v \<le> 2147483647 then
        let v = (if v < 0 then 2 ^ 32 + v else v) in 0xF3 # le_bytes 4 (nat v)
      else 0xF4 # le_bytes 8 (to_size v))"

text \<open>
  The result is the type, the bytes in \<open>intenc\<close>, and \<open>*enclen\<close>. The length of a string encoding is
  computed on \<open>uint32_t\<close>, the type of \<open>size\<close>, before it is stored in a \<open>uint64_t\<close>.
\<close>

definition lpEncodeGetType :: "byte list \<Rightarrow> nat \<Rightarrow> (lp_enctype \<times> byte list \<times> nat) res" where
  "lpEncodeGetType ele sz =
     bindE (lpStringToInt64 ele sz) (\<lambda>r. Inr (case r of
         Some v \<Rightarrow> (LP_ENCODING_INT, lp_intenc v, length (lp_intenc v))
       | None \<Rightarrow> (LP_ENCODING_STRING, [],
           if sz < 64 then 1 + sz
           else if sz < 4096 then 2 + sz
           else (5 + sz) mod 2 ^ 32)))"

text \<open>
  The bytes stored in \<open>buf\<close>; the returned value is their number, also when \<open>buf\<close> is NULL and nothing
  is stored.
\<close>

definition lpEncodeBacklen :: "nat \<Rightarrow> byte list" where
  "lpEncodeBacklen l =
     (if l \<le> 127 then [word_of_nat l]
      else if l < 16383 then
        [word_of_nat (drop_bit 7 l), word_of_nat (l AND 127) OR 128]
      else if l < 2097151 then
        [word_of_nat (drop_bit 14 l), word_of_nat (drop_bit 7 l AND 127) OR 128,
         word_of_nat (l AND 127) OR 128]
      else if l < 268435455 then
        [word_of_nat (drop_bit 21 l), word_of_nat (drop_bit 14 l AND 127) OR 128,
         word_of_nat (drop_bit 7 l AND 127) OR 128, word_of_nat (l AND 127) OR 128]
      else
        [word_of_nat (drop_bit 28 l), word_of_nat (drop_bit 21 l AND 127) OR 128,
         word_of_nat (drop_bit 14 l AND 127) OR 128, word_of_nat (drop_bit 7 l AND 127) OR 128,
         word_of_nat (l AND 127) OR 128])"

text \<open>The loop reads to the left, at most five bytes.\<close>

function lpDecodeBacklen_loop :: "byte list \<Rightarrow> nat \<Rightarrow> nat \<Rightarrow> nat \<Rightarrow> nat res" where
  "lpDecodeBacklen_loop lp p shift val =
     bindE (getb lp p) (\<lambda>b.
       let val = val OR push_bit shift (unat (b AND 127)) in
       if b AND 128 = 0 then Inr val
       else if shift + 7 > 28 then Inr (2 ^ 64 - 1)
       else if p = 0 then Inl OutOfBounds
       else lpDecodeBacklen_loop lp (p - 1) (shift + 7) val)"
  by pat_completeness auto
termination by (relation "measure (\<lambda>(lp, p, shift, val). p)") auto

declare lpDecodeBacklen_loop.simps [simp del]

definition lpDecodeBacklen :: "byte list \<Rightarrow> nat \<Rightarrow> nat res" where
  "lpDecodeBacklen lp p = lpDecodeBacklen_loop lp p 0 0"

definition lpEncodeString :: "byte list \<Rightarrow> nat \<Rightarrow> byte list \<Rightarrow> nat \<Rightarrow> byte list res" where
  "lpEncodeString buf off s len =
     (if len < 64 then
        bindE (mem_write buf off [word_of_nat len OR 0x80]) (\<lambda>buf.
        bindE (mem_read s 0 len) (\<lambda>bs. mem_write buf (off + 1) bs))
      else if len < 4096 then
        bindE (mem_write buf off [word_of_nat (drop_bit 8 len) OR 0xE0, word_of_nat len]) (\<lambda>buf.
        bindE (mem_read s 0 len) (\<lambda>bs. mem_write buf (off + 2) bs))
      else
        bindE (mem_write buf off (0xF0 # le_bytes 4 len)) (\<lambda>buf.
        bindE (mem_read s 0 len) (\<lambda>bs. mem_write buf (off + 5) bs)))"

section \<open>Walking\<close>

definition lpCurrentEncodedSize :: "byte list \<Rightarrow> nat \<Rightarrow> nat res" where
  "lpCurrentEncodedSize lp p =
     bindE (getb lp p) (\<lambda>b.
       if LP_ENCODING_IS_7BIT_UINT b then Inr 1
       else if LP_ENCODING_IS_6BIT_STR b then
         bindE (LP_ENCODING_6BIT_STR_LEN lp p) (\<lambda>n. Inr (1 + n))
       else if LP_ENCODING_IS_13BIT_INT b then Inr 2
       else if LP_ENCODING_IS_16BIT_INT b then Inr 3
       else if LP_ENCODING_IS_24BIT_INT b then Inr 4
       else if LP_ENCODING_IS_32BIT_INT b then Inr 5
       else if LP_ENCODING_IS_64BIT_INT b then Inr 9
       else if LP_ENCODING_IS_12BIT_STR b then
         bindE (LP_ENCODING_12BIT_STR_LEN lp p) (\<lambda>n. Inr (2 + n))
       else if LP_ENCODING_IS_32BIT_STR b then
         bindE (LP_ENCODING_32BIT_STR_LEN lp p) (\<lambda>n. Inr ((5 + n) mod 2 ^ 32))
       else if b = LP_EOF then Inr 1
       else Inr 0)"

definition lpSkip :: "byte list \<Rightarrow> nat \<Rightarrow> nat res" where
  "lpSkip lp p =
     bindE (lpCurrentEncodedSize lp p) (\<lambda>entrylen.
       Inr (p + (entrylen + length (lpEncodeBacklen entrylen))))"

text \<open>A pointer that may be NULL is an option.\<close>

definition lpNext :: "byte list \<Rightarrow> nat \<Rightarrow> nat option res" where
  "lpNext lp p =
     bindE (lpSkip lp p) (\<lambda>p. bindE (getb lp p) (\<lambda>b.
       Inr (if b = LP_EOF then None else Some p)))"

text \<open>A length that leads to the left of the region leaves no valid pointer.\<close>

definition lpPrev :: "byte list \<Rightarrow> nat \<Rightarrow> nat option res" where
  "lpPrev lp p =
     (if p = LP_HDR_SIZE then Inr None
      else if p = 0 then Inl OutOfBounds
      else
        let p = p - 1 in
        bindE (lpDecodeBacklen lp p) (\<lambda>prevlen.
          let prevlen = u64 (prevlen + length (lpEncodeBacklen prevlen)) in
          if prevlen > p + 1 then Inl OutOfBounds else Inr (Some (p + 1 - prevlen))))"

definition lpFirst :: "byte list \<Rightarrow> nat option res" where
  "lpFirst lp =
     bindE (getb lp LP_HDR_SIZE) (\<lambda>b. Inr (if b = LP_EOF then None else Some LP_HDR_SIZE))"

definition lpLast :: "byte list \<Rightarrow> nat option res" where
  "lpLast lp =
     bindE (lpGetTotalBytes lp) (\<lambda>n.
       if n = 0 then Inl OutOfBounds else lpPrev lp (n - 1))"

text \<open>The scan of \<open>lpLength\<close>; \<open>lpNext\<close> always moves to the right, so it ends.\<close>

lemma lpEncodeBacklen_not_Nil [simp]: "lpEncodeBacklen l \<noteq> []"
  by (simp add: lpEncodeBacklen_def)

lemma lpNext_bounds: "lpNext lp p = Inr (Some p') \<Longrightarrow> p < p' \<and> p' < length lp"
  by (auto simp: lpNext_def lpSkip_def bindE_eq_Inr getb_def split: if_splits)

function lpLength_loop :: "byte list \<Rightarrow> nat option \<Rightarrow> nat \<Rightarrow> nat res" where
  "lpLength_loop lp p cnt =
     (case p of
        None \<Rightarrow> Inr cnt
      | Some p \<Rightarrow> bindE (lpNext lp p) (\<lambda>p'. lpLength_loop lp p' ((cnt + 1) mod 2 ^ 32)))"
  by pat_completeness auto
termination
proof (relation "measure (\<lambda>(lp, p, cnt). case p of None \<Rightarrow> 0 | Some p \<Rightarrow> Suc (length lp - p))")
  fix lp :: "byte list" and p :: "nat option" and cnt q p'
  assume "p = Some q" "lpNext lp q = Inr p'"
  then show "((lp, p', (cnt + 1) mod 2 ^ 32), lp, p, cnt)
      \<in> measure (\<lambda>(lp, p, cnt). case p of None \<Rightarrow> 0 | Some p \<Rightarrow> Suc (length lp - p))"
    using lpNext_bounds[of lp q] by (cases p') auto
qed simp

declare lpLength_loop.simps [simp del]

text \<open>The result is the count and the region, whose header may have been updated.\<close>

definition lpLength :: "byte list \<Rightarrow> (nat \<times> byte list) res" where
  "lpLength lp =
     bindE (lpGetNumElements lp) (\<lambda>numele.
       if numele \<noteq> LP_HDR_NUMELE_UNKNOWN then Inr (numele, lp)
       else
         bindE (lpFirst lp) (\<lambda>p.
         bindE (lpLength_loop lp p 0) (\<lambda>cnt.
           if cnt < LP_HDR_NUMELE_UNKNOWN then
             bindE (lpSetNumElements lp cnt) (\<lambda>lp. Inr (cnt, lp))
           else Inr (cnt, lp))))"

section \<open>Reading an element\<close>

text \<open>
  What \<open>lpGet\<close> returns with \<open>*count\<close>: a pointer into the listpack, the caller's buffer with its new
  contents, or NULL.
\<close>

datatype lp_got = LpInside nat int | LpIntbuf "byte list" int | LpNull int

definition lpGet_int :: "bool \<Rightarrow> nat \<Rightarrow> nat \<Rightarrow> nat \<Rightarrow> lp_got" where
  "lpGet_int intbuf uval negstart negmax =
     (let val = (if uval \<ge> negstart then
                   (let uval = to_size (int negmax - int uval) in - int uval - 1)
                 else int uval) in
      if intbuf then LpIntbuf (take (LP_INTBUF_SIZE - 1) (dec_int val) @ [0]) (int (length (dec_int val)))
      else LpNull val)"

definition lpGet :: "byte list \<Rightarrow> nat \<Rightarrow> bool \<Rightarrow> lp_got res" where
  "lpGet lp p intbuf =
     bindE (getb lp p) (\<lambda>b.
       if LP_ENCODING_IS_7BIT_UINT b then
         Inr (lpGet_int intbuf (unat (b AND 0x7F)) (2 ^ 64 - 1) 0)
       else if LP_ENCODING_IS_6BIT_STR b then
         bindE (LP_ENCODING_6BIT_STR_LEN lp p) (\<lambda>n. Inr (LpInside (p + 1) (int n)))
       else if LP_ENCODING_IS_13BIT_INT b then
         bindE (getb lp (p + 1)) (\<lambda>b1.
           Inr (lpGet_int intbuf (push_bit 8 (unat (b AND 0x1F)) OR unat b1) (2 ^ 12) 8191))
       else if LP_ENCODING_IS_16BIT_INT b then
         bindE (lp_field lp (p + 1) 2) (\<lambda>uval. Inr (lpGet_int intbuf uval (2 ^ 15) (2 ^ 16 - 1)))
       else if LP_ENCODING_IS_24BIT_INT b then
         bindE (lp_field lp (p + 1) 3) (\<lambda>uval. Inr (lpGet_int intbuf uval (2 ^ 23) (2 ^ 24 - 1)))
       else if LP_ENCODING_IS_32BIT_INT b then
         bindE (lp_field lp (p + 1) 4) (\<lambda>uval. Inr (lpGet_int intbuf uval (2 ^ 31) (2 ^ 32 - 1)))
       else if LP_ENCODING_IS_64BIT_INT b then
         bindE (lp_field lp (p + 1) 8) (\<lambda>uval. Inr (lpGet_int intbuf uval (2 ^ 63) (2 ^ 64 - 1)))
       else if LP_ENCODING_IS_12BIT_STR b then
         bindE (LP_ENCODING_12BIT_STR_LEN lp p) (\<lambda>n. Inr (LpInside (p + 2) (int n)))
       else if LP_ENCODING_IS_32BIT_STR b then
         bindE (LP_ENCODING_32BIT_STR_LEN lp p) (\<lambda>n. Inr (LpInside (p + 5) (int n)))
       else Inr (lpGet_int intbuf (12345678900000000 + unat b) (2 ^ 64 - 1) 0))"

section \<open>Changing the sequence\<close>

text \<open>
  The steps of \<open>lpInsert\<close> after the sizes are known. \<open>need\<close> is \<open>enclen + backlen_size\<close>. The first step
  makes room for the entry or closes the gap; the region is reallocated before the move when it
  grows and after it when it shrinks.
\<close>

definition lpInsert_shift :: "byte list \<Rightarrow> nat \<Rightarrow> lp_where \<Rightarrow> nat \<Rightarrow> nat \<Rightarrow> nat \<Rightarrow> byte list res" where
  "lpInsert_shift lp poff wh need replaced_len old_bytes =
     (if wh = LP_BEFORE then
        bindE (mem_read lp poff (to_size (int old_bytes - int poff))) (\<lambda>bs.
        mem_write lp (poff + need) bs)
      else
        let lendiff = int need - int replaced_len in
        bindE (mem_read lp (poff + replaced_len) (to_size (int old_bytes - int poff - int replaced_len))) (\<lambda>bs.
        mem_write lp (nat (int poff + int replaced_len + lendiff)) bs))"

definition lpInsert_move ::
  "allocator \<Rightarrow> byte list \<Rightarrow> nat \<Rightarrow> lp_where \<Rightarrow> nat \<Rightarrow> nat \<Rightarrow> nat \<Rightarrow> nat \<Rightarrow> byte list res" where
  "lpInsert_move m lp poff wh need replaced_len old_bytes new_bytes =
     bindE (if new_bytes > old_bytes then s_realloc m lp new_bytes else Inr lp) (\<lambda>lp.
     bindE (lpInsert_shift lp poff wh need replaced_len old_bytes) (\<lambda>lp.
     if new_bytes < old_bytes then s_realloc m lp new_bytes else Inr lp))"

text \<open>The second step sets \<open>*newp\<close> and stores the entry.\<close>

definition lpInsert_newp :: "byte list \<Rightarrow> byte list option \<Rightarrow> nat \<Rightarrow> bool \<Rightarrow> nat option res" where
  "lpInsert_newp lp ele dst newp =
     (if newp \<and> ele = None then
        bindE (getb lp dst) (\<lambda>b. Inr (if b = LP_EOF then None else Some dst))
      else Inr (Some dst))"

definition lpInsert_store ::
  "byte list \<Rightarrow> byte list option \<Rightarrow> nat \<Rightarrow> nat \<Rightarrow> lp_enctype \<Rightarrow> byte list \<Rightarrow> nat \<Rightarrow> byte list \<Rightarrow> byte list res" where
  "lpInsert_store lp ele sz dst enctype intenc enclen backlen =
     (case ele of
        None \<Rightarrow> Inr lp
      | Some e \<Rightarrow>
          bindE (if enctype = LP_ENCODING_INT then
                   bindE (mem_read intenc 0 enclen) (\<lambda>bs. mem_write lp dst bs)
                 else lpEncodeString lp dst e sz) (\<lambda>lp.
          mem_write lp (dst + enclen) backlen))"

text \<open>The third step updates the header. The number of elements is a \<open>uint32_t\<close>, two bytes are kept.\<close>

definition lpInsert_header :: "byte list \<Rightarrow> byte list option \<Rightarrow> lp_where \<Rightarrow> nat \<Rightarrow> byte list res" where
  "lpInsert_header lp ele wh new_bytes =
     bindE (if wh \<noteq> LP_REPLACE \<or> ele = None then
              bindE (lpGetNumElements lp) (\<lambda>num.
                if num \<noteq> LP_HDR_NUMELE_UNKNOWN then
                  lpSetNumElements lp (if ele \<noteq> None then num + 1 else u32sub num 1)
                else Inr lp)
            else Inr lp) (\<lambda>lp.
     lpSetTotalBytes lp new_bytes)"

text \<open>
  A NULL result because the listpack would become too large is \<open>Inr None\<close>. \<open>newp\<close> tells whether the
  caller passes a pointer for the new element; the second component is \<open>*newp\<close>.
\<close>

definition lpInsert ::
  "allocator \<Rightarrow> byte list \<Rightarrow> byte list option \<Rightarrow> nat \<Rightarrow> nat \<Rightarrow> lp_where \<Rightarrow> bool \<Rightarrow> (byte list \<times> nat option) option res" where
  "lpInsert m lp ele sz p wh newp =
     (let wh = (if ele = None then LP_REPLACE else wh) in
      bindE (if wh = LP_AFTER then lpSkip lp p else Inr p) (\<lambda>poff.
      let wh = (if wh = LP_AFTER then LP_BEFORE else wh) in
      bindE (case ele of Some e \<Rightarrow> lpEncodeGetType e sz | None \<Rightarrow> Inr (LP_ENCODING_STRING, [], 0))
        (\<lambda>(enctype, intenc, enclen).
      let backlen = (if ele \<noteq> None then lpEncodeBacklen enclen else []) in
      bindE (lpGetTotalBytes lp) (\<lambda>old_bytes.
      bindE (if wh = LP_REPLACE then
               bindE (lpCurrentEncodedSize lp poff) (\<lambda>n. Inr ((n + length (lpEncodeBacklen n)) mod 2 ^ 32))
             else Inr 0) (\<lambda>replaced_len.
      let need = enclen + length backlen;
          new_bytes = to_size (int old_bytes + int need - int replaced_len) in
      if new_bytes > 2 ^ 32 - 1 then Inr None
      else
        bindE (lpInsert_move m lp poff wh need replaced_len old_bytes new_bytes) (\<lambda>lp.
        bindE (lpInsert_newp lp ele poff newp) (\<lambda>np.
        bindE (lpInsert_store lp ele sz poff enctype intenc enclen backlen) (\<lambda>lp.
        bindE (lpInsert_header lp ele wh new_bytes) (\<lambda>lp.
        Inr (Some (lp, np)))))))))))"

definition lpAppend :: "allocator \<Rightarrow> byte list \<Rightarrow> byte list \<Rightarrow> nat \<Rightarrow> byte list option res" where
  "lpAppend m lp ele sz =
     bindE (lpGetTotalBytes lp) (\<lambda>n.
       if n = 0 then Inl OutOfBounds
       else bindE (lpInsert m lp (Some ele) sz (n - 1) LP_BEFORE False) (\<lambda>r. Inr (map_option fst r)))"

definition lpDelete :: "allocator \<Rightarrow> byte list \<Rightarrow> nat \<Rightarrow> bool \<Rightarrow> (byte list \<times> nat option) option res" where
  "lpDelete m lp p newp = lpInsert m lp None 0 p LP_REPLACE newp"

definition lpBytes :: "byte list \<Rightarrow> nat res" where
  "lpBytes lp = lpGetTotalBytes lp"

section \<open>Seeking\<close>

primrec lpSeek_right :: "byte list \<Rightarrow> nat \<Rightarrow> nat option \<Rightarrow> nat option res" where
  "lpSeek_right lp 0 ele = Inr ele"
| "lpSeek_right lp (Suc index) ele =
     (case ele of None \<Rightarrow> Inr None | Some p \<Rightarrow> bindE (lpNext lp p) (lpSeek_right lp index))"

primrec lpSeek_left :: "byte list \<Rightarrow> nat \<Rightarrow> nat option \<Rightarrow> nat option res" where
  "lpSeek_left lp 0 ele = Inr ele"
| "lpSeek_left lp (Suc index) ele =
     (case ele of None \<Rightarrow> Inr None | Some p \<Rightarrow> bindE (lpPrev lp p) (lpSeek_left lp index))"

text \<open>\<open>long\<close> has 64 bits: the conversions of the index do not overflow.\<close>

definition lpSeek :: "byte list \<Rightarrow> int \<Rightarrow> nat option res" where
  "lpSeek lp index =
     bindE (lpGetNumElements lp) (\<lambda>numele.
       let known = (numele \<noteq> LP_HDR_NUMELE_UNKNOWN);
           index = (if known \<and> index < 0 then int numele + index else index) in
       if known \<and> (index < 0 \<or> index \<ge> int numele) then Inr None
       else
         let right_half = (known \<and> index > int (numele div 2));
             forward = (if known then \<not> right_half else index \<ge> 0);
             index = (if right_half then index - int numele else index) in
         if forward then bindE (lpFirst lp) (lpSeek_right lp (nat index))
         else bindE (lpLast lp) (lpSeek_left lp (nat (- 1 - index))))"

end
