(* ===== verification/ListpackCodec.thy ===== *)
theory ListpackCodec
  imports Listpack
begin

text \<open>
  The codec of a listpack entry: the bit patterns of the first bytes, the conversion of strings to
  integers, the length that is read from the right, and the encodings of strings and integers, each
  with the lemma that reading gives back what was written.
\<close>

section \<open>Bytes\<close>

lemma and_high_mask: "n AND push_bit k (mask j) = (n div 2 ^ k mod 2 ^ j) * 2 ^ k" for n :: nat
proof -
  have "n AND push_bit k (mask j) = push_bit k (take_bit j (drop_bit k n))"
    by (rule bit_eqI) (auto simp: bit_simps)
  then show ?thesis by (simp add: push_bit_eq_mult take_bit_eq_mod drop_bit_eq_div)
qed

lemma or_push_bit: "val < 2 ^ k \<Longrightarrow> val OR push_bit k x = val + x * 2 ^ k" for val x :: nat
proof -
  assume "val < 2 ^ k"
  then have "take_bit k val = val" by (simp add: take_bit_nat_eq_self_iff)
  then have "val AND push_bit k x = 0"
    by (intro bit_eqI) (metis bit_0_eq bit_and_iff bit_push_bit_iff_nat bit_take_bit_iff bot_apply bot_bool_def not_le)
  then show ?thesis by (simp add: disjunctive_add_eq_or[symmetric] push_bit_eq_mult)
qed

lemma or_push_bit_left: "val < 2 ^ k \<Longrightarrow> push_bit k x OR val = x * 2 ^ k + val" for val x :: nat
  using or_push_bit[of val k x] by (simp add: or.commute)

lemma byte_and_low:
  "unat (b AND 127) = unat (b :: byte) mod 128"
  "unat (b AND 0x3F) = unat b mod 64"
  "unat (b AND 0x1F) = unat b mod 32"
  "unat (b AND 0xF) = unat b mod 16"
proof -
  show "unat (b AND 127) = unat (b :: byte) mod 128" using and_high_mask[of "unat b" 0 7] by (simp add: unsigned_and_eq mask_eq_exp_minus_1)
  show "unat (b AND 0x3F) = unat b mod 64" using and_high_mask[of "unat b" 0 6] by (simp add: unsigned_and_eq mask_eq_exp_minus_1)
  show "unat (b AND 0x1F) = unat b mod 32" using and_high_mask[of "unat b" 0 5] by (simp add: unsigned_and_eq mask_eq_exp_minus_1)
  show "unat (b AND 0xF) = unat b mod 16" using and_high_mask[of "unat b" 0 4] by (simp add: unsigned_and_eq mask_eq_exp_minus_1)
qed

lemma byte_or_high:
  "unat b < 128 \<Longrightarrow> unat (b OR 0x80) = unat (b :: byte) + 0x80"
  "unat b < 64 \<Longrightarrow> unat (b OR 0xC0) = unat b + 0xC0"
  "unat b < 32 \<Longrightarrow> unat (b OR 0xE0) = unat b + 0xE0"
proof -
  show "unat (b OR 0x80) = unat (b :: byte) + 0x80" if "unat b < 128" using or_push_bit[of "unat b" 7 1] that by (simp add: unsigned_or_eq)
  show "unat (b OR 0xC0) = unat b + 0xC0" if "unat b < 64" using or_push_bit[of "unat b" 6 3] that by (simp add: unsigned_or_eq)
  show "unat (b OR 0xE0) = unat b + 0xE0" if "unat b < 32" using or_push_bit[of "unat b" 5 7] that by (simp add: unsigned_or_eq)
qed

lemma byte_and_high:
  "unat (b AND 0x80) = unat (b :: byte) div 128 mod 2 * 128"
  "unat (b AND 0xC0) = unat b div 64 mod 4 * 64"
  "unat (b AND 0xE0) = unat b div 32 mod 8 * 32"
  "unat (b AND 0xF0) = unat b div 16 mod 16 * 16"
  "unat (b AND 0xFF) = unat b mod 256"
proof -
  show "unat (b AND 0x80) = unat (b :: byte) div 128 mod 2 * 128" using and_high_mask[of "unat b" 7 1] by (simp add: unsigned_and_eq mask_eq_exp_minus_1)
  show "unat (b AND 0xC0) = unat b div 64 mod 4 * 64" using and_high_mask[of "unat b" 6 2] by (simp add: unsigned_and_eq mask_eq_exp_minus_1)
  show "unat (b AND 0xE0) = unat b div 32 mod 8 * 32" using and_high_mask[of "unat b" 5 3] by (simp add: unsigned_and_eq mask_eq_exp_minus_1)
  show "unat (b AND 0xF0) = unat b div 16 mod 16 * 16" using and_high_mask[of "unat b" 4 4] by (simp add: unsigned_and_eq mask_eq_exp_minus_1)
  show "unat (b AND 0xFF) = unat b mod 256" using and_high_mask[of "unat b" 0 8] by (simp add: unsigned_and_eq mask_eq_exp_minus_1)
qed

lemma div_block: "0 < d \<Longrightarrow> n div d = q \<longleftrightarrow> q * d \<le> n \<and> n < Suc q * d" for n d q :: nat
  by (auto simp: mult.commute dividend_less_times_div intro: div_nat_eqI)

lemma byte_bit7: "b AND 128 = 0 \<longleftrightarrow> unat (b :: byte) < 128"
  unfolding word_unat_eq_iff byte_and_high using unat_bounds(1)[of b] by auto

lemma lp_classes:
  "LP_ENCODING_IS_7BIT_UINT b \<longleftrightarrow> unat b < 0x80"
  "LP_ENCODING_IS_6BIT_STR b \<longleftrightarrow> 0x80 \<le> unat b \<and> unat b < 0xC0"
  "LP_ENCODING_IS_13BIT_INT b \<longleftrightarrow> 0xC0 \<le> unat b \<and> unat b < 0xE0"
  "LP_ENCODING_IS_12BIT_STR b \<longleftrightarrow> 0xE0 \<le> unat b \<and> unat b < 0xF0"
  "LP_ENCODING_IS_16BIT_INT b \<longleftrightarrow> unat b = 0xF1"
  "LP_ENCODING_IS_24BIT_INT b \<longleftrightarrow> unat b = 0xF2"
  "LP_ENCODING_IS_32BIT_INT b \<longleftrightarrow> unat b = 0xF3"
  "LP_ENCODING_IS_64BIT_INT b \<longleftrightarrow> unat b = 0xF4"
  "LP_ENCODING_IS_32BIT_STR b \<longleftrightarrow> unat b = 0xF0"
  using unat_bounds(1)[of b]
  unfolding LP_ENCODING_IS_7BIT_UINT_def LP_ENCODING_IS_6BIT_STR_def LP_ENCODING_IS_13BIT_INT_def
    LP_ENCODING_IS_12BIT_STR_def LP_ENCODING_IS_16BIT_INT_def LP_ENCODING_IS_24BIT_INT_def
    LP_ENCODING_IS_32BIT_INT_def LP_ENCODING_IS_64BIT_INT_def LP_ENCODING_IS_32BIT_STR_def
    word_unat_eq_iff byte_and_high
  by (simp_all add: div_block)

lemma unat_byte: "n < 256 \<Longrightarrow> unat (word_of_nat n :: byte) = n"
  by (simp add: unsigned_of_nat take_bit_eq_mod)

section \<open>Integers in strings\<close>

lemma lpStringToInt64_loop_eq: "lpStringToInt64_loop s slen plen v = string2ll_loop s slen plen v"
proof (induction s slen plen v rule: lpStringToInt64_loop.induct)
  case (1 s slen plen v)
  show ?case
    by (subst lpStringToInt64_loop.simps, subst string2ll_loop.simps) (intro if_cong bindE_cong refl 1; assumption)
qed

lemma lpStringToInt64_eq_string2ll: "lpStringToInt64 s slen = string2ll s slen"
  by (auto simp: lpStringToInt64_def string2ll_def lpStringToInt64_loop_eq string2ll_finish_def Let_def
      intro!: bindE_cong split: option.splits)

lemma lpStringToInt64_eq:
  "slen \<le> length s \<Longrightarrow> lpStringToInt64 s slen = Inr (ll_of_string (take slen s))"
  by (simp add: lpStringToInt64_eq_string2ll string2ll_eq)

section \<open>The length read from the right\<close>

lemma getb_append [simp]: "getb (pre @ xs) (length pre + k) = getb xs k"
  by (simp add: getb_def nth_append)

lemma mem_read_append [simp]: "mem_read (pre @ xs) (length pre + k) n = mem_read xs k n"
  by (simp add: mem_read_def)

lemma backlen_last:
  assumes "getb lp p = Inr b" "unat b < 128" "val < 2 ^ shift"
  shows "lpDecodeBacklen_loop lp p shift val = Inr (val + unat b * 2 ^ shift)"
  using assms by (subst lpDecodeBacklen_loop.simps) (simp add: byte_bit7 byte_and_low or_push_bit)

lemma backlen_cont:
  assumes "getb lp (Suc p) = Inr b" "128 \<le> unat b" "val < 2 ^ shift" "shift \<le> 21"
  shows "lpDecodeBacklen_loop lp (Suc p) shift val
    = lpDecodeBacklen_loop lp p (shift + 7) (val + (unat b - 128) * 2 ^ shift)"
proof -
  have "unat b mod 128 = unat b - 128" using assms(2) unat_bounds(1)[of b] by (simp add: mod_if)
  then show ?thesis using assms
    by (subst lpDecodeBacklen_loop.simps) (simp add: byte_bit7 byte_and_low or_push_bit)
qed

lemma unat_backlen_byte: "unat (word_of_nat (n AND 127) OR 128 :: byte) = 128 + n mod 128"
proof -
  have n: "n AND 127 = n mod 128" using and_high_mask[of n 0 7] by (simp add: mask_eq_exp_minus_1)
  have "unat (word_of_nat (n mod 128) :: byte) = n mod 128" by (rule unat_byte) (simp add: less_trans[of _ 128])
  then show ?thesis unfolding n by (subst byte_or_high(1)) simp_all
qed

lemma digit_step: "v < 2 ^ s \<Longrightarrow> v + n mod 128 * 2 ^ s < 2 ^ (s + 7)" for v n :: nat
proof -
  assume v: "v < 2 ^ s"
  have "n mod 128 \<le> 127" by (simp add: less_Suc_eq_le[symmetric])
  then have "n mod 128 * 2 ^ s \<le> 127 * 2 ^ s" by (rule mult_right_mono) simp
  with v have "v + n mod 128 * 2 ^ s < 2 ^ s + 127 * 2 ^ s" by (rule add_less_le_mono)
  also have "\<dots> = 2 ^ (s + 7)" by (simp add: power_add)
  finally show ?thesis .
qed

text \<open>The value of the digits to the left of a position.\<close>

primrec backlen_digits :: "nat \<Rightarrow> nat \<Rightarrow> byte list" where
  "backlen_digits 0 l = [word_of_nat l]"
| "backlen_digits (Suc k) l = backlen_digits k (drop_bit 7 l) @ [word_of_nat (l AND 127) OR 128]"

lemma length_backlen_digits [simp]: "length (backlen_digits k l) = Suc k"
  by (induction k arbitrary: l) simp_all

lemma backlen_digits_decode:
  "l < 128 ^ Suc k \<Longrightarrow> v < 2 ^ s \<Longrightarrow> s + 7 * k \<le> 28 \<Longrightarrow>
   lpDecodeBacklen_loop (pre @ backlen_digits k l @ post) (length pre + k) s v = Inr (v + l * 2 ^ s)"
proof (induction k arbitrary: l v s post)
  case 0
  then show ?case using unat_byte[of l] by (subst backlen_last[where b = "word_of_nat l"]) (simp_all add: getb_def)
next
  case (Suc k)
  have b: "getb (pre @ backlen_digits (Suc k) l @ post) (Suc (length pre + k)) = Inr (word_of_nat (l AND 127) OR 128)"
    using getb_append[of pre _ "Suc k"] by (simp add: getb_def nth_append)
  have l: "drop_bit 7 l = l div 128" by (simp add: drop_bit_eq_div)
  have "lpDecodeBacklen_loop (pre @ backlen_digits (Suc k) l @ post) (length pre + Suc k) s v
    = lpDecodeBacklen_loop (pre @ backlen_digits (Suc k) l @ post) (length pre + k) (s + 7) (v + l mod 128 * 2 ^ s)"
    using backlen_cont[OF b, of v s] Suc.prems by (simp add: unat_backlen_byte)
  also have "\<dots> = Inr (v + l mod 128 * 2 ^ s + l div 128 * 2 ^ (s + 7))"
    using Suc.IH[of "l div 128" "v + l mod 128 * 2 ^ s" "s + 7"] Suc.prems digit_step[of v s l]
    by (simp add: l less_mult_imp_div_less mult.commute)
  also have "v + l mod 128 * 2 ^ s + l div 128 * 2 ^ (s + 7) = v + (l mod 128 + l div 128 * 128) * 2 ^ s"
    unfolding power_add distrib_right by (simp del: mod_div_mult_eq)
  finally show ?case unfolding mod_div_mult_eq .
qed

definition backlen_size :: "nat \<Rightarrow> nat" where
  "backlen_size l = (if l \<le> 127 then 0 else if l < 16383 then 1 else if l < 2097151 then 2
     else if l < 268435455 then 3 else 4)"

lemmas backlen_digits_numeral =
  backlen_digits.simps(2)[of "pred_numeral k" for k, folded numeral_eq_Suc]
  backlen_digits.simps(2)[of 0, folded One_nat_def]

lemma lpEncodeBacklen_digits: "lpEncodeBacklen l = backlen_digits (backlen_size l) l"
  by (simp add: lpEncodeBacklen_def backlen_size_def backlen_digits_numeral drop_bit_drop_bit)

lemma length_lpEncodeBacklen: "length (lpEncodeBacklen l) = Suc (backlen_size l)"
  by (simp add: lpEncodeBacklen_digits)

lemma lpDecodeBacklen_encode:
  assumes "l < 2 ^ 35"
  shows "lpDecodeBacklen (pre @ lpEncodeBacklen l @ post) (length pre + length (lpEncodeBacklen l) - 1) = Inr l"
  using backlen_digits_decode[of l "backlen_size l" 0 0 pre post] assms
  by (simp add: lpDecodeBacklen_def lpEncodeBacklen_digits backlen_size_def)

lemma length_lpEncodeBacklen_le: "1 \<le> length (lpEncodeBacklen l)" "length (lpEncodeBacklen l) \<le> 5"
  by (simp_all add: length_lpEncodeBacklen backlen_size_def)

section \<open>The encoding of an element\<close>

definition lp_strhdr :: "nat \<Rightarrow> byte list" where
  "lp_strhdr len =
     (if len < 64 then [word_of_nat len OR 0x80]
      else if len < 4096 then [word_of_nat (drop_bit 8 len) OR 0xE0, word_of_nat len]
      else 0xF0 # le_bytes 4 len)"

definition lp_enc :: "byte list \<Rightarrow> byte list" where
  "lp_enc e = (case ll_of_string e of Some v \<Rightarrow> lp_intenc v | None \<Rightarrow> lp_strhdr (length e) @ e)"

definition lp_entry :: "byte list \<Rightarrow> byte list" where
  "lp_entry e = lp_enc e @ lpEncodeBacklen (length (lp_enc e))"

lemma getb_append_0 [simp]: "getb (pre @ xs) (length pre) = getb xs 0"
  using getb_append[of pre xs 0] by simp

lemma getb_append_Suc [simp]: "getb (pre @ xs) (Suc (length pre)) = getb xs 1"
  using getb_append[of pre xs 1] by simp

lemma mem_read_append_Suc [simp]: "mem_read (pre @ xs) (Suc (length pre)) n = mem_read xs 1 n"
  using mem_read_append[of pre xs 1] by simp

lemma getb_Cons [simp]: "getb (b # bs) 0 = Inr b" "getb (b # bs) (Suc k) = getb bs k"
  by (simp_all add: getb_def)

lemma mem_read_Cons [simp]: "mem_read (b # bs) (Suc k) n = mem_read bs k n"
  by (simp add: mem_read_def)

lemma mem_read_front [simp]: "n = length xs \<Longrightarrow> mem_read (xs @ post) 0 n = Inr xs"
  by (simp add: mem_read_def)

lemma lpCurrentEncodedSize_shift:
  "lpCurrentEncodedSize (pre @ xs) (length pre) = lpCurrentEncodedSize xs 0"
  by (simp add: lpCurrentEncodedSize_def LP_ENCODING_6BIT_STR_LEN_def LP_ENCODING_12BIT_STR_LEN_def
      LP_ENCODING_32BIT_STR_LEN_def lp_field_def cong: if_cong)

lemma word_of_int_nat: "0 \<le> v \<Longrightarrow> (word_of_int v :: byte) = word_of_nat (nat v)"
  by simp

lemma unat_6bit:
  assumes "n < 64"
  shows "unat (word_of_nat n OR 0x80 :: byte) = n + 0x80" "(n + 0x80) mod 64 = n"
proof -
  show "unat (word_of_nat n OR 0x80 :: byte) = n + 0x80"
    using assms unat_byte[of n] by (subst byte_or_high(1)) simp_all
  show "(n + 0x80) mod 64 = n" using assms mod_mult_self1[of n 2 64] by simp
qed

lemma unat_12bit:
  assumes "n < 4096"
  shows "unat (word_of_nat (drop_bit 8 n) OR 0xE0 :: byte) = n div 256 + 0xE0"
    "(n div 256 + 0xE0) mod 16 = n div 256" "n div 256 < 16"
proof -
  show n: "n div 256 < 16" using assms by (simp add: less_mult_imp_div_less)
  then show "unat (word_of_nat (drop_bit 8 n) OR 0xE0 :: byte) = n div 256 + 0xE0"
    using unat_byte[of "n div 256"] by (subst byte_or_high(3)) (simp_all add: drop_bit_eq_div)
  show "(n div 256 + 0xE0) mod 16 = n div 256" using n mod_mult_self1[of "n div 256" 14 16] by simp
qed

lemma unat_13bit:
  assumes "0 \<le> u" "u < 8192"
  shows "unat (word_of_int (drop_bit 8 u) OR 0xC0 :: byte) = nat u div 256 + 0xC0"
proof -
  have d: "(word_of_int (drop_bit 8 u) :: byte) = word_of_nat (nat u div 256)"
    using assms by (simp add: word_of_int_nat drop_bit_eq_div nat_div_distrib)
  have "nat u div 256 < 32" using assms by (simp add: less_mult_imp_div_less)
  then show ?thesis unfolding d using unat_byte[of "nat u div 256"] by (subst byte_or_high(2)) simp_all
qed

lemma unat_low_byte: "unat (word_of_nat n :: byte) = n mod 256"
  by (simp add: unsigned_of_nat take_bit_eq_mod)

lemma le_bytes_front [simp]: "mem_read (le_bytes k n @ post) 0 k = Inr (le_bytes k n)"
  by simp

lemma join_bytes: "a = n div 256 \<Longrightarrow> push_bit 8 a OR unat (word_of_nat n :: byte) = n" for n :: nat
  using unat_bounds(1)[of "word_of_nat n"] by (subst or_push_bit_left) (simp_all add: unat_low_byte)

section \<open>Reading a string\<close>

lemma lpGet_strhdr:
  assumes "length e < 2 ^ 32"
  shows "lpGet (pre @ lp_strhdr (length e) @ xs) (length pre) ib
    = Inr (LpInside (length pre + length (lp_strhdr (length e))) (int (length e)))"
proof -
  consider "length e < 64" | "64 \<le> length e" "length e < 4096" | "4096 \<le> length e" by linarith
  then show ?thesis
  proof cases
    case 1
    with unat_6bit show ?thesis
      by (simp add: lpGet_def lp_strhdr_def lp_classes LP_ENCODING_6BIT_STR_LEN_def byte_and_low)
  next
    case 2
    with unat_12bit[OF 2(2)] show ?thesis
      by (simp add: lpGet_def lp_strhdr_def lp_classes LP_ENCODING_12BIT_STR_LEN_def byte_and_low
          join_bytes)
  next
    case 3
    with assms show ?thesis
      by (simp add: lpGet_def lp_strhdr_def lp_classes LP_ENCODING_32BIT_STR_LEN_def lp_field_def)
  qed
qed

lemma size_strhdr:
  assumes "length e < 2 ^ 32 - 5"
  shows "lpCurrentEncodedSize (lp_strhdr (length e) @ xs) 0 = Inr (length (lp_strhdr (length e)) + length e)"
proof -
  consider "length e < 64" | "64 \<le> length e" "length e < 4096" | "4096 \<le> length e" by linarith
  then show ?thesis
  proof cases
    case 1
    with unat_6bit show ?thesis
      by (simp add: lpCurrentEncodedSize_def lp_strhdr_def lp_classes LP_ENCODING_6BIT_STR_LEN_def byte_and_low)
  next
    case 2
    with unat_12bit[OF 2(2)] show ?thesis
      by (simp add: lpCurrentEncodedSize_def lp_strhdr_def lp_classes LP_ENCODING_12BIT_STR_LEN_def byte_and_low
          join_bytes)
  next
    case 3
    with assms show ?thesis
      by (simp add: lpCurrentEncodedSize_def lp_strhdr_def lp_classes LP_ENCODING_32BIT_STR_LEN_def lp_field_def)
  qed
qed

section \<open>Reading an integer\<close>

definition lp_int_got :: "bool \<Rightarrow> int \<Rightarrow> lp_got" where
  "lp_int_got ib v = (if ib then LpIntbuf (dec_int v @ [0]) (int (length (dec_int v))) else LpNull v)"

lemma lpGet_int_val:
  assumes "- (2 ^ n) \<le> v" "v < 2 ^ n" "n < 64" "k = 2 ^ n" "q = 2 * 2 ^ n - 1"
  shows "lpGet_int ib (nat (if v < 0 then 2 * 2 ^ n + v else v)) k q = lp_int_got ib v"
proof -
  have n: "(2::int) ^ n \<le> 9223372036854775808" using power_increasing[of n 63 "2::int"] assms(3) by simp
  have len: "length (dec_int v) \<le> 20" using n assms(1,2) by (intro length_dec_int) simp_all
  show ?thesis
  proof (cases "v < 0")
    case True
    let ?u = "nat (2 * 2 ^ n + v)"
    have u: "int ?u = 2 * 2 ^ n + v" using assms(1) True by simp
    have "int k \<le> int ?u" unfolding u assms(4) using assms(1) by simp
    then have "k \<le> ?u" unfolding of_nat_le_iff .
    moreover have "int q - int ?u = - v - 1" unfolding u assms(5) by (simp add: of_nat_diff)
    moreover have "to_size (- v - 1) = nat (- v - 1)" using True assms(1) n by (intro to_size_id) simp_all
    ultimately show ?thesis using True len by (simp add: lpGet_int_def lp_int_got_def Let_def LP_INTBUF_SIZE_def)
  next
    case False
    then have "\<not> k \<le> nat v" using assms(2,4) by (simp add: nat_less_iff not_le)
    with False len show ?thesis by (simp add: lpGet_int_def lp_int_got_def Let_def LP_INTBUF_SIZE_def)
  qed
qed

lemma lpGet_small: "v \<ge> 0 \<Longrightarrow> v \<le> 127 \<Longrightarrow> lpGet_int ib (nat v) (2 ^ 64 - 1) 0 = lp_int_got ib v"
  using length_dec_int[of v] by (simp add: le_nat_iff lpGet_int_def lp_int_got_def Let_def LP_INTBUF_SIZE_def)

lemma lp_field_tag:
  "n < 256 ^ k \<Longrightarrow> lp_field (pre @ (t # le_bytes k n) @ xs) (length pre + 1) k = Inr n"
  by (simp add: lp_field_def)

lemma lpGet_tag:
  assumes "u < 256 ^ k" "(t, k, g, h) \<in> {(0xF1, 2, 2 ^ 15, 2 ^ 16 - 1), (0xF2, 3, 2 ^ 23, 2 ^ 24 - 1),
    (0xF3, 4, 2 ^ 31, 2 ^ 32 - 1), (0xF4, 8, 2 ^ 63, 2 ^ 64 - 1)}"
  shows "lpGet (pre @ (t # le_bytes k u) @ xs) (length pre) ib = Inr (lpGet_int ib u g h)"
  using lp_field_tag[OF assms(1), of pre t xs] assms(2) by (auto simp: lpGet_def lp_classes)

lemma lpGet_13bit:
  assumes "\<not> (v \<ge> 0 \<and> v \<le> 127)" "v \<ge> -4096 \<and> v \<le> 4095"
  shows "lpGet (pre @ lp_intenc v @ xs) (length pre) ib = Inr (lp_int_got ib v)"
proof -
  let ?u = "if v < 0 then 2 * 2 ^ 12 + v else v"
  have r: "0 \<le> ?u" "?u < 8192" using assms by auto
  have e: "lp_intenc v = [word_of_int (drop_bit 8 ?u) OR 0xC0, word_of_nat (nat ?u)]"
    using assms r word_of_int_nat[of ?u] by (auto simp: lp_intenc_def Let_def)
  have d: "nat ?u div 256 < 32" using r by (simp add: less_mult_imp_div_less)
  then have "(nat ?u div 256 + 0xC0) mod 32 = nat ?u div 256"
    using mod_mult_self1[of "nat ?u div 256" 6 32] by simp
  then have "lpGet (pre @ lp_intenc v @ xs) (length pre) ib = Inr (lpGet_int ib (nat ?u) (2 ^ 12) 8191)"
    unfolding e using unat_13bit[OF r] d
    by (simp add: lpGet_def lp_classes byte_and_low join_bytes del: of_nat_nat)
  with assms show ?thesis using lpGet_int_val[of 12 v "2 ^ 12" 8191 ib] by simp
qed

lemma lp_intenc_tag:
  assumes v: "- (2 ^ 63) \<le> v" "v < 2 ^ 63" "\<not> (v \<ge> -4096 \<and> v \<le> 4095)"
  shows "\<exists>t k n. lp_intenc v = t # le_bytes k (nat (if v < 0 then 2 * 2 ^ n + v else v))
    \<and> - (2 ^ n) \<le> v \<and> v < 2 ^ n \<and> n < 64 \<and> k * 8 = Suc n
    \<and> (t, k, (2::nat) ^ n, 2 * 2 ^ n - 1) \<in> {(0xF1, 2, 2 ^ 15, 2 ^ 16 - 1), (0xF2, 3, 2 ^ 23, 2 ^ 24 - 1),
      (0xF3, 4, 2 ^ 31, 2 ^ 32 - 1), (0xF4, 8, 2 ^ 63, 2 ^ 64 - (1::nat))}"
proof -
  consider (16) "v \<ge> -32768 \<and> v \<le> 32767"
    | (24) "\<not> (v \<ge> -32768 \<and> v \<le> 32767)" "v \<ge> -8388608 \<and> v \<le> 8388607"
    | (32) "\<not> (v \<ge> -8388608 \<and> v \<le> 8388607)" "v \<ge> -2147483648 \<and> v \<le> 2147483647"
    | (64) "\<not> (v \<ge> -2147483648 \<and> v \<le> 2147483647)" by argo
  then show ?thesis
  proof cases
    case 16
    with v show ?thesis by (intro exI[of _ "0xF1"] exI[of _ "2"] exI[of _ "15"]) (auto simp: lp_intenc_def Let_def)
  next
    case 24
    with v show ?thesis by (intro exI[of _ "0xF2"] exI[of _ "3"] exI[of _ "23"]) (auto simp: lp_intenc_def Let_def)
  next
    case 32
    with v show ?thesis by (intro exI[of _ "0xF3"] exI[of _ "4"] exI[of _ "31"]) (auto simp: lp_intenc_def Let_def)
  next
    case 64
    have "(2 ^ 64 + v) mod 2 ^ 64 = 2 ^ 64 + v" if "v < 0"
      using v that by (intro mod_pos_pos_trivial) simp_all
    then have "to_size v = nat (if v < 0 then 2 * 2 ^ 63 + v else v)" using v by (auto simp: to_size_def)
    with 64 v show ?thesis by (intro exI[of _ "0xF4"] exI[of _ "8"] exI[of _ "63"]) (auto simp: lp_intenc_def Let_def)
  qed
qed

lemma lpGet_intenc:
  assumes v: "- (2 ^ 63) \<le> v" "v < 2 ^ 63"
  shows "lpGet (pre @ lp_intenc v @ xs) (length pre) ib = Inr (lp_int_got ib v)"
proof -
  consider (7) "v \<ge> 0 \<and> v \<le> 127" | (13) "\<not> (v \<ge> 0 \<and> v \<le> 127)" "v \<ge> -4096 \<and> v \<le> 4095"
    | (tag) "\<not> (v \<ge> -4096 \<and> v \<le> 4095)" by argo
  then show ?thesis
  proof cases
    case 7
    then have u: "unat (word_of_int v :: byte) = nat v" using unat_byte[of "nat v"] by (simp add: nat_less_iff)
    with 7 have m: "unat (word_of_int v :: byte) mod 128 = nat v" by (simp add: nat_less_iff)
    have "nat v < 128" using 7 by (simp add: nat_less_iff)
    with 7 u m lpGet_small[of v ib] show ?thesis by (simp add: lp_intenc_def lpGet_def lp_classes byte_and_low)
  next
    case 13 then show ?thesis by (rule lpGet_13bit)
  next
    case tag
    then obtain t k n where e: "lp_intenc v = t # le_bytes k (nat (if v < 0 then 2 * 2 ^ n + v else v))"
      and n: "- (2 ^ n) \<le> v" "v < 2 ^ n" "n < 64" "k * 8 = Suc n"
      and t: "(t, k, (2::nat) ^ n, 2 * 2 ^ n - 1) \<in> {(0xF1, 2, 2 ^ 15, 2 ^ 16 - 1), (0xF2, 3, 2 ^ 23, 2 ^ 24 - 1),
        (0xF3, 4, 2 ^ 31, 2 ^ 32 - 1), (0xF4, 8, 2 ^ 63, 2 ^ 64 - (1::nat))}"
      using lp_intenc_tag[OF v] by blast
    have "(256::int) ^ k = 2 ^ (8 * k)" by (simp add: power_mult)
    also have "8 * k = Suc n" using n(4) by simp
    finally have "(256::int) ^ k = 2 * 2 ^ n" by simp
    with n(1,2) have "nat (if v < 0 then 2 * 2 ^ n + v else v) < 256 ^ k" by (auto simp: nat_less_iff)
    from lpGet_tag[OF this t] show ?thesis unfolding e using lpGet_int_val[OF n(1-3) refl refl, of ib] by simp
  qed
qed

end
