(* ===== verification/ListpackCorrect.thy ===== *)
theory ListpackCorrect
  imports ListpackCodec
begin

text \<open>
  A listpack as a sequence of strings: the bytes that represent a sequence, the walks over it, and
  the edits. \<open>lp_rep lp es\<close> says that the region \<open>lp\<close> holds the elements \<open>es\<close>; \<open>lp_off es i\<close> is the pointer
  to the \<open>i\<close>-th one.
\<close>

section \<open>Sizes\<close>

lemma size_intenc:
  assumes v: "- (2 ^ 63) \<le> v" "v < 2 ^ 63"
  shows "lpCurrentEncodedSize (lp_intenc v @ xs) 0 = Inr (length (lp_intenc v))"
    and "unat (hd (lp_intenc v)) \<noteq> 0xFF" and "lp_intenc v \<noteq> []" and "length (lp_intenc v) \<le> 9"
proof -
  let ?G = "\<lambda>l. lpCurrentEncodedSize (l @ xs) 0 = Inr (length l) \<and> unat (hd l) \<noteq> 0xFF \<and> l \<noteq> [] \<and> length l \<le> 9"
  consider (7) "v \<ge> 0 \<and> v \<le> 127" | (13) "\<not> (v \<ge> 0 \<and> v \<le> 127)" "v \<ge> -4096 \<and> v \<le> 4095"
    | (tag) "\<not> (v \<ge> -4096 \<and> v \<le> 4095)" by argo
  then have "?G (lp_intenc v)"
  proof cases
    case 7
    then have u: "unat (word_of_int v :: byte) = nat v" "nat v < 128"
      using unat_byte[of "nat v"] by (simp_all add: nat_less_iff)
    with 7 show ?thesis by (simp add: lp_intenc_def lpCurrentEncodedSize_def lp_classes)
  next
    case 13
    let ?u = "if v < 0 then 2 * 2 ^ 12 + v else v"
    have r: "0 \<le> ?u" "?u < 8192" using 13 by auto
    have e: "lp_intenc v = [word_of_int (drop_bit 8 ?u) OR 0xC0, word_of_int ?u]"
      using 13 r by (auto simp: lp_intenc_def Let_def)
    have "nat ?u div 256 < 32" using r by (simp add: less_mult_imp_div_less)
    then show ?thesis unfolding e using unat_13bit[OF r] by (simp add: lpCurrentEncodedSize_def lp_classes)
  next
    case tag
    obtain t k n where e: "lp_intenc v = t # le_bytes k n"
      and t: "(t, k) \<in> {(0xF1, 2), (0xF2, 3), (0xF3, 4), (0xF4, 8)}"
      using lp_intenc_tag[OF v tag] by auto
    from t consider "t = 0xF1" "k = 2" | "t = 0xF2" "k = 3" | "t = 0xF3" "k = 4" | "t = 0xF4" "k = 8" by auto
    then show ?thesis unfolding e by cases (simp_all add: lpCurrentEncodedSize_def lp_classes)
  qed
  then show "lpCurrentEncodedSize (lp_intenc v @ xs) 0 = Inr (length (lp_intenc v))"
    "unat (hd (lp_intenc v)) \<noteq> 0xFF" "lp_intenc v \<noteq> []" "length (lp_intenc v) \<le> 9" by blast+
qed

lemma hd_strhdr: "lp_strhdr n \<noteq> []" "unat (hd (lp_strhdr n)) \<noteq> 0xFF"
  using unat_12bit[of n] unat_6bit[of n] by (auto simp: lp_strhdr_def)

lemma length_strhdr: "length (lp_strhdr n) = (if n < 64 then 1 else if n < 4096 then 2 else 5)"
  by (simp add: lp_strhdr_def)

lemma ll_of_string_bounds:
  "ll_of_string e = Some v \<Longrightarrow> - (2 ^ 63) \<le> v \<and> v < 2 ^ 63 \<and> e = dec_int v \<and> length e \<le> 20"
  using length_dec_int[of v] by (auto simp: ll_of_string_iff)

lemma lp_enc_hd: "lp_enc e \<noteq> []" "hd (lp_enc e) \<noteq> LP_EOF"
proof -
  have "lp_enc e \<noteq> [] \<and> unat (hd (lp_enc e)) \<noteq> 0xFF"
    using size_intenc(2,3) ll_of_string_bounds[of e] hd_strhdr[of "length e"]
    by (cases "ll_of_string e") (auto simp: lp_enc_def)
  then show "lp_enc e \<noteq> []" "hd (lp_enc e) \<noteq> LP_EOF" by (auto simp: LP_EOF_def)
qed

lemma lp_enc_size:
  "length e < 2 ^ 32 - 5 \<Longrightarrow> lpCurrentEncodedSize (pre @ lp_enc e @ xs) (length pre) = Inr (length (lp_enc e))"
  using size_intenc(1) ll_of_string_bounds[of e] size_strhdr[of e "e @ xs"]
  by (cases "ll_of_string e") (auto simp: lp_enc_def lpCurrentEncodedSize_shift)

lemma lp_enc_length: "length e \<le> length (lp_enc e) + 20" "length (lp_enc e) \<le> length e + 9"
  "20 < length e \<Longrightarrow> length e < length (lp_enc e)"
  using size_intenc(4) ll_of_string_bounds[of e]
  by (cases "ll_of_string e"; fastforce simp: lp_enc_def length_strhdr)+

lemma lpEncodeGetType_eq:
  assumes "length e < 2 ^ 32 - 5"
  shows "\<exists>ty ie. lpEncodeGetType e (length e) = Inr (ty, ie, length (lp_enc e))
    \<and> (case ll_of_string e of Some v \<Rightarrow> ty = LP_ENCODING_INT \<and> ie = lp_enc e | None \<Rightarrow> ty = LP_ENCODING_STRING)"
  using assms by (cases "ll_of_string e")
    (auto simp: lpEncodeGetType_def lpStringToInt64_eq lp_enc_def length_strhdr)

text \<open>What \<open>lpGet\<close> returns on the entry of an element at offset \<open>p\<close>.\<close>

definition lp_got_elem :: "bool \<Rightarrow> nat \<Rightarrow> byte list \<Rightarrow> lp_got" where
  "lp_got_elem ib p e = (case ll_of_string e of
       Some v \<Rightarrow> lp_int_got ib v
     | None \<Rightarrow> LpInside (p + length (lp_strhdr (length e))) (int (length e)))"

lemma lpGet_enc:
  "length e < 2 ^ 32 - 5 \<Longrightarrow> lpGet (pre @ lp_enc e @ xs) (length pre) ib = Inr (lp_got_elem ib (length pre) e)"
  using lpGet_intenc ll_of_string_bounds[of e] lpGet_strhdr[of e pre "e @ xs"]
  by (cases "ll_of_string e") (auto simp: lp_enc_def lp_got_elem_def)

section \<open>The bytes of a listpack\<close>

definition lp_body :: "byte list list \<Rightarrow> byte list" where
  "lp_body es = concat (map lp_entry es)"

definition lp_bytes :: "nat \<Rightarrow> byte list list \<Rightarrow> byte list" where
  "lp_bytes num es = le_bytes 4 (7 + length (lp_body es)) @ le_bytes 2 num @ lp_body es @ [LP_EOF]"

text \<open>The cached number of elements is right, or unknown.\<close>

definition lp_num_ok :: "nat \<Rightarrow> nat \<Rightarrow> bool" where
  "lp_num_ok num n \<longleftrightarrow> num = LP_HDR_NUMELE_UNKNOWN \<or> (num = n \<and> n < LP_HDR_NUMELE_UNKNOWN)"

definition lp_rep :: "byte list \<Rightarrow> byte list list \<Rightarrow> bool" where
  "lp_rep lp es \<longleftrightarrow> (\<exists>num. lp = lp_bytes num es \<and> lp_num_ok num (length es)) \<and> length lp < 2 ^ 32"

text \<open>The offset of an element, and of the final byte for \<open>i = length es\<close>.\<close>

definition lp_off :: "byte list list \<Rightarrow> nat \<Rightarrow> nat" where
  "lp_off es i = 6 + length (lp_body (take i es))"

lemma lp_body_simps [simp]:
  "lp_body [] = []" "lp_body (e # es) = lp_entry e @ lp_body es" "lp_body (xs @ ys) = lp_body xs @ lp_body ys"
  by (simp_all add: lp_body_def)

lemma length_lp_bytes: "length (lp_bytes num es) = 7 + length (lp_body es)"
  by (simp add: lp_bytes_def)

lemma lp_entry_length: "2 \<le> length (lp_entry e)" "length (lp_enc e) < length (lp_entry e)"
  using lp_enc_hd(1)[of e] length_lpEncodeBacklen_le(1)[of "length (lp_enc e)"]
  by (cases "lp_enc e"; simp add: lp_entry_def)+

lemma lp_body_length: "2 * length es \<le> length (lp_body es)"
proof (induction es)
  case (Cons e es)
  then show ?case using lp_entry_length(1)[of e] by simp
qed simp

lemma lp_entry_mem: "e \<in> set es \<Longrightarrow> length (lp_entry e) \<le> length (lp_body es)"
  by (induction es) auto

lemma lp_rep_length: "lp_rep lp es \<Longrightarrow> length lp = 7 + length (lp_body es)"
  by (auto simp: lp_rep_def length_lp_bytes)

lemma lp_rep_elem:
  assumes "lp_rep lp es" "e \<in> set es"
  shows "length e < 2 ^ 32 - 5"
  using lp_rep_length[OF assms(1)] lp_entry_mem[OF assms(2)] lp_entry_length(2)[of e] lp_enc_length(3)[of e] assms(1)
  by (cases "20 < length e") (auto simp: lp_rep_def)

text \<open>The parts of the region at an element and at the end.\<close>

lemma lp_rep_split:
  assumes "lp_rep lp es" "i < length es"
  obtains pre where "length pre = lp_off es i" "lp = pre @ lp_entry (es ! i) @ lp_body (drop (Suc i) es) @ [LP_EOF]"
proof -
  obtain num where lp: "lp = lp_bytes num es" using assms(1) by (auto simp: lp_rep_def)
  have "lp_body es = lp_body (take i es) @ lp_entry (es ! i) @ lp_body (drop (Suc i) es)"
    using id_take_nth_drop[OF assms(2)] by (metis lp_body_simps(2,3))
  then show ?thesis
    by (intro that[of "le_bytes 4 (7 + length (lp_body es)) @ le_bytes 2 num @ lp_body (take i es)"])
      (simp_all add: lp_off_def lp lp_bytes_def)
qed

lemma lp_rep_at:
  assumes "lp_rep lp es" "i \<le> length es"
  obtains pre where "length pre = lp_off es i" "lp = pre @ lp_body (drop i es) @ [LP_EOF]"
proof -
  obtain num where lp: "lp = lp_bytes num es" using assms(1) by (auto simp: lp_rep_def)
  have "lp_body es = lp_body (take i es) @ lp_body (drop i es)"
    by (metis append_take_drop_id lp_body_simps(3))
  then show ?thesis
    by (intro that[of "le_bytes 4 (7 + length (lp_body es)) @ le_bytes 2 num @ lp_body (take i es)"])
      (simp_all add: lp_off_def lp lp_bytes_def)
qed

lemma lp_off_0 [simp]: "lp_off es 0 = LP_HDR_SIZE"
  by (simp add: lp_off_def LP_HDR_SIZE_def)

lemma lp_off_Suc: "i < length es \<Longrightarrow> lp_off es (Suc i) = lp_off es i + length (lp_entry (es ! i))"
  by (simp add: lp_off_def take_Suc_conv_app_nth)

lemma lp_off_gt: "0 < i \<Longrightarrow> i \<le> length es \<Longrightarrow> LP_HDR_SIZE < lp_off es i"
  using lp_body_length[of "take i es"] by (auto simp: lp_off_def LP_HDR_SIZE_def)

lemma lp_off_end: "lp_rep lp es \<Longrightarrow> lp_off es (length es) = length lp - 1"
  by (simp add: lp_off_def lp_rep_length)

section \<open>Walking\<close>

lemma lpGetTotalBytes_rep: "lp_rep lp es \<Longrightarrow> lpGetTotalBytes lp = Inr (length lp)"
  by (auto simp: lp_rep_def lpGetTotalBytes_def lp_field_def lp_bytes_def)

lemma lpGetNumElements_bytes: "num \<le> 65535 \<Longrightarrow> lpGetNumElements (lp_bytes num es) = Inr num"
  using mem_read_append[of "le_bytes 4 (7 + length (lp_body es))" _ 0 2]
  by (simp add: lpGetNumElements_def lp_field_def lp_bytes_def)

lemma lp_num_ok_le: "lp_num_ok num n \<Longrightarrow> num \<le> 65535"
  by (auto simp: lp_num_ok_def LP_HDR_NUMELE_UNKNOWN_def)

lemma lp_body_hd: "\<exists>b. getb (lp_body ys @ [LP_EOF]) 0 = Inr b \<and> (b = LP_EOF \<longleftrightarrow> ys = [])"
proof (cases ys)
  case (Cons y ys')
  obtain b bs where "lp_enc y = b # bs" using lp_enc_hd(1) by (cases "lp_enc y") auto
  then show ?thesis using Cons lp_enc_hd(2)[of y] by (simp add: lp_entry_def)
qed simp

lemma getb_at:
  assumes "lp_rep lp es" "i \<le> length es"
  shows "\<exists>b. getb lp (lp_off es i) = Inr b \<and> (b = LP_EOF \<longleftrightarrow> i = length es)"
proof -
  obtain pre where pre: "length pre = lp_off es i" "lp = pre @ lp_body (drop i es) @ [LP_EOF]"
    using lp_rep_at[OF assms] .
  show ?thesis using lp_body_hd[of "drop i es"] assms(2) unfolding pre(2) pre(1)[symmetric] by auto
qed

lemma lpSkip_rep:
  assumes "lp_rep lp es" "i < length es"
  shows "lpSkip lp (lp_off es i) = Inr (lp_off es (Suc i))"
proof -
  obtain pre where pre: "length pre = lp_off es i"
    "lp = pre @ lp_entry (es ! i) @ lp_body (drop (Suc i) es) @ [LP_EOF]" using lp_rep_split[OF assms] .
  have "lpCurrentEncodedSize lp (lp_off es i) = Inr (length (lp_enc (es ! i)))"
    using lp_enc_size[OF lp_rep_elem[OF assms(1)], of "es ! i" pre] assms(2)
    unfolding pre(2) pre(1)[symmetric] lp_entry_def by simp
  then show ?thesis using assms(2) by (simp add: lpSkip_def lp_off_Suc lp_entry_def)
qed

lemma lpNext_rep:
  assumes "lp_rep lp es" "i < length es"
  shows "lpNext lp (lp_off es i) = Inr (if Suc i < length es then Some (lp_off es (Suc i)) else None)"
  using lpSkip_rep[OF assms] getb_at[OF assms(1), of "Suc i"] assms(2) by (auto simp: lpNext_def)

lemma lpFirst_rep:
  assumes "lp_rep lp es"
  shows "lpFirst lp = Inr (if es = [] then None else Some (lp_off es 0))"
  using getb_at[OF assms, of 0] by (auto simp: lpFirst_def)

lemma lpPrev_rep:
  assumes "lp_rep lp es" "i \<le> length es"
  shows "lpPrev lp (lp_off es i) = Inr (if i = 0 then None else Some (lp_off es (i - 1)))"
proof (cases i)
  case 0 then show ?thesis by (simp add: lpPrev_def)
next
  case (Suc j)
  let ?e = "es ! j" and ?l = "length (lp_enc (es ! j))"
  have j: "j < length es" using Suc assms(2) by simp
  obtain pre where pre: "length pre = lp_off es j"
    "lp = pre @ lp_entry ?e @ lp_body (drop (Suc j) es) @ [LP_EOF]" using lp_rep_split[OF assms(1) j] .
  have off: "lp_off es i = length (pre @ lp_enc ?e) + length (lpEncodeBacklen ?l)"
    unfolding Suc lp_off_Suc[OF j] pre(1)[symmetric] by (simp add: lp_entry_def)
  have "length (lp_entry ?e) < 2 ^ 32" using assms(1) unfolding lp_rep_def by (auto simp: pre(2))
  then have l: "?l + 5 < 2 ^ 35" using lp_entry_length(2)[of ?e] by simp
  have "lpDecodeBacklen lp (lp_off es i - 1) = Inr ?l"
    using lpDecodeBacklen_encode[of ?l "pre @ lp_enc ?e"] l unfolding off by (simp add: pre(2) lp_entry_def)
  moreover have "LP_HDR_SIZE < lp_off es i" using lp_off_gt[of i es] Suc assms(2) by simp
  moreover have "u64 (?l + length (lpEncodeBacklen ?l)) = length (lp_entry ?e)"
    using l length_lpEncodeBacklen_le(2)[of ?l] by (subst u64_id) (simp_all add: lp_entry_def)
  ultimately show ?thesis using Suc lp_off_Suc[OF j] lp_entry_length(1)[of ?e] by (auto simp: lpPrev_def Let_def)
qed

lemma lpLast_rep:
  assumes "lp_rep lp es"
  shows "lpLast lp = Inr (if es = [] then None else Some (lp_off es (length es - 1)))"
  using lpPrev_rep[OF assms, of "length es"] lp_rep_length[OF assms]
  by (simp add: lpLast_def lpGetTotalBytes_rep[OF assms] lp_off_end[OF assms])

lemma lp_rep_count: "lp_rep lp es \<Longrightarrow> length es < 2 ^ 31"
  using lp_body_length[of es] lp_rep_length[of lp es] by (auto simp: lp_rep_def)

lemma lpGet_rep:
  assumes "lp_rep lp es" "i < length es"
  shows "lpGet lp (lp_off es i) ib = Inr (lp_got_elem ib (lp_off es i) (es ! i))"
proof -
  obtain pre where pre: "length pre = lp_off es i"
    "lp = pre @ lp_entry (es ! i) @ lp_body (drop (Suc i) es) @ [LP_EOF]" using lp_rep_split[OF assms] .
  show ?thesis using lpGet_enc[OF lp_rep_elem[OF assms(1)], of "es ! i" pre] assms(2)
    unfolding pre(2) pre(1)[symmetric] lp_entry_def by simp
qed

lemma lpLength_loop_rep:
  assumes "lp_rep lp es" "i < length es" "c + (length es - i) < 2 ^ 32"
  shows "lpLength_loop lp (Some (lp_off es i)) c = Inr (c + (length es - i))"
  using assms(2,3)
proof (induction "length es - i" arbitrary: i c)
  case (Suc d)
  have c: "(c + 1) mod 2 ^ 32 = Suc c" using Suc.prems by (subst mod_less) simp_all
  show ?case
  proof (cases "Suc i < length es")
    case True
    then have "lpLength_loop lp (Some (lp_off es (Suc i))) (Suc c) = Inr (Suc c + (length es - Suc i))"
      using Suc.hyps(2) Suc.prems by (intro Suc.hyps(1)) auto
    then show ?thesis using True lpNext_rep[OF assms(1) Suc.prems(1)] c
      by (subst lpLength_loop.simps) simp
  next
    case False
    then have "length es - i = 1" using Suc.prems(1) by simp
    then show ?thesis using False lpNext_rep[OF assms(1) Suc.prems(1)] c
      by (subst lpLength_loop.simps) (simp add: lpLength_loop.simps[of _ None])
  qed
qed simp

lemma lpSetNumElements_bytes: "lpSetNumElements (lp_bytes num es) v = Inr (lp_bytes v es)"
  by (simp add: lpSetNumElements_def lp_bytes_def)

lemma lpLength_rep:
  assumes "lp_rep lp es"
  shows "\<exists>lp'. lpLength lp = Inr (length es, lp') \<and> lp_rep lp' es"
proof -
  obtain num where lp: "lp = lp_bytes num es" and n: "lp_num_ok num (length es)"
    using assms by (auto simp: lp_rep_def)
  have num: "lpGetNumElements lp = Inr num" unfolding lp by (rule lpGetNumElements_bytes) (rule lp_num_ok_le[OF n])
  have loop: "bindE (lpFirst lp) (\<lambda>p. lpLength_loop lp p 0) = Inr (length es)"
  proof (cases "es = []")
    case True then show ?thesis using lpFirst_rep[OF assms] by (simp add: lpLength_loop.simps)
  next
    case False
    then have "lpLength_loop lp (Some (lp_off es 0)) 0 = Inr (0 + (length es - 0))"
      using lp_rep_count[OF assms] by (intro lpLength_loop_rep[OF assms]) simp_all
    then show ?thesis using lpFirst_rep[OF assms] False by simp
  qed
  show ?thesis
  proof (cases "num = LP_HDR_NUMELE_UNKNOWN")
    case False
    then show ?thesis using n num assms by (auto simp: lpLength_def lp_num_ok_def)
  next
    case True
    have r: "lp_rep (lp_bytes (length es) es) es" if "length es < LP_HDR_NUMELE_UNKNOWN"
      using that assms unfolding lp_rep_def lp by (auto simp: lp_num_ok_def length_lp_bytes)
    have "lpLength lp = (if length es < LP_HDR_NUMELE_UNKNOWN
        then Inr (length es, lp_bytes (length es) es) else Inr (length es, lp))"
      using loop True num lpSetNumElements_bytes[of num es] unfolding lpLength_def
      by (auto simp: bindE_eq_Inr lp)
    then show ?thesis using r assms by auto
  qed
qed

section \<open>Seeking\<close>

definition lp_ptr :: "byte list list \<Rightarrow> nat \<Rightarrow> nat option" where
  "lp_ptr es i = (if i < length es then Some (lp_off es i) else None)"

lemma lpSeek_right_rep:
  assumes "lp_rep lp es"
  shows "lpSeek_right lp k (lp_ptr es i) = Inr (lp_ptr es (i + k))"
proof (induction k arbitrary: i)
  case (Suc k)
  then show ?case
  proof (cases "i < length es")
    case True
    then show ?thesis using Suc[of "Suc i"] lpNext_rep[OF assms True] by (simp add: lp_ptr_def)
  qed (simp add: lp_ptr_def)
qed simp

lemma lpSeek_left_rep:
  assumes "lp_rep lp es" "i < length es"
  shows "lpSeek_left lp k (Some (lp_off es i)) = Inr (if k \<le> i then Some (lp_off es (i - k)) else None)"
  using assms(2)
proof (induction k arbitrary: i)
  case (Suc k)
  show ?case
  proof (cases i)
    case 0
    then show ?thesis using lpPrev_rep[OF assms(1), of i] by (cases k) simp_all
  next
    case (Suc j)
    then show ?thesis using Suc.IH[of j] Suc.prems lpPrev_rep[OF assms(1), of i] by simp
  qed
qed simp

text \<open>The element with index \<open>k\<close>, where negative indexes count from the right.\<close>

definition lp_index :: "byte list list \<Rightarrow> int \<Rightarrow> nat option" where
  "lp_index es k =
     (let j = (if k < 0 then int (length es) + k else k) in
      if 0 \<le> j \<and> j < int (length es) then Some (nat j) else None)"

lemma lpSeek_right_index:
  assumes "lp_rep lp es" "0 \<le> j"
  shows "bindE (lpFirst lp) (lpSeek_right lp (nat j)) = Inr (map_option (lp_off es) (lp_index es j))"
proof -
  have "lpFirst lp = Inr (lp_ptr es 0)" using lpFirst_rep[OF assms(1)] by (simp add: lp_ptr_def)
  then show ?thesis using lpSeek_right_rep[OF assms(1), of "nat j" 0] assms(2)
    by (auto simp: lp_ptr_def lp_index_def nat_less_iff)
qed

lemma lpSeek_left_index:
  assumes "lp_rep lp es" "j < 0"
  shows "bindE (lpLast lp) (lpSeek_left lp (nat (- 1 - j))) = Inr (map_option (lp_off es) (lp_index es j))"
proof (cases "es = []")
  case True
  then show ?thesis using lpLast_rep[OF assms(1)] assms(2) by (cases "nat (- 1 - j)") (simp_all add: lp_index_def)
next
  case False
  let ?n = "length es"
  have n: "0 < ?n" using False by simp
  have a: "nat (- 1 - j) \<le> ?n - 1 \<longleftrightarrow> 0 \<le> int ?n + j" using assms(2) n by linarith
  have b: "?n - 1 - nat (- 1 - j) = nat (int ?n + j)" if "0 \<le> int ?n + j" using that n assms(2) by linarith
  show ?thesis using lpLast_rep[OF assms(1)] lpSeek_left_rep[OF assms(1), of "?n - 1" "nat (- 1 - j)"] False n b assms(2)
    unfolding a by (auto simp: lp_index_def)
qed

lemma lpSeek_rep:
  assumes "lp_rep lp es"
  shows "lpSeek lp k = Inr (map_option (lp_off es) (lp_index es k))"
proof -
  let ?n = "length es"
  obtain num where lp: "lp = lp_bytes num es" and n: "lp_num_ok num ?n"
    using assms by (auto simp: lp_rep_def)
  have num: "lpGetNumElements lp = Inr num" unfolding lp by (rule lpGetNumElements_bytes) (rule lp_num_ok_le[OF n])
  note right = lpSeek_right_index[OF assms] and left = lpSeek_left_index[OF assms]
  define j where "j = (if k < 0 then int ?n + k else k)"
  have idx: "lp_index es k = lp_index es j" "j < int ?n \<Longrightarrow> 0 \<le> j \<Longrightarrow> lp_index es k = lp_index es (j - int ?n)"
    if "0 \<le> j" using that by (auto simp: lp_index_def j_def)
  show ?thesis
  proof (cases "num = LP_HDR_NUMELE_UNKNOWN")
    case True
    then show ?thesis using num left[of k] right[of k] by (simp add: lpSeek_def Let_def)
  next
    case False
    then have [simp]: "num = ?n" using n by (simp add: lp_num_ok_def)
    have eq: "lpSeek lp k = (if 0 \<le> j \<and> j < int ?n then
        (if j > int (?n div 2) then bindE (lpLast lp) (lpSeek_left lp (nat (- 1 - (j - int ?n))))
         else bindE (lpFirst lp) (lpSeek_right lp (nat j))) else Inr None)"
      using num False by (auto simp: lpSeek_def Let_def j_def)
    have none: "lp_index es k = None" if "\<not> (0 \<le> j \<and> j < int ?n)"
      using that by (auto simp: lp_index_def Let_def j_def)
    show ?thesis unfolding eq using none right[of j] left[of "j - int ?n"] idx by auto
  qed
qed

section \<open>Inserting, replacing and deleting\<close>

lemma lpInsert_shift_eq:
  assumes lp: "lp = pre @ old @ post" and n: "length lp < 2 ^ 32"
    and wh: "wh = LP_BEFORE \<and> old = [] \<or> wh = LP_REPLACE" and lp1: "take (length lp) lp1 = lp"
  shows "lpInsert_shift lp1 (length pre) wh need (length old) (length lp) = mem_write lp1 (length pre + need) post"
proof -
  have len: "length lp = length pre + length old + length post" by (simp add: lp)
  have sz: "to_size (int (length lp) - int (length pre)) = length old + length post"
    "to_size (int (length lp) - int (length pre) - int (length old)) = length post"
    using n unfolding len by (subst to_size_id; simp)+
  have "lp1 = (pre @ old) @ post @ drop (length lp) lp1" using lp1 append_take_drop_id[of "length lp" lp1] lp by simp
  then have "mem_read lp1 (length (pre @ old) + 0) (length post) = Inr post" by (metis mem_read_append mem_read_front)
  moreover have "nat (int (length pre) + int (length old) + (int need - int (length old))) = length pre + need" by linarith
  ultimately show ?thesis using wh sz by (auto simp: lpInsert_shift_def)
qed

lemma lpInsert_move_spec:
  assumes m: "malloc_ok m" and lp: "lp = pre @ old @ post" and n: "length lp < 2 ^ 32"
    and wh: "wh = LP_BEFORE \<and> old = [] \<or> wh = LP_REPLACE"
    and nb: "new_bytes = length pre + need + length post"
  shows "yields m (lpInsert_move m lp (length pre) wh need (length old) (length lp) new_bytes)
    (\<lambda>lp'. \<exists>mid. lp' = pre @ mid @ post \<and> length mid = need)"
proof -
  let ?old = "length lp"
  have "yields m (if new_bytes > ?old then s_realloc m lp new_bytes else Inr lp)
      (\<lambda>bs. length bs = max new_bytes ?old \<and> take ?old bs = lp)"
    by (auto intro!: yields_mono[OF yields_s_realloc[OF m]] simp: min_def max_def)
  moreover have "yields m (bindE (lpInsert_shift lp1 (length pre) wh need (length old) ?old)
        (\<lambda>lp. if new_bytes < ?old then s_realloc m lp new_bytes else Inr lp))
      (\<lambda>lp'. \<exists>mid. lp' = pre @ mid @ post \<and> length mid = need)"
    if lp1: "length lp1 = max new_bytes ?old \<and> take ?old lp1 = lp" for lp1
  proof -
    let ?mid = "take need (drop (length pre) lp1)"
    let ?lp2 = "pre @ ?mid @ post @ drop (length pre + need + length post) lp1"
    have "take (length pre) lp1 = pre" using lp1 take_le_eq[of ?old lp1 lp "length pre"] by (simp add: lp)
    then have "take (length pre + need) lp1 = pre @ ?mid" by (simp add: take_add)
    then have sh: "lpInsert_shift lp1 (length pre) wh need (length old) ?old = Inr ?lp2"
      using lpInsert_shift_eq[OF lp n wh, of lp1 need] lp1 nb by simp
    have l: "length ?mid = need" "length ?lp2 = length lp1" using lp1 nb by (auto simp: min_def max_def lp)
    show ?thesis
    proof (cases "new_bytes < ?old")
      case True
      have "yields m (s_realloc m ?lp2 new_bytes) (\<lambda>bs. length bs = new_bytes \<and> take (min new_bytes (length ?lp2)) bs = take new_bytes ?lp2)"
        by (rule yields_s_realloc[OF m])
      then show ?thesis unfolding sh using True l lp1 nb
        by (auto elim!: yields_mono intro!: exI[of _ ?mid] simp: min_def)
    next
      case False
      then show ?thesis unfolding sh using l lp1 nb by (auto intro!: exI[of _ ?mid] simp: max_def)
    qed
  qed
  ultimately show ?thesis unfolding lpInsert_move_def by (rule yields_bindE)
qed

lemma mem_write_mid:
  "length old = length bs \<Longrightarrow> mem_write (pre @ old @ post) (length pre) bs = Inr (pre @ bs @ post)"
  by simp

lemma lpEncodeString_eq:
  assumes "length mid = length (lp_strhdr (length e)) + length e"
  shows "lpEncodeString (pre @ mid @ post) (length pre) e (length e) = Inr (pre @ lp_strhdr (length e) @ e @ post)"
proof -
  let ?h = "lp_strhdr (length e)"
  have w: "bindE (mem_write (pre @ mid @ post) (length pre) ?h) (\<lambda>buf.
      bindE (mem_read e 0 (length e)) (\<lambda>bs. mem_write buf (length pre + length ?h) bs))
    = Inr (pre @ ?h @ e @ post)"
    using assms mem_write_mid[of "drop (length ?h) mid" e "pre @ ?h" post] by simp
  show ?thesis using w by (auto simp: lpEncodeString_def lp_strhdr_def split: if_splits)
qed

lemma lpInsert_store_eq:
  assumes "length mid = length (lp_entry e)"
    and "lpEncodeGetType e (length e) = Inr (ty, ie, length (lp_enc e))"
    and "case ll_of_string e of Some v \<Rightarrow> ty = LP_ENCODING_INT \<and> ie = lp_enc e | None \<Rightarrow> ty = LP_ENCODING_STRING"
  shows "lpInsert_store (pre @ mid @ post) (Some e) (length e) (length pre) ty ie (length (lp_enc e))
      (lpEncodeBacklen (length (lp_enc e))) = Inr (pre @ lp_entry e @ post)"
proof -
  let ?n = "length (lp_enc e)" and ?b = "lpEncodeBacklen (length (lp_enc e))"
  obtain m1 m2 where mid: "mid = m1 @ m2" and n: "length m1 = ?n" "length m2 = length ?b"
    using assms(1) by (intro that[of "take ?n mid" "drop ?n mid"]) (simp_all add: lp_entry_def)
  have enc: "(if ty = LP_ENCODING_INT then bindE (mem_read ie 0 ?n) (\<lambda>bs. mem_write (pre @ mid @ post) (length pre) bs)
      else lpEncodeString (pre @ mid @ post) (length pre) e (length e)) = Inr (pre @ lp_enc e @ m2 @ post)"
  proof (cases "ll_of_string e")
    case None
    then have "lp_enc e = lp_strhdr (length e) @ e" by (simp add: lp_enc_def)
    then show ?thesis using None assms(3) n lpEncodeString_eq[of m1 e pre "m2 @ post"] by (simp add: mid)
  next
    case (Some v)
    then show ?thesis using assms(3) n mem_write_mid[of m1 "lp_enc e" pre "m2 @ post"] by (simp add: mid)
  qed
  show ?thesis using n mem_write_mid[of m2 ?b "pre @ lp_enc e" post]
    by (simp add: lpInsert_store_def enc lp_entry_def)
qed

lemma lpInsert_header_eq:
  assumes "length h = 4" "num \<le> 65535"
  shows "lpInsert_header (h @ le_bytes 2 num @ rest) ele wh nb = Inr (le_bytes 4 nb @ le_bytes 2
      (if (wh \<noteq> LP_REPLACE \<or> ele = None) \<and> num \<noteq> LP_HDR_NUMELE_UNKNOWN
       then (if ele \<noteq> None then num + 1 else u32sub num 1) else num) @ rest)"
proof -
  have g: "lpGetNumElements (h @ le_bytes 2 num @ rest) = Inr num"
    using mem_read_append[of h _ 0 2] assms by (simp add: lpGetNumElements_def lp_field_def)
  have s: "lpSetNumElements (h @ le_bytes 2 num @ rest) v = Inr (h @ le_bytes 2 v @ rest)" for v
    using assms(1) mem_write_mid[of "le_bytes 2 num" "le_bytes 2 v" h rest] by (simp add: lpSetNumElements_def)
  have t: "lpSetTotalBytes (h @ xs) nb = Inr (le_bytes 4 nb @ xs)" for xs
    using assms(1) by (simp add: lpSetTotalBytes_def)
  show ?thesis by (simp add: lpInsert_header_def g s t)
qed

text \<open>
  The steps after the sizes are known, on a listpack with the elements \<open>xs @ old @ ys\<close>, where \<open>old\<close> is
  what is replaced and \<open>new\<close> is what is stored.
\<close>

lemma lpInsert_steps:
  assumes m: "malloc_ok m" and rep: "lp_rep lp (xs @ old @ ys)" and fits: "7 + length (lp_body (xs @ new @ ys)) < 2 ^ 32"
    and wh: "wh = LP_BEFORE \<and> old = [] \<and> new \<noteq> [] \<or> wh = LP_REPLACE \<and> length old = 1"
    and new: "case ele of None \<Rightarrow> new = [] | Some e \<Rightarrow> new = [e]
      \<and> lpEncodeGetType e (length e) = Inr (ty, ie, length (lp_enc e))
      \<and> (case ll_of_string e of Some v \<Rightarrow> ty = LP_ENCODING_INT \<and> ie = lp_enc e | None \<Rightarrow> ty = LP_ENCODING_STRING)"
    and el: "enclen = (case ele of None \<Rightarrow> 0 | Some e \<Rightarrow> length (lp_enc e))"
    and bl: "bl = (case ele of None \<Rightarrow> [] | Some e \<Rightarrow> lpEncodeBacklen (length (lp_enc e)))"
    and p: "p = lp_off (xs @ old @ ys) (length xs)"
    and sz: "\<And>e. ele = Some e \<Longrightarrow> sz = length e"
  shows "yields m
    (bindE (lpInsert_move m lp p wh (length (lp_body new)) (length (lp_body old)) (length lp) (7 + length (lp_body (xs @ new @ ys)))) (\<lambda>lp.
     bindE (lpInsert_newp lp ele p newp) (\<lambda>np.
     bindE (lpInsert_store lp ele sz p ty ie enclen bl) (\<lambda>lp.
     bindE (lpInsert_header lp ele wh (7 + length (lp_body (xs @ new @ ys)))) (\<lambda>lp.
     Inr (Some (lp, np)))))))
    (\<lambda>r. \<exists>lp' np. r = Some (lp', np) \<and> lp_rep lp' (xs @ new @ ys)
      \<and> np = (if newp \<and> ele = None \<and> ys = [] then None else Some p))"
proof -
  let ?new = "xs @ new @ ys" and ?N = "7 + length (lp_body (xs @ new @ ys))"
  obtain num where lp: "lp = lp_bytes num (xs @ old @ ys)" and num: "lp_num_ok num (length (xs @ old @ ys))"
    using rep by (auto simp: lp_rep_def)
  define h where "h = le_bytes 4 (7 + length (lp_body (xs @ old @ ys)))"
  define pre where "pre = h @ le_bytes 2 num @ lp_body xs"
  define post where "post = lp_body ys @ [LP_EOF]"
  have h: "length h = 4" by (simp add: h_def)
  have pl: "p = length pre" by (simp add: p lp_off_def pre_def h_def)
  have lp': "lp = pre @ lp_body old @ post" by (simp add: lp lp_bytes_def pre_def post_def h_def)
  have mv: "yields m (lpInsert_move m lp p wh (length (lp_body new)) (length (lp_body old)) (length lp) ?N)
      (\<lambda>lp'. \<exists>mid. lp' = pre @ mid @ post \<and> length mid = length (lp_body new))"
    unfolding pl using lp_rep_def rep wh
    by (intro lpInsert_move_spec[OF m lp']) (auto simp: pre_def post_def h)
  define num' where "num' = (if (wh \<noteq> LP_REPLACE \<or> ele = None) \<and> num \<noteq> LP_HDR_NUMELE_UNKNOWN
       then (if ele \<noteq> None then num + 1 else u32sub num 1) else num)"
  have ok: "lp_num_ok num' (length ?new)"
    using num wh new by (cases ele) (auto simp: lp_num_ok_def num'_def LP_HDR_NUMELE_UNKNOWN_def)
  have fin: "lpInsert_header (pre @ lp_body new @ post) ele wh ?N = Inr (lp_bytes num' ?new)"
    unfolding pre_def append_assoc
    by (subst lpInsert_header_eq[OF h lp_num_ok_le[OF num]]) (simp add: num'_def lp_bytes_def post_def)
  have rep': "lp_rep (lp_bytes num' ?new) ?new" using ok fits by (auto simp: lp_rep_def length_lp_bytes)
  have np: "lpInsert_newp (pre @ mid @ post) ele p newp = Inr (if newp \<and> ele = None \<and> ys = [] then None else Some p)"
    if "length mid = length (lp_body new)" for mid
    using that new lp_body_hd[of ys] by (cases ele) (auto simp: lpInsert_newp_def pl post_def)
  have st: "lpInsert_store (pre @ mid @ post) ele sz p ty ie enclen bl = Inr (pre @ lp_body new @ post)"
    if "length mid = length (lp_body new)" for mid
  proof (cases ele)
    case None then show ?thesis using new that by (simp add: lpInsert_store_def)
  next
    case (Some e)
    then show ?thesis using new that el bl sz lpInsert_store_eq[of mid e ty ie pre post] by (simp add: pl)
  qed
  show ?thesis
    by (rule yields_bindE[OF mv]) (use np st fin rep' in auto)
qed

lemma lpInsert_enctype:
  assumes "case ele of None \<Rightarrow> new = [] | Some e \<Rightarrow> new = [e] \<and> length e < 2 ^ 32 - 5 \<and> sz = length e"
  obtains ty ie where "(case ele of Some e \<Rightarrow> lpEncodeGetType e sz | None \<Rightarrow> Inr (LP_ENCODING_STRING, [], 0))
      = Inr (ty, ie, case ele of None \<Rightarrow> 0 | Some e \<Rightarrow> length (lp_enc e))"
    and "case ele of None \<Rightarrow> new = [] | Some e \<Rightarrow> new = [e]
      \<and> lpEncodeGetType e (length e) = Inr (ty, ie, length (lp_enc e))
      \<and> (case ll_of_string e of Some v \<Rightarrow> ty = LP_ENCODING_INT \<and> ie = lp_enc e | None \<Rightarrow> ty = LP_ENCODING_STRING)"
proof (cases ele)
  case None then show ?thesis using assms that by simp
next
  case (Some e) then show ?thesis using assms lpEncodeGetType_eq[of e] that by auto
qed

lemma lpInsert_replaced:
  assumes rep: "lp_rep lp (xs @ old @ ys)" and p: "p = lp_off (xs @ old @ ys) (length xs)"
    and wh: "wh = LP_BEFORE \<and> old = [] \<or> wh = LP_REPLACE \<and> length old = 1"
  shows "(if wh = LP_REPLACE then
      bindE (lpCurrentEncodedSize lp p) (\<lambda>n. Inr ((n + length (lpEncodeBacklen n)) mod 2 ^ 32)) else Inr 0)
    = Inr (length (lp_body old))"
proof (cases old)
  case Nil then show ?thesis using wh by auto
next
  case (Cons o1 os)
  then have [simp]: "old = [o1]" and w: "wh = LP_REPLACE" using wh by auto
  have "lpSkip lp p = Inr (lp_off (xs @ old @ ys) (Suc (length xs)))"
    unfolding p using rep by (intro lpSkip_rep) auto
  moreover have "lp_off (xs @ old @ ys) (Suc (length xs)) = p + length (lp_body old)"
    unfolding p by (subst lp_off_Suc) auto
  ultimately obtain n where "lpCurrentEncodedSize lp p = Inr n" "n + length (lpEncodeBacklen n) = length (lp_body old)"
    by (auto simp: lpSkip_def bindE_eq_Inr)
  moreover have "length (lp_body old) < 2 ^ 32" using rep lp_rep_length[OF rep] by (auto simp: lp_rep_def)
  ultimately show ?thesis using w by simp
qed

lemma lp_body_elem: "length e < 2 ^ 32 \<Longrightarrow> length (lp_body [e]) < 2 ^ 33"
  using lp_enc_length(2)[of e] length_lpEncodeBacklen_le(2)[of "length (lp_enc e)"] by (simp add: lp_entry_def)

lemma lpInsert_core:
  assumes m: "malloc_ok m" and rep: "lp_rep lp (xs @ old @ ys)"
    and new: "case ele of None \<Rightarrow> new = [] | Some e \<Rightarrow> new = [e] \<and> length e < 2 ^ 32 - 5 \<and> sz = length e"
    and wh': "wh' = (if ele = None then LP_REPLACE else if wh = LP_AFTER then LP_BEFORE else wh)"
    and old: "length old = (if wh' = LP_BEFORE then 0 else 1)"
    and skip: "(if ele \<noteq> None \<and> wh = LP_AFTER then lpSkip lp q else Inr q) = Inr p"
    and p: "p = lp_off (xs @ old @ ys) (length xs)"
  shows "yields m (lpInsert m lp ele sz q wh newp)
    (\<lambda>r. if 7 + length (lp_body (xs @ new @ ys)) < 2 ^ 32
      then \<exists>lp'. r = Some (lp', if newp \<and> ele = None \<and> ys = [] then None else Some p) \<and> lp_rep lp' (xs @ new @ ys)
      else r = None)"
proof -
  let ?N = "7 + length (lp_body (xs @ new @ ys))"
  have wh2: "wh' = LP_BEFORE \<and> old = [] \<and> new \<noteq> [] \<or> wh' = LP_REPLACE \<and> length old = 1"
    using old wh' new by (cases wh'; cases ele) (auto split: if_splits)
  obtain ty ie where gt: "(case ele of Some e \<Rightarrow> lpEncodeGetType e sz | None \<Rightarrow> Inr (LP_ENCODING_STRING, [], 0))
      = Inr (ty, ie, case ele of None \<Rightarrow> 0 | Some e \<Rightarrow> length (lp_enc e))"
    and new2: "case ele of None \<Rightarrow> new = [] | Some e \<Rightarrow> new = [e]
      \<and> lpEncodeGetType e (length e) = Inr (ty, ie, length (lp_enc e))
      \<and> (case ll_of_string e of Some v \<Rightarrow> ty = LP_ENCODING_INT \<and> ie = lp_enc e | None \<Rightarrow> ty = LP_ENCODING_STRING)"
    by (rule lpInsert_enctype[OF new])
  define enclen where "enclen = (case ele of None \<Rightarrow> 0 | Some e \<Rightarrow> length (lp_enc e))"
  define bl where "bl = (case ele of None \<Rightarrow> [] | Some e \<Rightarrow> lpEncodeBacklen (length (lp_enc e)))"
  have bl2: "(if ele \<noteq> None then lpEncodeBacklen enclen else []) = bl" by (auto simp: bl_def enclen_def)
  have need: "enclen + length bl = length (lp_body new)"
    using new by (cases ele) (auto simp: enclen_def bl_def lp_entry_def)
  have len: "length lp = 7 + length (lp_body (xs @ old @ ys))" "length lp < 2 ^ 32"
    using rep lp_rep_length[OF rep] by (auto simp: lp_rep_def)
  have "length (lp_body new) < 2 ^ 33" using new lp_body_elem by (cases ele) auto
  then have N: "to_size (int (length lp) + int (enclen + length bl) - int (length (lp_body old))) = ?N"
    unfolding need using len by (subst to_size_id) auto
  have wh3: "wh' = LP_BEFORE \<and> old = [] \<or> wh' = LP_REPLACE \<and> length old = 1" using wh2 by auto
  have skip2: "(if (if ele = None then LP_REPLACE else wh) = LP_AFTER then lpSkip lp q else Inr q) = Inr p"
    and wh2': "(if (if ele = None then LP_REPLACE else wh) = LP_AFTER then LP_BEFORE else (if ele = None then LP_REPLACE else wh)) = wh'"
    using skip wh' by auto
  have "yields m (if ?N > 2 ^ 32 - 1 then Inr None else
    (bindE (lpInsert_move m lp p wh' (length (lp_body new)) (length (lp_body old)) (length lp) ?N) (\<lambda>lp.
     bindE (lpInsert_newp lp ele p newp) (\<lambda>np.
     bindE (lpInsert_store lp ele sz p ty ie enclen bl) (\<lambda>lp.
     bindE (lpInsert_header lp ele wh' ?N) (\<lambda>lp.
     Inr (Some (lp, np))))))))
    (\<lambda>r. if ?N < 2 ^ 32
      then \<exists>lp'. r = Some (lp', if newp \<and> ele = None \<and> ys = [] then None else Some p) \<and> lp_rep lp' (xs @ new @ ys)
      else r = None)"
  proof (cases "?N < 2 ^ 32")
    case True
    have sz: "\<And>e. ele = Some e \<Longrightarrow> sz = length e" using new by auto
    show ?thesis using lpInsert_steps[OF m rep True wh2 new2 enclen_def bl_def p sz, of newp] True
      by (auto elim: yields_mono)
  qed simp
  then show ?thesis
    unfolding lpInsert_def Let_def skip2 wh2' bindE_simps gt[folded enclen_def] prod.case bl2
      lpGetTotalBytes_rep[OF rep] lpInsert_replaced[OF rep p wh3] need N[unfolded need] .
qed

text \<open>
  The abstract operation: the new sequence, and the position of the element that \<open>*newp\<close> refers to.
\<close>

definition lp_edit :: "byte list list \<Rightarrow> nat \<Rightarrow> lp_where \<Rightarrow> byte list option \<Rightarrow> byte list list \<times> nat option" where
  "lp_edit es i wh ele =
     (case ele of
        None \<Rightarrow> (take i es @ drop (Suc i) es, if Suc i < length es then Some i else None)
      | Some e \<Rightarrow>
          (case wh of
             LP_BEFORE \<Rightarrow> (take i es @ e # drop i es, Some i)
           | LP_AFTER \<Rightarrow> (take (Suc i) es @ e # drop (Suc i) es, Some (Suc i))
           | LP_REPLACE \<Rightarrow> (es[i := e], Some i)))"

text \<open>The number of bytes a sequence takes.\<close>

definition lp_size :: "byte list list \<Rightarrow> nat" where
  "lp_size es = LP_HDR_SIZE + length (lp_body es) + 1"

lemma lp_size_eq: "7 + length (lp_body es) = lp_size es"
  by (simp add: lp_size_def LP_HDR_SIZE_def)

lemma lp_off_take: "i \<le> length es \<Longrightarrow> lp_off (take i es @ ys) i = lp_off es i"
  by (simp add: lp_off_def)

lemma lpInsert_edit:
  assumes m: "malloc_ok m" and rep: "lp_rep lp es"
    and i: "i < length es \<or> i = length es \<and> wh = LP_BEFORE \<and> ele \<noteq> None"
    and e: "case ele of None \<Rightarrow> True | Some e \<Rightarrow> length e < 2 ^ 32 - 5 \<and> sz = length e"
    and ed: "lp_edit es i wh ele = (es', k)"
  shows "yields m (lpInsert m lp ele sz (lp_off es i) wh True)
    (\<lambda>r. if lp_size es' < 2 ^ 32
      then \<exists>lp'. r = Some (lp', map_option (lp_off es') k) \<and> lp_rep lp' es' else r = None)"
proof -
  note core = lpInsert_core[OF m, unfolded lp_size_eq]
  show ?thesis
  proof (cases "ele \<noteq> None \<and> wh \<noteq> LP_REPLACE")
    case True
    then obtain x where x: "ele = Some x" by auto
    have w: "wh = LP_BEFORE \<or> wh = LP_AFTER" using True by (cases wh) auto
    define j where "j = (if wh = LP_AFTER then Suc i else i)"
    have j: "j \<le> length es" using i by (auto simp: j_def)
    have es': "es' = take j es @ [x] @ drop j es" "k = Some j"
      using ed True by (auto simp: lp_edit_def x j_def split: lp_where.splits)
    have "yields m (lpInsert m lp ele sz (lp_off es i) wh True) (\<lambda>r. if lp_size es' < 2 ^ 32
        then \<exists>lp'. r = Some (lp', if True \<and> ele = None \<and> drop j es = [] then None else Some (lp_off es j))
          \<and> lp_rep lp' es' else r = None)"
      unfolding es'(1) using rep w e lpSkip_rep[OF rep, of i] i j
      by (intro core[where wh' = LP_BEFORE and old = "[]"]) (auto simp: x j_def min_def)
    moreover have "lp_off es' j = lp_off es j" using lp_off_take[OF j] by (simp add: es')
    ultimately show ?thesis by (simp add: es'(2) x cong: if_cong)
  next
    case False
    then have i: "i < length es" and w: "ele = None \<or> wh = LP_REPLACE" using i by auto
    define new where "new = (case ele of None \<Rightarrow> [] | Some x \<Rightarrow> [x])"
    have es': "es' = take i es @ new @ drop (Suc i) es" "k = (if ele = None \<and> drop (Suc i) es = [] then None else Some i)"
      using ed w i by (auto simp: lp_edit_def new_def upd_conv_take_nth_drop split: option.splits)
    have "yields m (lpInsert m lp ele sz (lp_off es i) wh True) (\<lambda>r. if lp_size es' < 2 ^ 32
        then \<exists>lp'. r = Some (lp', if True \<and> ele = None \<and> drop (Suc i) es = [] then None else Some (lp_off es i))
          \<and> lp_rep lp' es' else r = None)"
      unfolding es'(1) using rep w e id_take_nth_drop[OF i] i
      by (intro core[where wh' = LP_REPLACE and old = "[es ! i]"]) (auto simp: new_def min_def split: option.splits)
    moreover have "lp_off es' i = lp_off es i" using lp_off_take[of i es] i by (simp add: es')
    ultimately show ?thesis by (simp add: es'(2) if_distrib[of "map_option _"] cong: if_cong)
  qed
qed

lemma lpNew_rep: "malloc_ok m \<Longrightarrow> yields m (lpNew m) (\<lambda>lp. lp_rep lp [])"
proof -
  assume m: "malloc_ok m"
  have w: "bindE (lpSetTotalBytes lp (LP_HDR_SIZE + 1)) (\<lambda>lp. bindE (lpSetNumElements lp 0) (\<lambda>lp.
      mem_write lp LP_HDR_SIZE [LP_EOF])) = Inr (lp_bytes 0 [])" if "length lp = LP_HDR_SIZE + 1" for lp
    using that by (simp add: lpSetTotalBytes_def lpSetNumElements_def LP_HDR_SIZE_def lp_bytes_def)
  have "lp_rep (lp_bytes 0 []) []" by (auto simp: lp_rep_def lp_num_ok_def length_lp_bytes LP_HDR_NUMELE_UNKNOWN_def)
  then show ?thesis unfolding lpNew_def using w
    by (intro yields_bindE[OF yields_s_malloc[OF m]]) simp
qed

lemma lpAppend_rep:
  assumes "malloc_ok m" "lp_rep lp es" "length e < 2 ^ 32 - 5"
  shows "yields m (lpAppend m lp e (length e))
    (\<lambda>r. if lp_size (es @ [e]) < 2 ^ 32 then \<exists>lp'. r = Some lp' \<and> lp_rep lp' (es @ [e]) else r = None)"
proof -
  have c: "yields m (lpInsert m lp (Some e) (length e) (lp_off es (length es)) LP_BEFORE False)
    (\<lambda>r. if lp_size (es @ [e] @ []) < 2 ^ 32
      then \<exists>lp'. r = Some (lp', if False \<and> Some e = None \<and> ([] :: byte list list) = [] then None else Some (lp_off es (length es)))
        \<and> lp_rep lp' (es @ [e] @ []) else r = None)"
    using assms by (intro lpInsert_core[unfolded lp_size_eq, where wh' = LP_BEFORE and old = "[]"]) auto
  have i: "yields m (lpInsert m lp (Some e) (length e) (length lp - 1) LP_BEFORE False)
    (\<lambda>r. if lp_size (es @ [e]) < 2 ^ 32 then \<exists>lp' np. r = Some (lp', np) \<and> lp_rep lp' (es @ [e]) else r = None)"
    unfolding lp_off_end[OF assms(2), symmetric] by (rule yields_mono[OF c]) (auto split: if_splits)
  have "length lp \<noteq> 0" using lp_rep_length[OF assms(2)] by simp
  then have "lpAppend m lp e (length e) =
      bindE (lpInsert m lp (Some e) (length e) (length lp - 1) LP_BEFORE False) (\<lambda>r. Inr (map_option fst r))"
    by (simp add: lpAppend_def lpGetTotalBytes_rep[OF assms(2)])
  then show ?thesis by (simp only:) (rule yields_bindE[OF i], auto split: if_splits)
qed

text \<open>The string a caller sees: inside the listpack, in the buffer, or printed from the integer.\<close>

definition lp_string :: "byte list \<Rightarrow> lp_got \<Rightarrow> byte list" where
  "lp_string lp g =
     (case g of
        LpInside p n \<Rightarrow> take (nat n) (drop p lp)
      | LpIntbuf buf n \<Rightarrow> take (nat n) buf
      | LpNull v \<Rightarrow> dec_int v)"

lemma lp_string_rep:
  assumes "lp_rep lp es" "i < length es"
  shows "lp_string lp (lp_got_elem ib (lp_off es i) (es ! i)) = es ! i"
proof -
  obtain pre where pre: "length pre = lp_off es i"
    "lp = pre @ lp_entry (es ! i) @ lp_body (drop (Suc i) es) @ [LP_EOF]" using lp_rep_split[OF assms] .
  show ?thesis
  proof (cases "ll_of_string (es ! i)")
    case None
    then show ?thesis unfolding pre(2) pre(1)[symmetric]
      by (simp add: lp_got_elem_def lp_string_def lp_entry_def lp_enc_def)
  next
    case (Some v)
    then show ?thesis using ll_of_string_bounds[OF Some]
      by (auto simp: lp_got_elem_def lp_string_def lp_int_got_def)
  qed
qed

section \<open>An element of four gigabytes\<close>

lemma lpEncodeGetType_wraps:
  assumes "ll_of_string e = None" "2 ^ 32 - 5 \<le> length e" "length e < 2 ^ 32"
  shows "lpEncodeGetType e (length e) = Inr (LP_ENCODING_STRING, [], length e - (2 ^ 32 - 5))"
proof -
  have "5 + length e = (length e - (2 ^ 32 - 5)) + 2 ^ 32" using assms(2) by simp
  then have "(5 + length e) mod 2 ^ 32 = (length e - (2 ^ 32 - 5)) mod 2 ^ 32" by (simp only: mod_add_self2)
  also have "\<dots> = length e - (2 ^ 32 - 5)" using assms(3) by (intro mod_less) simp
  finally show ?thesis using assms by (simp add: lpEncodeGetType_def lpStringToInt64_eq)
qed

lemma lpEncodeString_overrun:
  "4096 \<le> length e \<Longrightarrow> length lp \<le> length e \<Longrightarrow> lpEncodeString lp p e (length e) = Inl OutOfBounds"
  by (auto simp: lpEncodeString_def mem_write_def mem_read_def)

lemma lpInsert_huge:
  assumes m: "malloc_ok m" and rep: "lp_rep lp es" and i: "i \<le> length es"
    and e: "ll_of_string e = None" "2 ^ 32 - 5 \<le> length e" "length e < 2 ^ 32" and room: "lp_size es < 2 ^ 32 - 16"
  shows "lpInsert m lp (Some e) (length e) (lp_off es i) LP_BEFORE newp = Inl OutOfBounds
    \<or> (\<exists>n. m n = None)"
proof -
  define enclen where "enclen = length e - (2 ^ 32 - 5)"
  define need where "need = enclen + length (lpEncodeBacklen enclen)"
  obtain pre where pre: "length pre = lp_off es i" "lp = pre @ [] @ lp_body (drop i es) @ [LP_EOF]"
    using lp_rep_at[OF rep i] by auto
  have len: "length lp = lp_size es" using lp_rep_length[OF rep] lp_size_eq[of es] by simp
  have "need \<le> 9" using e(3) length_lpEncodeBacklen_le(2)[of enclen] by (simp add: need_def enclen_def)
  then have N: "to_size (int (length lp) + int need - int 0) = length lp + need" "length lp + need \<le> length e"
    "\<not> length lp + need > 2 ^ 32 - 1"
    using room e(2) by (simp_all add: len to_size_id nat_add_distrib)
  have mv: "yields m (lpInsert_move m lp (lp_off es i) LP_BEFORE need 0 (length lp) (length lp + need)) (\<lambda>lp1. length lp1 \<le> length e)"
  proof -
    have l: "length lp = length pre + length (lp_body (drop i es) @ [LP_EOF])" by (simp add: pre(2))
    have "yields m (lpInsert_move m lp (length pre) LP_BEFORE need (length ([] :: byte list)) (length lp) (length lp + need))
        (\<lambda>lp'. \<exists>mid. lp' = pre @ mid @ lp_body (drop i es) @ [LP_EOF] \<and> length mid = need)"
      using room len l by (intro lpInsert_move_spec[OF m pre(2)]) simp_all
    then show ?thesis using N(2) l by (auto simp: pre(1) elim!: yields_mono)
  qed
  have eq: "lpInsert m lp (Some e) (length e) (lp_off es i) LP_BEFORE newp =
      bindE (lpInsert_move m lp (lp_off es i) LP_BEFORE need 0 (length lp) (length lp + need)) (\<lambda>lp1.
        bindE (lpInsert_newp lp1 (Some e) (lp_off es i) newp) (\<lambda>np.
        bindE (lpInsert_store lp1 (Some e) (length e) (lp_off es i) LP_ENCODING_STRING [] enclen (lpEncodeBacklen enclen)) (\<lambda>lp2.
        bindE (lpInsert_header lp2 (Some e) LP_BEFORE (length lp + need)) (\<lambda>lp3. Inr (Some (lp3, np))))))"
    using N by (simp add: lpInsert_def lpEncodeGetType_wraps[OF e, folded enclen_def] lpGetTotalBytes_rep[OF rep] Let_def
        need_def[symmetric] del: of_nat_add)
  have ovr: "bindE (lpInsert_move m lp (lp_off es i) LP_BEFORE need 0 (length lp) (length lp + need)) f = Inl OutOfBounds
      \<or> (\<exists>n. m n = None)" if "\<And>lp1. length lp1 \<le> length e \<Longrightarrow> f lp1 = Inl OutOfBounds" for f
    using mv that by (auto simp: yields_def split: sum.splits)
  show ?thesis unfolding eq
    by (rule ovr) (use e(2) in \<open>simp add: lpInsert_newp_def lpInsert_store_def lpEncodeString_overrun\<close>)
qed

section \<open>Correctness\<close>

text \<open>
  C6. \<open>lpInsert\<close> refines the edit of a sequence of strings. On a region that represents the sequence
  \<open>es\<close>, inserting before or after the \<open>i\<close>-th element, replacing it, or deleting it gives a region that
  represents the edited sequence, with \<open>*newp\<close> at the new element, or at the element after a deleted
  one; if the result would take more than \<open>2^32 - 1\<close> bytes the call returns NULL. No access is outside
  the region, and only the allocator can make the call fail.
\<close>

theorem lpInsert_refines_edit:
  assumes "malloc_ok m" "lp_rep lp es"
    and "i < length es \<or> i = length es \<and> wh = LP_BEFORE \<and> ele \<noteq> None"
    and "case ele of None \<Rightarrow> True | Some e \<Rightarrow> length e < 2 ^ 32 - 5 \<and> sz = length e"
    and "lp_edit es i wh ele = (es', k)"
  shows "yields m (lpInsert m lp ele sz (lp_off es i) wh True)
    (\<lambda>r. if lp_size es' < 2 ^ 32
      then \<exists>lp'. r = Some (lp', map_option (lp_off es') k) \<and> lp_rep lp' es' else r = None)"
  using assms by (rule lpInsert_edit)

lemma lp_body_example: "length (lp_body [[49, 50], [97]]) = 5"
proof -
  have "ll_of_string [49, 50] = Some 12" by (simp add: ll_of_string_iff dec_int_def dec_nat.simps)
  moreover have "ll_of_string [97] = None" by (simp add: ll_of_string_sign isdigit_def)
  ultimately show ?thesis
    by (simp add: lp_entry_def lp_enc_def lp_intenc_def lp_strhdr_def lpEncodeBacklen_def)
qed

lemma lp_rep_example: "lp_rep (lp_bytes 2 [[49, 50], [97]]) [[49, 50], [97]]"
  using lp_body_example
  by (auto simp: lp_rep_def length_lp_bytes lp_num_ok_def LP_HDR_NUMELE_UNKNOWN_def intro!: exI[of _ 2])

theorem lpInsert_refines_edit_witness:
  "\<exists>es' k. lp_edit [[49, 50], [97]] 0 LP_AFTER (Some [45, 49]) = (es', k) \<and>
   yields calloc_alloc (lpInsert calloc_alloc (lp_bytes 2 [[49, 50], [97]]) (Some [45, 49]) 2 (lp_off [[49, 50], [97]] 0) LP_AFTER True)
    (\<lambda>r. if lp_size es' < 2 ^ 32
      then \<exists>lp'. r = Some (lp', map_option (lp_off es') k) \<and> lp_rep lp' es' else r = None)"
  using lpInsert_refines_edit[OF calloc_alloc_ok lp_rep_example, of 0 LP_AFTER "Some [45, 49]" 2
      "[[49, 50], [45, 49], [97]]" "Some 1"] by (simp add: lp_edit_def cong: if_cong)

text \<open>
  C7. What was stored is read back. \<open>lpGet\<close> at the \<open>i\<close>-th element returns, whatever the encoding and
  whether the caller passes a buffer or not, the bytes of the element: an element stored as an
  integer prints as the very string that was stored. The elements are reached with \<open>lpFirst\<close> and
  \<open>lpNext\<close> from the left and with \<open>lpLast\<close> and \<open>lpPrev\<close> from the right.
\<close>

theorem lpGet_returns_element:
  assumes "lp_rep lp es" "i < length es"
  shows "(\<exists>g. lpGet lp (lp_off es i) intbuf = Inr g \<and> lp_string lp g = es ! i)
    \<and> lpFirst lp = Inr (Some (lp_off es 0)) \<and> lpLast lp = Inr (Some (lp_off es (length es - 1)))
    \<and> lpNext lp (lp_off es i) = Inr (if Suc i < length es then Some (lp_off es (Suc i)) else None)
    \<and> lpPrev lp (lp_off es i) = Inr (if i = 0 then None else Some (lp_off es (i - 1)))"
  using lpGet_rep[OF assms] lp_string_rep[OF assms] lpFirst_rep[OF assms(1)] lpLast_rep[OF assms(1)]
    lpNext_rep[OF assms] lpPrev_rep[OF assms(1), of i] assms(2) by auto

theorem lpGet_returns_element_witness:
  "\<exists>g. lpGet (lp_bytes 2 [[49, 50], [97]]) (lp_off [[49, 50], [97]] 0) True = Inr g
    \<and> lp_string (lp_bytes 2 [[49, 50], [97]]) g = [49, 50]"
  using lpGet_returns_element[OF lp_rep_example, of 0 True] by simp

text \<open>
  C25. \<open>lpSeek\<close> finds the element with a given index, counted from the right for a negative one, and
  NULL for an index that is out of range, on either side and whichever end the walk starts from;
  \<open>lpLength\<close> returns the number of elements, with or without a cached count, and its update of the
  header leaves the sequence as it is.
\<close>

theorem lpSeek_finds_index:
  assumes "lp_rep lp es"
  shows "lpSeek lp k = Inr (map_option (lp_off es) (lp_index es k))
    \<and> (\<exists>lp'. lpLength lp = Inr (length es, lp') \<and> lp_rep lp' es)"
  using lpSeek_rep[OF assms] lpLength_rep[OF assms] by simp

theorem lpSeek_finds_index_witness:
  "lpSeek (lp_bytes 2 [[49, 50], [97]]) (- 1) = Inr (Some (lp_off [[49, 50], [97]] 1))"
  using lpSeek_finds_index[OF lp_rep_example, of "- 1"] by (simp add: lp_index_def)

text \<open>
  C37. An element of almost \<open>2^32\<close> bytes breaks \<open>lpInsert\<close>. The encoded length is computed as a
  \<open>uint32_t\<close> and wraps to at most four, so the check of the total size passes, the region grows by a
  few bytes, and the copy of the element runs past its end.
\<close>

theorem lpInsert_huge_overruns:
  assumes "malloc_ok m" "\<And>n. m n \<noteq> None" "lp_rep lp es" "i \<le> length es"
    and "ll_of_string e = None" "2 ^ 32 - 5 \<le> length e" "length e < 2 ^ 32" "lp_size es < 2 ^ 32 - 16"
  shows "lpInsert m lp (Some e) (length e) (lp_off es i) LP_BEFORE newp = Inl OutOfBounds"
  using lpInsert_huge[OF assms(1,3-8)] assms(2) by blast

theorem lpInsert_huge_overruns_witness:
  "lpInsert calloc_alloc (lp_bytes 2 [[49, 50], [97]]) (Some (replicate (2 ^ 32 - 1) 0)) (2 ^ 32 - 1)
     (lp_off [[49, 50], [97]] 2) LP_BEFORE True = Inl OutOfBounds"
proof -
  define n :: nat where "n = 2 ^ 32 - 1"
  have n: "2 ^ 32 - 5 \<le> n" "n < 2 ^ 32" by (simp_all add: n_def)
  have e: "ll_of_string (replicate n 0) = None"
    using ll_of_string_bounds[of "replicate n 0"] n(1) by (cases "ll_of_string (replicate n 0)") auto
  have s: "lp_size [[49, 50], [97]] = 12" using lp_body_example by (simp add: lp_size_def LP_HDR_SIZE_def)
  have "lpInsert calloc_alloc (lp_bytes 2 [[49, 50], [97]]) (Some (replicate n 0)) (length (replicate n (0 :: byte)))
     (lp_off [[49, 50], [97]] 2) LP_BEFORE True = Inl OutOfBounds"
    by (rule lpInsert_huge_overruns[OF calloc_alloc_ok _ lp_rep_example _ e])
      (use n in \<open>simp_all add: calloc_alloc_def s\<close>)
  then show ?thesis unfolding length_replicate n_def .
qed

end
