(* ===== verification/SetType.thy ===== *)
theory SetType
  imports SdsTextCorrect Util Intset DictIter
begin

text \<open>
  The set values of the server (\<open>t_set.c\<close>): a set is an integer set as long as all its members are
  integers and there are not too many of them, and a dictionary without values otherwise. A member
  is the contents of an \<open>sds\<close>. The hash function of the server, whose seed is drawn at start, and the
  values of the configuration are arguments.
\<close>

section \<open>Definitions\<close>

record set_env =
  se_hash :: "byte list \<Rightarrow> nat"
  se_can_resize :: bool
  se_max_intset_entries :: nat
  se_addr :: "nat \<Rightarrow> 64 word"

text \<open>
  The lengths are converted to \<open>int\<close>. A string of \<open>2^31\<close> bytes or more gets a negative length, with
  which \<open>memcmp\<close> would read past the strings; here it stops at their ends.
\<close>

definition dictSdsKeyCompare :: "byte list \<Rightarrow> byte list \<Rightarrow> bool" where
  "dictSdsKeyCompare key1 key2 =
     (let l1 = s32 (int (length key1)); l2 = s32 (int (length key2)) in
      if l1 \<noteq> l2 then False
      else memcmp (take (to_size l1) key1) (take (to_size l1) key2) = 0)"

definition setDictType :: "set_env \<Rightarrow> byte list dictType" where
  "setDictType env = \<lparr>hashFunction = se_hash env, keyCompare = dictSdsKeyCompare\<rparr>"

definition dictSlots :: "('k, 'v) dict \<Rightarrow> nat" where
  "dictSlots d = ht_size (d_ht0 d) + ht_size (d_ht1 d)"

definition htNeedsResize :: "('k, 'v) dict \<Rightarrow> bool" where
  "htNeedsResize d =
     (let size = dictSlots d; used = dictSize d in
      size > DICT_HT_INITIAL_SIZE \<and> used * 100 div size < 10)"

definition isSdsRepresentableAsLongLong :: "byte list \<Rightarrow> int option res" where
  "isSdsRepresentableAsLongLong s = string2ll s (length s)"

text \<open>The object: its encoding and what \<open>ptr\<close> refers to.\<close>

datatype setobj = SetHT "(byte list, unit) dict" | SetIntset intset

text \<open>\<open>sdsfromlonglong\<close>, with the buffer on its stack.\<close>

definition sds_of_ll :: "allocator \<Rightarrow> int \<Rightarrow> byte list res" where
  "sds_of_ll m v =
     bindE (sdsfromlonglong m (replicate SDS_LLSTR_SIZE 0) v) (\<lambda>s. Inr (sds_val s))"

definition setTypeCreate :: "allocator \<Rightarrow> byte list \<Rightarrow> setobj res" where
  "setTypeCreate m value =
     bindE (isSdsRepresentableAsLongLong value) (\<lambda>r.
       case r of
         Some _ \<Rightarrow> bindE (intsetNew m) (\<lambda>is. Inr (SetIntset is))
       | None \<Rightarrow> Inr (SetHT dictCreate))"

text \<open>
  An iterator. Its \<open>subject\<close> is an argument of \<open>setTypeNext\<close>; the fields are the position in an integer
  set and the iterator of a dictionary. \<open>setTypeNext\<close> returns the member, as an integer or as a string.
\<close>

record setTypeIterator =
  si_ii :: nat
  si_di :: "(byte list, unit) dictIterator"

datatype set_elem = EleInt int | EleSds "byte list"

definition setTypeInitIterator :: "setTypeIterator" where
  "setTypeInitIterator = \<lparr>si_ii = 0, si_di = dictGetIterator 0\<rparr>"

definition setTypeNext ::
    "set_env \<Rightarrow> setobj \<Rightarrow> setTypeIterator \<Rightarrow> (setobj \<times> setTypeIterator \<times> set_elem option) res" where
  "setTypeNext env subject si =
     (case subject of
        SetHT d \<Rightarrow>
          bindE (dictNext (se_addr env) d (si_di si)) (\<lambda>(d', di, de).
            Inr (SetHT d', si\<lparr>si_di := di\<rparr>, map_option (\<lambda>e. EleSds (fst e)) de))
      | SetIntset is \<Rightarrow>
          bindE (intsetGet is (si_ii si)) (\<lambda>r.
            Inr (subject, si\<lparr>si_ii := si_ii si + 1\<rparr>, map_option EleInt r)))"

definition setTypeReleaseIterator :: "set_env \<Rightarrow> setobj \<Rightarrow> setTypeIterator \<Rightarrow> setobj res" where
  "setTypeReleaseIterator env subject si =
     (case subject of
        SetHT d \<Rightarrow> bindE (dictReleaseIterator (se_addr env) d (si_di si)) (\<lambda>d'. Inr (SetHT d'))
      | SetIntset is \<Rightarrow> Inr subject)"

definition set_elem_sds :: "allocator \<Rightarrow> set_elem \<Rightarrow> byte list res" where
  "set_elem_sds m e = (case e of EleInt v \<Rightarrow> sds_of_ll m v | EleSds s \<Rightarrow> Inr s)"

definition setTypeNextObject ::
    "set_env \<Rightarrow> allocator \<Rightarrow> setobj \<Rightarrow> setTypeIterator \<Rightarrow> (setobj \<times> setTypeIterator \<times> byte list option) res" where
  "setTypeNextObject env m subject si =
     bindE (setTypeNext env subject si) (\<lambda>(subject', si', e).
       case e of
         None \<Rightarrow> Inr (subject', si', None)
       | Some x \<Rightarrow> bindE (set_elem_sds m x) (\<lambda>s. Inr (subject', si', Some s)))"

definition setTypeSize :: "setobj \<Rightarrow> nat" where
  "setTypeSize subject = (case subject of SetHT d \<Rightarrow> dictSize d | SetIntset is \<Rightarrow> intsetLen is)"

text \<open>
  The members are taken with an iterator while the dictionary is filled; the iterator of an integer set
  is the position \<open>ii\<close>.
\<close>

function setTypeConvert_loop ::
    "set_env \<Rightarrow> allocator \<Rightarrow> intset \<Rightarrow> nat \<Rightarrow> (byte list, unit) dict \<Rightarrow> (byte list, unit) dict res" where
  "setTypeConvert_loop env m is ii d =
     bindE (intsetGet is ii) (\<lambda>r.
       case r of
         None \<Rightarrow> Inr d
       | Some v \<Rightarrow>
           bindE (sds_of_ll m v) (\<lambda>element.
           bindE (dictAdd (se_can_resize env) (setDictType env) () d element ()) (\<lambda>(d', ok).
             if ok then setTypeConvert_loop env m is (ii + 1) d' else Inl AssertFail)))"
  by pat_completeness auto
termination
  by (relation "measure (\<lambda>(env, m, is, ii, d). is_length is - ii)") (auto simp: intsetGet_def split: if_splits)

declare setTypeConvert_loop.simps [simp del]

definition setTypeConvert :: "set_env \<Rightarrow> allocator \<Rightarrow> setobj \<Rightarrow> setobj res" where
  "setTypeConvert env m setobj =
     (case setobj of
        SetHT d \<Rightarrow> Inl AssertFail
      | SetIntset is \<Rightarrow>
          bindE (setTypeConvert_loop env m is 0 (fst (dictExpand dictCreate (intsetLen is)))) (\<lambda>d.
            Inr (SetHT d)))"

text \<open>
  The second component is the result of the function. \<open>dictSetKey\<close> stores a copy of the member, whose
  contents are those of the key the entry was made with.
\<close>

definition setTypeAdd :: "set_env \<Rightarrow> allocator \<Rightarrow> setobj \<Rightarrow> byte list \<Rightarrow> (setobj \<times> bool) res" where
  "setTypeAdd env m subject value =
     (case subject of
        SetHT ht \<Rightarrow>
          bindE (dictAddRaw (se_can_resize env) (setDictType env) ht value ()) (\<lambda>(ht, r).
            case r of
              Inl _ \<Rightarrow> Inr (SetHT ht, False)
            | Inr de \<Rightarrow> bindE (dictSetVal ht de ()) (\<lambda>ht. Inr (SetHT ht, True)))
      | SetIntset is \<Rightarrow>
          bindE (isSdsRepresentableAsLongLong value) (\<lambda>r.
            case r of
              Some llval \<Rightarrow>
                bindE (intsetAdd m is llval) (\<lambda>(is, success).
                  if success then
                    if intsetLen is > se_max_intset_entries env then
                      bindE (setTypeConvert env m (SetIntset is)) (\<lambda>subject. Inr (subject, True))
                    else Inr (SetIntset is, True)
                  else Inr (SetIntset is, False))
            | None \<Rightarrow>
                bindE (setTypeConvert env m (SetIntset is)) (\<lambda>subject.
                  case subject of
                    SetHT d \<Rightarrow>
                      bindE (dictAdd (se_can_resize env) (setDictType env) () d value ()) (\<lambda>(d', ok).
                        if ok then Inr (SetHT d', True) else Inl AssertFail)
                  | SetIntset _ \<Rightarrow> Inl AssertFail)))"

definition setTypeRemove :: "set_env \<Rightarrow> allocator \<Rightarrow> setobj \<Rightarrow> byte list \<Rightarrow> (setobj \<times> bool) res" where
  "setTypeRemove env m setobj value =
     (case setobj of
        SetHT d \<Rightarrow>
          bindE (dictDelete (setDictType env) d value) (\<lambda>(d, ok).
            if ok then
              Inr (SetHT (if htNeedsResize d then fst (dictResize (se_can_resize env) d) else d), True)
            else Inr (SetHT d, False))
      | SetIntset is \<Rightarrow>
          bindE (isSdsRepresentableAsLongLong value) (\<lambda>r.
            case r of
              Some llval \<Rightarrow> bindE (intsetRemove m is llval) (\<lambda>(is, success). Inr (SetIntset is, success))
            | None \<Rightarrow> Inr (SetIntset is, False)))"

definition setTypeIsMember :: "set_env \<Rightarrow> setobj \<Rightarrow> byte list \<Rightarrow> (setobj \<times> bool) res" where
  "setTypeIsMember env subject value =
     (case subject of
        SetHT d \<Rightarrow> bindE (dictFind (setDictType env) d value) (\<lambda>(d, de). Inr (SetHT d, de \<noteq> None))
      | SetIntset is \<Rightarrow>
          bindE (isSdsRepresentableAsLongLong value) (\<lambda>r.
            case r of
              Some llval \<Rightarrow> bindE (intsetFind is llval) (\<lambda>b. Inr (subject, b))
            | None \<Rightarrow> Inr (subject, False)))"

text \<open>The numbers drawn by the random generators are an argument; \<open>None\<close> when they do not suffice.\<close>

definition setTypeRandomElement :: "set_env \<Rightarrow> setobj \<Rightarrow> nat list \<Rightarrow> (setobj \<times> set_elem) option res" where
  "setTypeRandomElement env setobj rs =
     (case setobj of
        SetHT d \<Rightarrow>
          bindE (dictGetRandomKey (setDictType env) d rs) (\<lambda>r.
            case r of
              None \<Rightarrow> Inr None
            | Some (d', None) \<Rightarrow> Inl NullDeref
            | Some (d', Some de) \<Rightarrow> Inr (Some (SetHT d', EleSds (fst de))))
      | SetIntset is \<Rightarrow>
          (case rs of
             [] \<Rightarrow> Inr None
           | r # _ \<Rightarrow> bindE (intsetRandom is r) (\<lambda>v. Inr (Some (setobj, EleInt v)))))"

section \<open>Comparison of keys\<close>

abbreviation sds_small :: "byte list \<Rightarrow> bool" where
  "sds_small s \<equiv> length s < 2 ^ 31"

lemma memcmp_eq_0: "length a = length b \<Longrightarrow> memcmp a b = 0 \<longleftrightarrow> a = b"
  by (induction a b rule: memcmp.induct) auto

lemma dictSdsKeyCompare_eq: "sds_small a \<Longrightarrow> sds_small b \<Longrightarrow> dictSdsKeyCompare a b \<longleftrightarrow> a = b"
  using memcmp_eq_0[of a b] by (auto simp: dictSdsKeyCompare_def Let_def)

text \<open>
  On strings that are not too long the type of the server's sets behaves as the one that compares by
  equality, to which the lemmas on dictionaries apply.
\<close>

definition eq_type :: "'k dictType \<Rightarrow> 'k dictType" where
  "eq_type ty = ty\<lparr>keyCompare := (=)\<rparr>"

lemma eq_type_simps [simp]: "hashFunction (eq_type ty) = hashFunction ty" "dictType_ok (eq_type ty)"
  by (simp_all add: eq_type_def dictType_ok_def)

lemma ht_slot_eq_type [simp]: "ht_slot (eq_type ty) = ht_slot ty"
  by (simp add: ht_slot_def fun_eq_iff)

lemma dict_inv_eq_type [simp]: "dict_inv (eq_type ty) d = dict_inv ty d"
  by (simp add: dict_inv_def ht_ok_def)

lemma rehash_chain_eq_type: "rehash_chain (eq_type ty) es d = rehash_chain ty es d"
  by (induction es arbitrary: d) (simp_all add: Let_def)

lemma rehash_loop_eq_type: "rehash_loop (eq_type ty) n ev d = rehash_loop ty n ev d"
  by (induction n arbitrary: ev d) (auto simp: rehash_chain_eq_type intro!: bindE_cong split: option.splits)

lemma dictRehashStep_eq_type [simp]: "dictRehashStep (eq_type ty) d = dictRehashStep ty d"
  unfolding dictRehashStep_def dictRehash_def rehash_loop_eq_type ..

definition dict_keys :: "('k, 'v) dict \<Rightarrow> 'k set" where
  "dict_keys d = fst ` set (dict_entries d)"

lemma dict_keys_dom: "dict_keys d = dom (dict_map d)"
  by (simp add: dict_keys_def dict_map_def dom_map_of_conv_image_fst)

lemma ht_bucket_keys: "t \<in> {0, 1} \<Longrightarrow> ht_bucket (dict_get_ht d t) i = Inr b \<Longrightarrow> fst ` set b \<subseteq> dict_keys d"
  by (auto simp: ht_bucket_def dict_get_ht_def dict_keys_def dict_entries_def ht_entries_def
      split: option.splits if_splits intro!: rev_image_eqI)

lemma chain_find_set_type:
  "sds_small key \<Longrightarrow> \<forall>k \<in> fst ` set b. sds_small k \<Longrightarrow>
   chain_find (setDictType env) key b = chain_find (eq_type (setDictType env)) key b"
  by (induction b) (auto simp: setDictType_def eq_type_def dictSdsKeyCompare_eq)

lemma tables_find_set_type:
  assumes "sds_small key" "\<forall>k \<in> dict_keys d. sds_small k"
  shows "tables_find (setDictType env) d key = tables_find (eq_type (setDictType env)) d key"
proof -
  have "chain_find (setDictType env) key b = chain_find (eq_type (setDictType env)) key b"
    if "t \<in> {0, 1}" "ht_bucket (dict_get_ht d t) i = Inr b" for t i b
    using assms(2) ht_bucket_keys[OF that] by (intro chain_find_set_type[OF assms(1)]) blast
  then have tf: "table_find (setDictType env) d t key = table_find (eq_type (setDictType env)) d t key" if "t \<in> {0, 1}" for t
    using that unfolding table_find_def Let_def eq_type_simps by (intro bindE_cong refl) simp
  have "table_find (setDictType env) d 0 key = table_find (eq_type (setDictType env)) d 0 key"
    "table_find (setDictType env) d 1 key = table_find (eq_type (setDictType env)) d 1 key" by (rule tf; simp)+
  then show ?thesis unfolding tables_find_def by presburger
qed

section \<open>Dictionaries of members\<close>

definition sd_inv :: "set_env \<Rightarrow> (byte list, unit) dict \<Rightarrow> bool" where
  "sd_inv env d \<longleftrightarrow> dict_inv (setDictType env) d \<and> (\<forall>k \<in> dict_keys d. sds_small k)"

lemma sd_inv_rep: "sd_inv env d \<longleftrightarrow> dict_rep (eq_type (setDictType env)) d \<and> (\<forall>k \<in> dict_keys d. sds_small k)"
  by (simp add: sd_inv_def dict_rep_def)

lemma dict_keys_expand:
  assumes "dict_inv ty d" "dictExpandIfNeeded cr d = (d', b)"
  shows "dict_keys d' = dict_keys d"
proof -
  have "dict_entries (fst (dictExpand d n)) = dict_entries d" for n
    using dictExpand_ok[OF assms(1), of n] by (simp split: prod.splits)
  then have "dict_entries d' = dict_entries d"
    using assms(2) by (auto simp: dictExpandIfNeeded_def split: if_splits) (metis fst_conv)+
  then show ?thesis by (simp add: dict_keys_def)
qed

lemma step_keys:
  assumes "sd_inv env d"
  obtains d1 where "(if dictIsRehashing d then dictRehashStep (setDictType env) d else Inr d) = Inr d1"
    "sd_inv env d1" "dict_keys d1 = dict_keys d"
proof -
  obtain d1 where "(if dictIsRehashing d then dictRehashStep (setDictType env) d else Inr d) = Inr d1"
    "dict_inv (setDictType env) d1" "mset (dict_entries d1) = mset (dict_entries d)"
    using step_ok[of "setDictType env" d] assms by (auto simp: sd_inv_def)
  moreover from this(3) have "dict_keys d1 = dict_keys d" unfolding dict_keys_def by (metis set_mset_mset)
  ultimately show thesis using that assms by (auto simp: sd_inv_def)
qed

lemma dictAddRaw_set_type:
  assumes "sd_inv env d" "sds_small key"
  shows "dictAddRaw cr (setDictType env) d key v = dictAddRaw cr (eq_type (setDictType env)) d key v"
proof -
  obtain d1 where d1: "(if dictIsRehashing d then dictRehashStep (setDictType env) d else Inr d) = Inr d1" "sd_inv env d1"
    using step_keys[OF assms(1)] .
  have "dictKeyIndex cr (setDictType env) d1 key = dictKeyIndex cr (eq_type (setDictType env)) d1 key"
  proof (cases "dictExpandIfNeeded cr d1")
    case (Pair d2 b)
    have "\<forall>k \<in> dict_keys d2. sds_small k" using dict_keys_expand[OF _ Pair] d1(2) by (auto simp: sd_inv_def)
    then show ?thesis using Pair assms(2) by (simp add: dictKeyIndex_def tables_find_set_type split: bool.splits)
  qed
  then show ?thesis unfolding dictAddRaw_def dictRehashStep_eq_type d1(1) bindE_simps by (simp only:)
qed

lemma dictFind_set_type:
  assumes "sd_inv env d" "sds_small key"
  shows "dictFind (setDictType env) d key = dictFind (eq_type (setDictType env)) d key"
proof -
  obtain d1 where d1: "(if dictIsRehashing d then dictRehashStep (setDictType env) d else Inr d) = Inr d1" "sd_inv env d1"
    using step_keys[OF assms(1)] .
  have "tables_find (setDictType env) d1 key = tables_find (eq_type (setDictType env)) d1 key"
    using d1(2) assms(2) by (intro tables_find_set_type) (auto simp: sd_inv_def)
  then show ?thesis unfolding dictFind_def dictRehashStep_eq_type d1(1) bindE_simps by (simp only:)
qed

lemma dictDelete_set_type:
  assumes "sd_inv env d" "sds_small key"
  shows "dictDelete (setDictType env) d key = dictDelete (eq_type (setDictType env)) d key"
proof -
  obtain d1 where d1: "(if dictIsRehashing d then dictRehashStep (setDictType env) d else Inr d) = Inr d1" "sd_inv env d1"
    using step_keys[OF assms(1)] .
  have "tables_find (setDictType env) d1 key = tables_find (eq_type (setDictType env)) d1 key"
    using d1(2) assms(2) by (intro tables_find_set_type) (auto simp: sd_inv_def)
  then show ?thesis unfolding dictDelete_def dictGenericDelete_def dictRehashStep_eq_type d1(1) bindE_simps by (simp only:)
qed

text \<open>The operations on the dictionary of a set.\<close>

lemma sd_card: "sd_inv env d \<Longrightarrow> card (dict_keys d) = dictSize d"
  using dictSize_entries[of "setDictType env" d] distinct_card[of "map fst (dict_entries d)"]
  by (simp add: sd_inv_def dict_keys_def dict_inv_def)

lemma dictAdd_set:
  assumes "sd_inv env d" "sds_small key" "card (dict_keys d) < 2 ^ 62"
  shows "\<exists>d'. dictAdd cr (setDictType env) () d key () = Inr (d', key \<notin> dict_keys d)
    \<and> sd_inv env d' \<and> dict_keys d' = insert key (dict_keys d)"
proof -
  have "dictAdd cr (setDictType env) () d key () = dictAdd cr (eq_type (setDictType env)) () d key ()"
    by (simp add: dictAdd_def dictAddRaw_set_type[OF assms(1,2)])
  then show ?thesis using dictAdd_ok[of "eq_type (setDictType env)" d cr "()" key "()"] assms
    by (auto simp: sd_inv_rep dict_keys_dom)
qed

lemma dictFind_set:
  assumes "sd_inv env d" "sds_small key"
  shows "\<exists>d' r. dictFind (setDictType env) d key = Inr (d', r) \<and> (r \<noteq> None \<longleftrightarrow> key \<in> dict_keys d)
    \<and> sd_inv env d' \<and> dict_keys d' = dict_keys d"
  using dictFind_ok[of "eq_type (setDictType env)" d key] assms unfolding dictFind_set_type[OF assms]
  by (auto simp: sd_inv_rep dict_keys_dom split: option.splits)

lemma dictDelete_set:
  assumes "sd_inv env d" "sds_small key"
  shows "\<exists>d'. dictDelete (setDictType env) d key = Inr (d', key \<in> dict_keys d)
    \<and> sd_inv env d' \<and> dict_keys d' = dict_keys d - {key}"
  using dictDelete_ok[of "eq_type (setDictType env)" d key] assms unfolding dictDelete_set_type[OF assms]
  by (auto simp: sd_inv_rep dict_keys_dom)

lemma dictExpand_set:
  "sd_inv env d \<Longrightarrow> sd_inv env (fst (dictExpand d n)) \<and> dict_keys (fst (dictExpand d n)) = dict_keys d"
  using dictExpand_ok[of "setDictType env" d n] by (auto simp: sd_inv_def dict_keys_def split: prod.splits)

lemma dictResize_set:
  "sd_inv env d \<Longrightarrow> sd_inv env (fst (dictResize cr d)) \<and> dict_keys (fst (dictResize cr d)) = dict_keys d"
  using dictExpand_set by (simp add: dictResize_def Let_def)

section \<open>Sets\<close>

definition set_inv :: "set_env \<Rightarrow> setobj \<Rightarrow> bool" where
  "set_inv env obj = (case obj of SetHT d \<Rightarrow> sd_inv env d | SetIntset is \<Rightarrow> intset_inv is)"

definition set_members :: "setobj \<Rightarrow> byte list set" where
  "set_members obj = (case obj of SetHT d \<Rightarrow> dict_keys d | SetIntset is \<Rightarrow> dec_int ` intset_set is)"

definition set_room :: "setobj \<Rightarrow> nat \<Rightarrow> bool" where
  "set_room obj k = (case obj of SetHT d \<Rightarrow> dictSize d + k \<le> 2 ^ 62 | SetIntset is \<Rightarrow> intset_has_room is k)"

lemma inj_dec_int: "inj dec_int"
  by (rule injI) (rule dec_int_inj)

lemma sds_of_ll_yields: "malloc_ok m \<Longrightarrow> int64 v \<Longrightarrow> yields m (sds_of_ll m v) (\<lambda>s. s = dec_int v)"
  unfolding sds_of_ll_def by (rule yields_bindE[OF sdsfromlonglong_yields]) (auto simp: int64_def)

lemma dec_int_small: "int64 v \<Longrightarrow> sds_small (dec_int v)"
  using length_dec_int[of v] by (auto simp: int64_def)

lemma representable_eq: "isSdsRepresentableAsLongLong v = Inr (ll_of_string v)"
  by (simp add: isSdsRepresentableAsLongLong_def string2ll_eq)

lemma ll_of_string_Some: "ll_of_string v = Some x \<longleftrightarrow> v = dec_int x \<and> int64 x"
  by (auto simp: ll_of_string_iff int64_def)

lemma ll_of_string_None: "ll_of_string v = None \<Longrightarrow> int64 x \<Longrightarrow> v \<noteq> dec_int x"
  using ll_of_string_Some[of v x] by auto

lemma intset_elems_int64:
  assumes "intset_inv is" "x \<in> set (intset_elems is)"
  shows "int64 x"
proof -
  have "is_encoding is \<in> {2, 4, 8}" "sle_fits (is_encoding is) x"
    using assms unfolding intset_inv_def intset_rep_def by blast+
  then show ?thesis by (auto simp: int64_def sle_fits_def)
qed

lemma intset_distinct: "intset_inv is \<Longrightarrow> distinct (intset_elems is)"
  unfolding intset_inv_def intset_rep_def strict_sorted_iff by blast

lemma setTypeConvert_loop_yields:
  assumes "malloc_ok m" "intset_inv is" "intset_has_room is 0"
    and "sd_inv env d" "dict_keys d = dec_int ` set (take ii (intset_elems is))" "ii \<le> intsetLen is"
  shows "yields m (setTypeConvert_loop env m is ii d) (\<lambda>d'. sd_inv env d' \<and> dict_keys d' = dec_int ` intset_set is)"
  using assms
proof (induction env m "is" ii d rule: setTypeConvert_loop.induct)
  case (1 env m "is" ii d)
  let ?xs = "intset_elems is"
  have len: "length ?xs = intsetLen is" using intset_len_elems[OF "1.prems"(2)] .
  show ?case
  proof (cases "ii < intsetLen is")
    case False
    then have "intsetGet is ii = Inr None" by (simp add: intsetGet_def intsetLen_def)
    moreover have "take ii ?xs = ?xs" using False len by simp
    ultimately show ?thesis using "1.prems" by (subst setTypeConvert_loop.simps) (simp add: intset_set_def)
  next
    case True
    let ?v = "?xs ! ii"
    have g: "intsetGet is ii = Inr (Some ?v)"
      using True intsetGet_at_rep[OF intset_invD[OF "1.prems"(2)], of ii] len by (simp add: intsetGet_def intsetLen_def)
    have v: "int64 ?v" using intset_elems_int64[OF "1.prems"(2)] True len by simp
    have dist: "distinct ?xs" by (rule intset_distinct[OF "1.prems"(2)])
    have new: "dec_int ?v \<notin> dict_keys d"
      using dist True len inj_dec_int unfolding "1.prems"(5)
      by (auto simp: inj_image_mem_iff in_set_conv_nth nth_eq_iff_index_eq)
    have "card (dict_keys d) \<le> intsetLen is" unfolding "1.prems"(5)
      using card_image_le[of "set (take ii ?xs)" dec_int] card_length[of "take ii ?xs"] "1.prems"(6) len by simp
    then have c: "card (dict_keys d) < 2 ^ 62" using "1.prems"(3) by (simp add: intset_has_room_def)
    obtain d' where d': "dictAdd (se_can_resize env) (setDictType env) () d (dec_int ?v) () = Inr (d', True)"
      "sd_inv env d'" "dict_keys d' = insert (dec_int ?v) (dict_keys d)"
      using dictAdd_set[OF "1.prems"(4) dec_int_small[OF v] c] new by auto
    have keys: "dict_keys d' = dec_int ` set (take (ii + 1) ?xs)"
      using d'(3) "1.prems"(5) True len by (simp add: take_Suc_conv_app_nth)
    have "yields m (bindE (sds_of_ll m ?v) (\<lambda>element.
           bindE (dictAdd (se_can_resize env) (setDictType env) () d element ()) (\<lambda>(d', ok).
             if ok then setTypeConvert_loop env m is (ii + 1) d' else Inl AssertFail)))
        (\<lambda>d'. sd_inv env d' \<and> dict_keys d' = dec_int ` intset_set is)"
    proof (rule yields_bindE_eq[OF sds_of_ll_yields[OF "1.prems"(1) v]])
      fix element assume e: "sds_of_ll m ?v = Inr element" "element = dec_int ?v"
      have "yields m (setTypeConvert_loop env m is (ii + 1) d') (\<lambda>d'. sd_inv env d' \<and> dict_keys d' = dec_int ` intset_set is)"
        using "1.prems"(1-3) d' keys True e by (intro "1.IH"[OF g refl e(1), of "(d', True)" d' True]) auto
      then show "yields m (bindE (dictAdd (se_can_resize env) (setDictType env) () d element ()) (\<lambda>(d', ok).
             if ok then setTypeConvert_loop env m is (ii + 1) d' else Inl AssertFail))
        (\<lambda>d'. sd_inv env d' \<and> dict_keys d' = dec_int ` intset_set is)" using d'(1) e(2) by simp
    qed
    then show ?thesis using g by (subst setTypeConvert_loop.simps) simp
  qed
qed

lemma setTypeConvert_yields:
  assumes "malloc_ok m" "intset_inv is" "intset_has_room is 0"
  shows "yields m (setTypeConvert env m (SetIntset is))
    (\<lambda>obj. \<exists>d. obj = SetHT d \<and> sd_inv env d \<and> dict_keys d = dec_int ` intset_set is)"
proof -
  have "dict_map (dictCreate :: (byte list, unit) dict) = Map.empty" by (rule dict_rep_create(2))
  then have "sd_inv env dictCreate" "dict_keys (dictCreate :: (byte list, unit) dict) = {}"
    using dict_rep_create(1)[of "eq_type (setDictType env)"] by (auto simp: sd_inv_rep dict_keys_dom)
  then have "yields m (setTypeConvert_loop env m is 0 (fst (dictExpand dictCreate (intsetLen is))))
      (\<lambda>d. sd_inv env d \<and> dict_keys d = dec_int ` intset_set is)"
    using dictExpand_set[of env dictCreate "intsetLen is"] assms by (intro setTypeConvert_loop_yields) auto
  then show ?thesis unfolding setTypeConvert_def setobj.case by (rule yields_bindE) simp
qed

lemma set_members_HT_card: "sd_inv env d \<Longrightarrow> card (set_members (SetHT d)) = dictSize d"
  by (simp add: set_members_def sd_card)

lemma intset_card:
  assumes "intset_inv is"
  shows "card (intset_set is) = intsetLen is"
  using distinct_card[OF intset_distinct[OF assms]] intset_len_elems[OF assms] unfolding intset_set_def by (rule trans)

lemma card_dec_int: "card (dec_int ` S) = card S"
  by (rule card_image[OF inj_on_subset[OF inj_dec_int subset_UNIV]])

lemma setTypeSize_card: "set_inv env obj \<Longrightarrow> setTypeSize obj = card (set_members obj)"
  by (cases obj) (simp_all add: set_inv_def set_members_def setTypeSize_def sd_card card_dec_int intset_card)

lemma dec_int_mem [simp]: "dec_int x \<in> dec_int ` S \<longleftrightarrow> x \<in> S"
  by (simp add: inj_image_mem_iff[OF inj_dec_int])

lemma setTypeAdd_HT:
  assumes "sd_inv env d" "sds_small v" "dictSize d + Suc k \<le> 2 ^ 62"
  shows "\<exists>d'. setTypeAdd env m (SetHT d) v = Inr (SetHT d', v \<notin> dict_keys d)
    \<and> sd_inv env d' \<and> dict_keys d' = insert v (dict_keys d) \<and> dictSize d' + k \<le> 2 ^ 62"
proof -
  have eq: "setTypeAdd env m (SetHT d) v =
      bindE (dictAdd (se_can_resize env) (setDictType env) () d v ()) (\<lambda>(d', b). Inr (SetHT d', b))"
    by (cases "dictAddRaw (se_can_resize env) (setDictType env) d v ()")
      (auto simp: setTypeAdd_def dictAdd_def bindE_def split: sum.splits prod.splits)
  have "card (dict_keys d) < 2 ^ 62" using assms by (simp add: sd_card)
  then obtain d' where d': "dictAdd (se_can_resize env) (setDictType env) () d v () = Inr (d', v \<notin> dict_keys d)"
    "sd_inv env d'" "dict_keys d' = insert v (dict_keys d)"
    using dictAdd_set[OF assms(1,2)] by blast
  then have "dictSize d' \<le> Suc (dictSize d)"
    using sd_card[OF assms(1)] sd_card[OF d'(2)] card_insert_le_m1[of "Suc (dictSize d)" "dict_keys d" v] by simp
  then show ?thesis using d' assms(3) by (simp add: eq)
qed

text \<open>
  A set stays an integer set when the value is an integer and is present already or does not exceed
  the configured size.
\<close>

definition enc_intset :: "setobj \<Rightarrow> bool" where
  "enc_intset s = (case s of SetIntset _ \<Rightarrow> True | SetHT _ \<Rightarrow> False)"

definition add_encoding :: "set_env \<Rightarrow> setobj \<Rightarrow> byte list \<Rightarrow> setobj \<Rightarrow> bool" where
  "add_encoding env s v s' \<longleftrightarrow> (enc_intset s' \<longleftrightarrow> enc_intset s \<and> ll_of_string v \<noteq> None
     \<and> (v \<in> set_members s \<or> Suc (setTypeSize s) \<le> se_max_intset_entries env))"

abbreviation add_post :: "set_env \<Rightarrow> setobj \<Rightarrow> byte list \<Rightarrow> nat \<Rightarrow> setobj \<times> bool \<Rightarrow> bool" where
  "add_post env s v k \<equiv> (\<lambda>(s', b). set_inv env s' \<and> set_members s' = insert v (set_members s)
     \<and> b = (v \<notin> set_members s) \<and> set_room s' k \<and> add_encoding env s v s')"

lemma setTypeAdd_string:
  assumes m: "malloc_ok m" and inv: "intset_inv is" and v: "sds_small v" and rm: "intset_has_room is (Suc k)"
    and None: "ll_of_string v = None"
  shows "yields m (setTypeAdd env m (SetIntset is) v) (add_post env (SetIntset is) v k)"
proof -
  have new: "v \<notin> set_members (SetIntset is)"
    using ll_of_string_None[OF None] intset_elems_int64[OF inv] by (auto simp: set_members_def intset_set_def)
  have rm0: "intset_has_room is 0" using rm by (simp add: intset_has_room_def)
  have "yields m (case obj of
        SetHT d \<Rightarrow> bindE (dictAdd (se_can_resize env) (setDictType env) () d v ()) (\<lambda>(d', ok).
                    if ok then Inr (SetHT d', True) else Inl AssertFail)
      | SetIntset _ \<Rightarrow> Inl AssertFail) (add_post env (SetIntset is) v k)"
    if o: "\<exists>d. obj = SetHT d \<and> sd_inv env d \<and> dict_keys d = dec_int ` intset_set is" for obj
  proof -
    obtain d where d: "obj = SetHT d" "sd_inv env d" "dict_keys d = dec_int ` intset_set is" using o by blast
    have c: "card (dict_keys d) = intsetLen is" by (simp add: d(3) intset_card[OF inv] card_dec_int)
    then obtain d' where d': "dictAdd (se_can_resize env) (setDictType env) () d v () = Inr (d', v \<notin> dict_keys d)"
      "sd_inv env d'" "dict_keys d' = insert v (dict_keys d)"
      using dictAdd_set[OF d(2) v] rm by (auto simp: intset_has_room_def)
    have "dictSize d' \<le> Suc (intsetLen is)"
      using sd_card[OF d'(2)] c d'(3) card_insert_le_m1[of "Suc (intsetLen is)" "dict_keys d" v] by simp
    then show ?thesis using d d' new rm None
      by (simp add: set_inv_def set_members_def set_room_def intset_has_room_def add_encoding_def enc_intset_def)
  qed
  then show ?thesis unfolding setTypeAdd_def setobj.case representable_eq bindE_simps None option.case
    by (rule yields_bindE[OF setTypeConvert_yields[OF m inv rm0]])
qed

lemma setTypeAdd_int:
  assumes m: "malloc_ok m" and inv: "intset_inv is" and rm: "intset_has_room is (Suc k)"
    and Some: "ll_of_string v = Some x"
  shows "yields m (setTypeAdd env m (SetIntset is) v) (add_post env (SetIntset is) v k)"
proof -
  have v: "v = dec_int x" "int64 x" using Some by (auto simp: ll_of_string_Some)
  have "yields m (if b then if intsetLen is' > se_max_intset_entries env
          then bindE (setTypeConvert env m (SetIntset is')) (\<lambda>subject. Inr (subject, True))
          else Inr (SetIntset is', True) else Inr (SetIntset is', False)) (add_post env (SetIntset is) v k)"
    if r: "intset_inv is'" "intset_set is' = insert x (intset_set is)" "b = (x \<notin> intset_set is)" "intset_has_room is' k"
    for is' b
  proof -
    have rm0: "intset_has_room is' 0" using r(4) by (simp add: intset_has_room_def)
    have len: "x \<notin> intset_set is \<Longrightarrow> intsetLen is' = Suc (intsetLen is)"
      using intset_card[OF inv] intset_card[OF r(1)] r(2) by (simp add: intset_set_def)
    have "yields m (bindE (setTypeConvert env m (SetIntset is')) (\<lambda>subject. Inr (subject, True)))
        (add_post env (SetIntset is) v k)" if b: "x \<notin> intset_set is" and big: "intsetLen is' > se_max_intset_entries env"
    proof (rule yields_bindE[OF setTypeConvert_yields[OF m r(1) rm0]])
      fix obj assume "\<exists>d. obj = SetHT d \<and> sd_inv env d \<and> dict_keys d = dec_int ` intset_set is'"
      then obtain d where d: "obj = SetHT d" "sd_inv env d" "dict_keys d = dec_int ` intset_set is'" by blast
      have "dictSize d = intsetLen is'" using sd_card[OF d(2)] by (simp add: d(3) card_dec_int intset_card[OF r(1)])
      then show "yields m (Inr (obj, True)) (add_post env (SetIntset is) v k)"
        using d r b v(1) big len by (simp add: set_inv_def set_members_def set_room_def intset_has_room_def
            add_encoding_def enc_intset_def setTypeSize_def)
    qed
    then show ?thesis using r v(1) len Some
      by (auto simp: set_inv_def set_members_def set_room_def add_encoding_def enc_intset_def setTypeSize_def insert_absorb)
  qed
  then show ?thesis unfolding setTypeAdd_def setobj.case representable_eq bindE_simps Some option.case
    by (intro yields_bindE[OF intsetAdd_yields[OF m inv v(2) rm]]) auto
qed

lemma setTypeAdd_yields:
  assumes m: "malloc_ok m" and inv: "set_inv env s" and v: "sds_small v" and room: "set_room s (Suc k)"
  shows "yields m (setTypeAdd env m s v) (add_post env s v k)"
proof (cases s)
  case (SetHT d)
  then show ?thesis using setTypeAdd_HT[of env d v k m] assms
    by (auto simp: set_inv_def set_members_def set_room_def add_encoding_def enc_intset_def)
next
  case (SetIntset "is")
  then show ?thesis using setTypeAdd_string[OF m _ v] setTypeAdd_int[OF m] inv room
    by (cases "ll_of_string v") (auto simp: set_inv_def set_room_def)
qed

lemma setTypeRemove_yields:
  assumes m: "malloc_ok m" and inv: "set_inv env s" and v: "sds_small v" and room: "set_room s k"
  shows "yields m (setTypeRemove env m s v)
    (\<lambda>(s', b). set_inv env s' \<and> set_members s' = set_members s - {v} \<and> b = (v \<in> set_members s) \<and> set_room s' k)"
proof (cases s)
  case (SetHT d)
  then have d: "sd_inv env d" and rm: "dictSize d + k \<le> 2 ^ 62" using inv room by (auto simp: set_inv_def set_room_def)
  obtain d1 where d1: "dictDelete (setDictType env) d v = Inr (d1, v \<in> dict_keys d)" "sd_inv env d1"
    "dict_keys d1 = dict_keys d - {v}" using dictDelete_set[OF d v] by blast
  define d2 where "d2 = (if htNeedsResize d1 then fst (dictResize (se_can_resize env) d1) else d1)"
  have d2: "sd_inv env d2" "dict_keys d2 = dict_keys d - {v}" using dictResize_set[OF d1(2)] d1 by (auto simp: d2_def)
  have "dictSize d1 \<le> dictSize d" "dictSize d2 \<le> dictSize d"
    using sd_card[OF d1(2)] sd_card[OF d2(1)] sd_card[OF d] d1(3) d2(2) card_Diff1_le[of "dict_keys d" v] by simp_all
  then show ?thesis using d1 d2 rm SetHT
    by (auto simp: setTypeRemove_def set_inv_def set_members_def set_room_def simp flip: d2_def)
next
  case (SetIntset "is")
  then have is_inv: "intset_inv is" and rm: "intset_has_room is k" using inv room by (auto simp: set_inv_def set_room_def)
  show ?thesis
  proof (cases "ll_of_string v")
    case None
    then have "v \<notin> set_members s"
      using ll_of_string_None[OF None] intset_elems_int64[OF is_inv] SetIntset by (auto simp: set_members_def intset_set_def)
    then show ?thesis using None SetIntset assms by (auto simp: setTypeRemove_def representable_eq)
  next
    case (Some x)
    then have x: "v = dec_int x" "int64 x" by (auto simp: ll_of_string_Some)
    have "dec_int ` (S - {x}) = dec_int ` S - {v}" for S using inj_dec_int x(1) by (auto simp: inj_eq)
    then show ?thesis unfolding setTypeRemove_def SetIntset setobj.case representable_eq bindE_simps Some option.case
      by (intro yields_bindE[OF intsetRemove_yields[OF m is_inv x(2) rm]])
        (auto simp: set_inv_def set_members_def set_room_def x(1))
  qed
qed

lemma setTypeIsMember_ok:
  assumes inv: "set_inv env s" and v: "sds_small v" and room: "set_room s k"
  shows "\<exists>s'. setTypeIsMember env s v = Inr (s', v \<in> set_members s) \<and> set_inv env s'
    \<and> set_members s' = set_members s \<and> set_room s' k \<and> setTypeSize s' = setTypeSize s"
proof (cases s)
  case (SetHT d)
  then have d: "sd_inv env d" using inv by (simp add: set_inv_def)
  obtain d' r where d': "dictFind (setDictType env) d v = Inr (d', r)" "(r \<noteq> None) = (v \<in> dict_keys d)"
    "sd_inv env d'" "dict_keys d' = dict_keys d" using dictFind_set[OF d v] by blast
  then have "dictSize d' = dictSize d" using sd_card[OF d] sd_card[OF d'(3)] by simp
  then show ?thesis using d' SetHT room
    by (auto simp: setTypeIsMember_def set_inv_def set_members_def set_room_def setTypeSize_def)
next
  case (SetIntset "is")
  then have is_inv: "intset_inv is" and rm: "intset_has_room is k" using inv room by (auto simp: set_inv_def set_room_def)
  show ?thesis
  proof (cases "ll_of_string v")
    case None
    then have "v \<notin> set_members s"
      using ll_of_string_None[OF None] intset_elems_int64[OF is_inv] SetIntset by (auto simp: set_members_def intset_set_def)
    then show ?thesis using None SetIntset assms by (auto simp: setTypeIsMember_def representable_eq)
  next
    case (Some x)
    then have x: "v = dec_int x" "int64 x" by (auto simp: ll_of_string_Some)
    then show ?thesis using Some SetIntset assms intset.find_eq[OF is_inv x(2) rm]
      by (auto simp: setTypeIsMember_def representable_eq set_members_def)
  qed
qed

lemma set_members_finite: "set_inv env s \<Longrightarrow> finite (set_members s)"
  by (cases s) (simp_all add: set_members_def dict_keys_def intset_set_def)

interpretation set_type: finite_set_impl "set_inv env" set_members sds_small set_room
    "setTypeAdd env" "setTypeRemove env" "\<lambda>s v. bindE (setTypeIsMember env s v) (\<lambda>(_, b). Inr b)" for env
proof unfold_locales
  fix s x k assume "set_inv env s" "sds_small x" "set_room s k"
  from setTypeIsMember_ok[OF this]
  show "bindE (setTypeIsMember env s x) (\<lambda>(_, b). Inr b) = Inr (x \<in> set_members s)" by auto
next
  fix m s x k assume "malloc_ok m" "set_inv env s" "sds_small x" "set_room s (Suc k)"
  from setTypeAdd_yields[OF this]
  show "yields m (setTypeAdd env m s x) (\<lambda>(s', b). set_inv env s' \<and> set_members s' = insert x (set_members s)
      \<and> b = (x \<notin> set_members s) \<and> set_room s' k)" by (rule yields_mono) auto
qed (fact set_members_finite setTypeRemove_yields)+

lemma setTypeCreate_yields:
  "malloc_ok m \<Longrightarrow> yields m (setTypeCreate m v) (\<lambda>s. set_inv env s \<and> set_members s = {} \<and> set_room s (2 ^ 29 - 1))"
proof -
  assume m: "malloc_ok m"
  have "dict_map (dictCreate :: (byte list, unit) dict) = Map.empty" by (rule dict_rep_create(2))
  then have "sd_inv env dictCreate" "dict_keys (dictCreate :: (byte list, unit) dict) = {}"
    using dict_rep_create(1)[of "eq_type (setDictType env)"] by (auto simp: sd_inv_rep dict_keys_dom)
  then show ?thesis using sd_card[of env dictCreate]
    unfolding setTypeCreate_def representable_eq bindE_simps
    by (cases "ll_of_string v")
      (auto intro!: yields_bindE[OF intsetNew_yields[OF m]] simp: set_inv_def set_members_def set_room_def intset_has_room_def)
qed

section \<open>Iteration\<close>

text \<open>The members in the order of an iteration.\<close>

definition set_order :: "setobj \<Rightarrow> set_elem list" where
  "set_order s = (case s of SetHT d \<Rightarrow> map (\<lambda>e. EleSds (fst e)) (dict_entries d) | SetIntset is \<Rightarrow> map EleInt (intset_elems is))"

definition elem_str :: "set_elem \<Rightarrow> byte list" where
  "elem_str e = (case e of EleInt v \<Rightarrow> dec_int v | EleSds s \<Rightarrow> s)"

text \<open>What an iterator has still to return.\<close>

definition si_rem :: "set_env \<Rightarrow> setobj \<Rightarrow> setTypeIterator \<Rightarrow> set_elem list \<Rightarrow> bool" where
  "si_rem env s si L = (case s of
     SetHT d \<Rightarrow> iter_inv (se_addr env) d d (si_di si) \<and> \<not> it_safe (si_di si) \<and> L = map (\<lambda>e. EleSds (fst e)) (iter_rem d (si_di si))
   | SetIntset is \<Rightarrow> L = map EleInt (drop (si_ii si) (intset_elems is)))"

lemma setTypeInitIterator_rem:
  assumes "set_inv env s"
  shows "si_rem env s setTypeInitIterator (set_order s)"
proof (cases s)
  case (SetHT d)
  then have "dict_inv (setDictType env) d" using assms by (simp add: set_inv_def sd_inv_def)
  from iter_start[OF this, of "dictGetIterator 0" 0] SetHT show ?thesis
    by (simp add: si_rem_def set_order_def setTypeInitIterator_def) (simp add: dictGetIterator_def)
qed (simp add: si_rem_def set_order_def setTypeInitIterator_def)

lemma setTypeNext_end:
  assumes "set_inv env s" "si_rem env s si []"
  shows "\<exists>si'. setTypeNext env s si = Inr (s, si', None) \<and> setTypeReleaseIterator env s si' = Inr s"
proof (cases s)
  case (SetHT d)
  then have d: "dict_inv (setDictType env) d" "iter_inv (se_addr env) d d (si_di si)" "\<not> it_safe (si_di si)" "iter_rem d (si_di si) = []"
    using assms by (auto simp: set_inv_def sd_inv_def si_rem_def)
  obtain d' it' r where n: "dictNext (se_addr env) d (si_di si) = Inr (d', it', r)" "iter_inv (se_addr env) d d' it'"
    "iter_started it'" "it_safe it' = it_safe (si_di si)" "r = None"
    using dictNext_ok[OF d(1,2)] d(4) by auto
  then show ?thesis using SetHT d(3)
    by (auto simp: setTypeNext_def setTypeReleaseIterator_def dictReleaseIterator_def iter_inv_def iter_started_def)
next
  case (SetIntset "is")
  then have "\<not> si_ii si < intsetLen is" using assms intset_len_elems[of "is"] by (auto simp: si_rem_def set_inv_def)
  then show ?thesis using SetIntset
    by (auto simp: setTypeNext_def setTypeReleaseIterator_def intsetGet_def intsetLen_def)
qed

lemma setTypeNext_elem:
  assumes "set_inv env s" "si_rem env s si (x # L)"
  shows "\<exists>si'. setTypeNext env s si = Inr (s, si', Some x) \<and> si_rem env s si' L"
proof (cases s)
  case (SetHT d)
  then obtain e es where d: "dict_inv (setDictType env) d" "iter_inv (se_addr env) d d (si_di si)" "\<not> it_safe (si_di si)"
    "iter_rem d (si_di si) = e # es" "x = EleSds (fst e)" "L = map (\<lambda>e. EleSds (fst e)) es"
    using assms by (auto simp: set_inv_def sd_inv_def si_rem_def Cons_eq_map_conv)
  obtain d' it' r where n: "dictNext (se_addr env) d (si_di si) = Inr (d', it', r)" "iter_inv (se_addr env) d d' it'"
    "iter_started it'" "it_safe it' = it_safe (si_di si)" "r = Some e" "iter_rem d it' = es"
    using dictNext_ok[OF d(1,2)] d(4) by auto
  moreover have "d' = d" using n(2,4) d(3) by (simp add: iter_inv_def)
  ultimately show ?thesis using SetHT d by (auto simp: setTypeNext_def si_rem_def)
next
  case (SetIntset "is")
  then have i: "intset_inv is" "map EleInt (drop (si_ii si) (intset_elems is)) = x # L" using assms by (auto simp: si_rem_def set_inv_def)
  then have "si_ii si < length (intset_elems is)" by (metis drop_eq_Nil linorder_not_le list.distinct(1) list.simps(8))
  moreover from this have "x = EleInt (intset_elems is ! si_ii si)" "L = map EleInt (drop (Suc (si_ii si)) (intset_elems is))"
    using i(2) by (simp_all flip: Cons_nth_drop_Suc)
  ultimately show ?thesis using SetIntset intset_len_elems[OF i(1)] intsetGet_at_rep[OF intset_invD[OF i(1)], of "si_ii si"]
    by (auto simp: setTypeNext_def intsetGet_def intsetLen_def si_rem_def)
qed

lemma set_order_members: "set_inv env s \<Longrightarrow> elem_str ` set (set_order s) = set_members s"
  by (cases s) (simp_all add: set_order_def set_members_def elem_str_def dict_keys_def intset_set_def image_image)

lemma set_order_distinct: "set_inv env s \<Longrightarrow> distinct (map elem_str (set_order s))"
proof (cases s)
  case (SetHT d)
  assume "set_inv env s"
  then show ?thesis using SetHT by (simp add: set_inv_def sd_inv_def dict_inv_def set_order_def elem_str_def comp_def)
next
  case (SetIntset "is")
  assume "set_inv env s"
  then have "distinct (intset_elems is)" using SetIntset by (simp add: set_inv_def intset_distinct)
  then show ?thesis using SetIntset by (simp add: set_order_def elem_str_def comp_def distinct_map inj_on_def dec_int_inj)
qed

lemma set_order_length: "set_inv env s \<Longrightarrow> length (set_order s) = setTypeSize s"
  by (cases s) (auto simp: set_order_def setTypeSize_def set_inv_def sd_inv_def intset_len_elems
      dest!: dictSize_entries)

lemma set_elem_sds_yields:
  "malloc_ok m \<Longrightarrow> set_inv env s \<Longrightarrow> x \<in> set (set_order s) \<Longrightarrow> yields m (set_elem_sds m x) (\<lambda>v. v = elem_str x)"
  using sds_of_ll_yields intset_elems_int64
  by (cases s) (auto simp: set_order_def set_elem_sds_def elem_str_def set_inv_def)

lemma set_members_small: "set_inv env s \<Longrightarrow> v \<in> set_members s \<Longrightarrow> sds_small v"
  using dec_int_small intset_elems_int64
  by (cases s) (auto simp: set_inv_def set_members_def sd_inv_def intset_set_def)

section \<open>Correctness\<close>

text \<open>
  C4. A set value is a finite set of strings, whichever way it is stored. Adding inserts and reports
  whether the member is new, removing deletes and reports whether there was one, the membership test
  and the size are right; conversions between the encodings and the resizing of the hash table do not
  show. The assertions of the conversion hold.
\<close>

theorem setType_refines_set:
  assumes "malloc_ok m" "set_inv env s" "sds_small v" "set_room s 1"
  shows "yields m (setTypeAdd env m s v)
      (\<lambda>(s', b). set_inv env s' \<and> set_members s' = insert v (set_members s) \<and> b = (v \<notin> set_members s))
    \<and> yields m (setTypeRemove env m s v)
      (\<lambda>(s', b). set_inv env s' \<and> set_members s' = set_members s - {v} \<and> b = (v \<in> set_members s))
    \<and> (\<exists>s'. setTypeIsMember env s v = Inr (s', v \<in> set_members s) \<and> set_inv env s' \<and> set_members s' = set_members s)
    \<and> setTypeSize s = card (set_members s)"
  using set_type.add_yields[OF assms(1-3), of 0] setTypeRemove_yields[OF assms] setTypeIsMember_ok[OF assms(2-4)]
    setTypeSize_card[OF assms(2)] assms(4) by (auto elim!: yields_mono)

definition example_env :: set_env where
  "example_env = \<lparr>se_hash = length, se_can_resize = True, se_max_intset_entries = 512, se_addr = (\<lambda>_. 0)\<rparr>"

lemma empty_set_inv: "set_inv env (SetHT dictCreate)" "set_members (SetHT dictCreate) = {}" "set_room (SetHT dictCreate) 1"
proof -
  have "dict_map (dictCreate :: (byte list, unit) dict) = Map.empty" by (rule dict_rep_create(2))
  then have k: "sd_inv env dictCreate" "dict_keys (dictCreate :: (byte list, unit) dict) = {}" for env
    using dict_rep_create(1)[of "eq_type (setDictType env)"] by (auto simp: sd_inv_rep dict_keys_dom)
  then show "set_inv env (SetHT dictCreate)" "set_members (SetHT dictCreate) = {}" "set_room (SetHT dictCreate) 1"
    using sd_card[OF k(1)] by (simp_all add: set_inv_def set_members_def set_room_def)
qed

theorem setType_refines_set_witness:
  "yields calloc_alloc (setTypeAdd example_env calloc_alloc (SetHT dictCreate) [97])
      (\<lambda>(s', b). set_inv example_env s' \<and> set_members s' = {[97]} \<and> b)"
  using setType_refines_set[OF calloc_alloc_ok empty_set_inv(1) _ empty_set_inv(3), of "[97]" example_env]
  by (simp add: empty_set_inv(2))

text \<open>
  C26. The encoding of a set. Adding a value to a well-formed set gives a well-formed set, stored as an
  integer set exactly if it was one, the value is the canonical representation of an integer, and the
  value was there before or the new size is within the configured limit. A hash table never turns
  back into an integer set.
\<close>

theorem setTypeAdd_encoding:
  assumes "malloc_ok m" "set_inv env s" "sds_small v" "set_room s 1"
  shows "yields m (setTypeAdd env m s v)
    (\<lambda>(s', _). set_inv env s' \<and> (enc_intset s' \<longleftrightarrow> enc_intset s \<and> (\<exists>x. int64 x \<and> v = dec_int x)
       \<and> (v \<in> set_members s \<or> card (set_members s) < se_max_intset_entries env)))"
proof -
  have "ll_of_string v \<noteq> None \<longleftrightarrow> (\<exists>x. int64 x \<and> v = dec_int x)"
    using ll_of_string_Some[of v] by (cases "ll_of_string v") auto
  then show ?thesis using setTypeAdd_yields[OF assms(1-3), of 0] assms(4) setTypeSize_card[OF assms(2)]
    by (auto simp: add_encoding_def Suc_le_eq elim!: yields_mono)
qed

lemma empty_intset_inv:
  "set_inv env (SetIntset \<lparr>is_encoding = 2, is_length = 0, is_contents = []\<rparr>)"
  "set_members (SetIntset \<lparr>is_encoding = 2, is_length = 0, is_contents = []\<rparr>) = {}"
  "set_room (SetIntset \<lparr>is_encoding = 2, is_length = 0, is_contents = []\<rparr>) 1"
  by (simp_all add: set_inv_def set_members_def set_room_def intset_inv_def intset_rep_def intset_elems_def
      intset_set_def intset_has_room_def intsetLen_def packed_def)

theorem setTypeAdd_encoding_witness:
  "yields calloc_alloc (setTypeAdd example_env calloc_alloc (SetIntset \<lparr>is_encoding = 2, is_length = 0, is_contents = []\<rparr>) [55])
    (\<lambda>(s', _). set_inv example_env s' \<and> enc_intset s')"
proof -
  have x: "\<exists>x. int64 x \<and> [55] = dec_int x"
    by (rule exI[of _ 7]) (simp add: int64_def dec_int_def dec_nat.simps)
  have e: "enc_intset (SetIntset is)" "se_max_intset_entries example_env = 512" for "is"
    by (simp_all add: enc_intset_def example_env_def)
  show ?thesis
    using setTypeAdd_encoding[OF calloc_alloc_ok empty_intset_inv(1) _ empty_intset_inv(3), of "[55]" example_env]
    by (simp add: x e empty_intset_inv(2))
qed

end
