(* ===== verification/SetCommands.thy ===== *)
theory SetCommands
  imports SetType
begin

text \<open>
  The commands on sets (\<open>t_set.c\<close>): SADD, SREM, SMOVE, SISMEMBER, SCARD, and SINTER, SUNION and SDIFF with
  their variants that store the result. The key space maps a key to its object; no two keys share a
  set, so a pointer to a set is its key. Expired keys are removed before a command runs.
\<close>

section \<open>The server\<close>

datatype robj = RSet setobj | ROther

text \<open>
  \<open>signalModifiedKey\<close> and \<open>notifyKeyspaceEvent\<close> are recorded in the order of the calls.
\<close>

datatype set_event = Modified "byte list" | Notify string "byte list"

record set_server =
  ss_db :: "byte list \<Rightarrow> robj option"
  ss_dirty :: int
  ss_events :: "set_event list"

text \<open>\<open>ReplyMulti n xs\<close> is the header of a reply of \<open>n\<close> parts followed by the parts \<open>xs\<close>.\<close>

datatype reply = ReplyInt int | ReplyMulti int "byte list list" | ReplyWrongType

text \<open>
  The dictionary of the key space is a map; expiration times and the slots of a cluster are left out.
  \<open>dbAdd\<close> aborts when the key exists.
\<close>

definition dbDelete :: "set_server \<Rightarrow> byte list \<Rightarrow> set_server \<times> bool" where
  "dbDelete s key = (s\<lparr>ss_db := (ss_db s)(key := None)\<rparr>, ss_db s key \<noteq> None)"

definition dbAdd :: "set_server \<Rightarrow> byte list \<Rightarrow> setobj \<Rightarrow> set_server res" where
  "dbAdd s key val =
     (if ss_db s key \<noteq> None then Inl AssertFail else Inr (s\<lparr>ss_db := (ss_db s)(key \<mapsto> RSet val)\<rparr>))"

definition emit :: "set_event list \<Rightarrow> set_server \<Rightarrow> set_server" where
  "emit es s = s\<lparr>ss_events := ss_events s @ es\<rparr>"

definition add_dirty :: "int \<Rightarrow> set_server \<Rightarrow> set_server" where
  "add_dirty n s = s\<lparr>ss_dirty := ss_dirty s + n\<rparr>"

text \<open>Access to the set behind a pointer.\<close>

definition set_at :: "byte list \<Rightarrow> set_server \<Rightarrow> setobj res" where
  "set_at key s = (case ss_db s key of Some (RSet obj) \<Rightarrow> Inr obj | _ \<Rightarrow> Inl NullDeref)"

definition set_put :: "byte list \<Rightarrow> setobj \<Rightarrow> set_server \<Rightarrow> set_server" where
  "set_put key obj s = s\<lparr>ss_db := (ss_db s)(key \<mapsto> RSet obj)\<rparr>"

section \<open>Single sets\<close>

definition saddCommand :: "set_env \<Rightarrow> allocator \<Rightarrow> set_server \<Rightarrow> byte list \<Rightarrow> byte list list \<Rightarrow> (set_server \<times> reply) res" where
  "saddCommand env m s key vals =
     (if ss_db s key = Some ROther then Inr (s, ReplyWrongType)
      else
        bindE (if ss_db s key = None then
                 case vals of
                   [] \<Rightarrow> Inl OutOfBounds
                 | v # _ \<Rightarrow> bindE (setTypeCreate m v) (\<lambda>obj. dbAdd s key obj)
               else Inr s) (\<lambda>s.
        bindE (set_at key s) (\<lambda>obj.
        bindE (add_all (setTypeAdd env m) obj vals) (\<lambda>(obj, added).
          let s = set_put key obj s;
              s = (if added > 0 then emit [Modified key, Notify ''sadd'' key] s else s) in
          Inr (add_dirty (int added) s, ReplyInt (int added))))))"

text \<open>The loop ends when the set has become empty; the result tells that.\<close>

fun srem_loop :: "set_env \<Rightarrow> allocator \<Rightarrow> setobj \<Rightarrow> byte list list \<Rightarrow> (setobj \<times> nat \<times> bool) res" where
  "srem_loop env m obj [] = Inr (obj, 0, False)"
| "srem_loop env m obj (v # vs) =
     bindE (setTypeRemove env m obj v) (\<lambda>(obj, b).
       if b then
         if setTypeSize obj = 0 then Inr (obj, 1, True)
         else bindE (srem_loop env m obj vs) (\<lambda>(obj, deleted, keyremoved). Inr (obj, deleted + 1, keyremoved))
       else srem_loop env m obj vs)"

definition sremCommand :: "set_env \<Rightarrow> allocator \<Rightarrow> set_server \<Rightarrow> byte list \<Rightarrow> byte list list \<Rightarrow> (set_server \<times> reply) res" where
  "sremCommand env m s key vals =
     (case ss_db s key of
        None \<Rightarrow> Inr (s, ReplyInt 0)
      | Some ROther \<Rightarrow> Inr (s, ReplyWrongType)
      | Some (RSet obj) \<Rightarrow>
          bindE (srem_loop env m obj vals) (\<lambda>(obj, deleted, keyremoved).
            let s = set_put key obj s;
                s = (if keyremoved then fst (dbDelete s key) else s);
                s = (if deleted > 0 then
                       add_dirty (int deleted)
                         (emit ([Modified key, Notify ''srem'' key] @ (if keyremoved then [Notify ''del'' key] else [])) s)
                     else s) in
            Inr (s, ReplyInt (int deleted))))"

definition smoveCommand ::
    "set_env \<Rightarrow> allocator \<Rightarrow> set_server \<Rightarrow> byte list \<Rightarrow> byte list \<Rightarrow> byte list \<Rightarrow> (set_server \<times> reply) res" where
  "smoveCommand env m s src dst ele =
     (case ss_db s src of
        None \<Rightarrow> Inr (s, ReplyInt 0)
      | Some ROther \<Rightarrow> Inr (s, ReplyWrongType)
      | Some (RSet srcset) \<Rightarrow>
          if ss_db s dst = Some ROther then Inr (s, ReplyWrongType)
          else if src = dst then
            bindE (setTypeIsMember env srcset ele) (\<lambda>(srcset, b).
              Inr (set_put src srcset s, ReplyInt (if b then 1 else 0)))
          else
            bindE (setTypeRemove env m srcset ele) (\<lambda>(srcset, b).
              let s = set_put src srcset s in
              if \<not> b then Inr (s, ReplyInt 0)
              else
                let s = emit [Notify ''srem'' src] s;
                    s = (if setTypeSize srcset = 0 then emit [Notify ''del'' src] (fst (dbDelete s src)) else s) in
                bindE (if ss_db s dst = None then bindE (setTypeCreate m ele) (\<lambda>obj. dbAdd s dst obj) else Inr s) (\<lambda>s.
                let s = add_dirty 1 (emit [Modified src, Modified dst] s) in
                bindE (set_at dst s) (\<lambda>dstset.
                bindE (setTypeAdd env m dstset ele) (\<lambda>(dstset, added).
                  let s = set_put dst dstset s;
                      s = (if added then emit [Notify ''sadd'' dst] (add_dirty 1 s) else s) in
                  Inr (s, ReplyInt 1))))))"

definition sismemberCommand :: "set_env \<Rightarrow> set_server \<Rightarrow> byte list \<Rightarrow> byte list \<Rightarrow> (set_server \<times> reply) res" where
  "sismemberCommand env s key ele =
     (case ss_db s key of
        None \<Rightarrow> Inr (s, ReplyInt 0)
      | Some ROther \<Rightarrow> Inr (s, ReplyWrongType)
      | Some (RSet obj) \<Rightarrow>
          bindE (setTypeIsMember env obj ele) (\<lambda>(obj, b). Inr (set_put key obj s, ReplyInt (if b then 1 else 0))))"

definition scardCommand :: "set_server \<Rightarrow> byte list \<Rightarrow> set_server \<times> reply" where
  "scardCommand s key =
     (case ss_db s key of
        None \<Rightarrow> (s, ReplyInt 0)
      | Some ROther \<Rightarrow> (s, ReplyWrongType)
      | Some (RSet obj) \<Rightarrow> (s, ReplyInt (int (setTypeSize obj))))"

section \<open>Loops over the members of a set\<close>

text \<open>
  The loop \<open>while (setTypeNext(si, ...) != -1)\<close> over the set that \<open>get\<close> finds in the state, released at the
  end. The fuel is one more than the number of members.
\<close>

fun set_foreach ::
    "nat \<Rightarrow> set_env \<Rightarrow> ('s \<Rightarrow> setobj res) \<Rightarrow> (setobj \<Rightarrow> 's \<Rightarrow> 's) \<Rightarrow> (set_elem \<Rightarrow> 's \<Rightarrow> 's res) \<Rightarrow>
     setTypeIterator \<Rightarrow> 's \<Rightarrow> 's res" where
  "set_foreach 0 env get put body si s = Inl UndefBehaviour"
| "set_foreach (Suc n) env get put body si s =
     bindE (get s) (\<lambda>obj.
     bindE (setTypeNext env obj si) (\<lambda>(obj, si, e).
       let s = put obj s in
       case e of
         None \<Rightarrow> bindE (setTypeReleaseIterator env obj si) (\<lambda>obj. Inr (put obj s))
       | Some x \<Rightarrow> bindE (body x s) (\<lambda>s. set_foreach n env get put body si s)))"

definition set_iter ::
    "set_env \<Rightarrow> ('s \<Rightarrow> setobj res) \<Rightarrow> (setobj \<Rightarrow> 's \<Rightarrow> 's) \<Rightarrow> (set_elem \<Rightarrow> 's \<Rightarrow> 's res) \<Rightarrow> 's \<Rightarrow> 's res" where
  "set_iter env get put body s =
     bindE (get s) (\<lambda>obj. set_foreach (setTypeSize obj + 1) env get put body setTypeInitIterator s)"

text \<open>The loop \<open>while ((ele = setTypeNextObject(si)) != NULL)\<close>, which gets the members as strings.\<close>

definition set_iter_sds ::
    "set_env \<Rightarrow> allocator \<Rightarrow> ('s \<Rightarrow> setobj res) \<Rightarrow> (setobj \<Rightarrow> 's \<Rightarrow> 's) \<Rightarrow> (byte list \<Rightarrow> 's \<Rightarrow> 's res) \<Rightarrow> 's \<Rightarrow> 's res" where
  "set_iter_sds env m get put body =
     set_iter env get put (\<lambda>x s. bindE (set_elem_sds m x) (\<lambda>ele. body ele s))"

text \<open>\<open>qsort\<close> of the C library, as an insertion sort.\<close>

fun insert_by :: "('a \<Rightarrow> 'a \<Rightarrow> int) \<Rightarrow> 'a \<Rightarrow> 'a list \<Rightarrow> 'a list" where
  "insert_by cmp x [] = [x]"
| "insert_by cmp x (y # ys) = (if cmp x y \<le> 0 then x # y # ys else y # insert_by cmp x ys)"

definition c_qsort :: "('a \<Rightarrow> 'a \<Rightarrow> int) \<Rightarrow> 'a list \<Rightarrow> 'a list" where
  "c_qsort cmp xs = foldr (insert_by cmp) xs []"

definition add_int :: "int \<Rightarrow> int \<Rightarrow> int res" where
  "add_int a b = (if - (2 ^ 31) \<le> a + b \<and> a + b < 2 ^ 31 then Inr (a + b) else Inl UndefBehaviour)"

definition createIntsetObject :: "allocator \<Rightarrow> setobj res" where
  "createIntsetObject m = bindE (intsetNew m) (\<lambda>is. Inr (SetIntset is))"

text \<open>The set behind the first component of a state.\<close>

definition st_get :: "byte list \<Rightarrow> set_server \<times> 'r \<Rightarrow> setobj res" where
  "st_get key st = set_at key (fst st)"

definition st_put :: "byte list \<Rightarrow> setobj \<Rightarrow> set_server \<times> 'r \<Rightarrow> set_server \<times> 'r" where
  "st_put key obj st = (set_put key obj (fst st), snd st)"

text \<open>The size behind a pointer that may be NULL.\<close>

definition set_card :: "set_server \<Rightarrow> byte list option \<Rightarrow> nat" where
  "set_card s p = (case p of None \<Rightarrow> 0 | Some key \<Rightarrow> (case set_at key s of Inr obj \<Rightarrow> setTypeSize obj | Inl _ \<Rightarrow> 0))"

text \<open>The result replaces what is stored at the destination.\<close>

definition store_result :: "string \<Rightarrow> byte list \<Rightarrow> setobj \<Rightarrow> set_server \<Rightarrow> (set_server \<times> reply) res" where
  "store_result ev dstkey dstset s =
     (let (s, deleted) = dbDelete s dstkey in
      bindE (if setTypeSize dstset > 0 then
               bindE (dbAdd s dstkey dstset) (\<lambda>s.
                 Inr (emit [Notify ev dstkey] s, ReplyInt (int (setTypeSize dstset))))
             else Inr (if deleted then emit [Notify ''del'' dstkey] s else s, ReplyInt 0)) (\<lambda>(s, r).
      Inr (add_dirty 1 (emit [Modified dstkey] s), r)))"

section \<open>Intersection\<close>

definition qsortCompareSetsByCardinality :: "set_server \<Rightarrow> byte list \<Rightarrow> byte list \<Rightarrow> int" where
  "qsortCompareSetsByCardinality s s1 s2 =
     (if set_card s (Some s1) > set_card s (Some s2) then 1
      else if set_card s (Some s1) < set_card s (Some s2) then - 1 else 0)"

datatype lookup_result = AllSets | MissingKey | WrongType

fun sinter_lookup :: "set_server \<Rightarrow> byte list list \<Rightarrow> lookup_result" where
  "sinter_lookup s [] = AllSets"
| "sinter_lookup s (k # ks) =
     (case ss_db s k of
        None \<Rightarrow> MissingKey
      | Some ROther \<Rightarrow> WrongType
      | Some (RSet _) \<Rightarrow> sinter_lookup s ks)"

text \<open>The inner loop: whether the other sets contain the member, \<open>j == setnum\<close> at the end.\<close>

fun sinter_others ::
    "set_env \<Rightarrow> allocator \<Rightarrow> byte list \<Rightarrow> byte list list \<Rightarrow> set_elem \<Rightarrow> set_server \<Rightarrow> (set_server \<times> bool) res" where
  "sinter_others env m key0 [] x s = Inr (s, True)"
| "sinter_others env m key0 (k # ks) x s =
     (if k = key0 then sinter_others env m key0 ks x s
      else
        bindE (set_at k s) (\<lambda>obj.
        bindE (case (x, obj) of
                 (EleInt v, SetIntset is) \<Rightarrow> bindE (intsetFind is v) (\<lambda>b. Inr (obj, b))
               | (EleInt v, SetHT _) \<Rightarrow> bindE (sds_of_ll m v) (\<lambda>ele. setTypeIsMember env obj ele)
               | (EleSds ele, _) \<Rightarrow> setTypeIsMember env obj ele) (\<lambda>(obj, b).
          if b then sinter_others env m key0 ks x (set_put k obj s) else Inr (set_put k obj s, False))))"

text \<open>
  The state of the main loop is the server, the destination set if there is one, the number of members
  replied and the members. An integer is replied with \<open>addReplyBulkLongLong\<close>, in decimal.
\<close>

type_synonym sinter_state = "set_server \<times> setobj option \<times> nat \<times> byte list list"

definition sinter_body ::
    "set_env \<Rightarrow> allocator \<Rightarrow> byte list \<Rightarrow> byte list list \<Rightarrow> set_elem \<Rightarrow> sinter_state \<Rightarrow> sinter_state res" where
  "sinter_body env m key0 ks x = (\<lambda>(s, dstset, cardinality, out).
     bindE (sinter_others env m key0 ks x s) (\<lambda>(s, found).
       if found then
         case dstset of
           None \<Rightarrow> Inr (s, None, cardinality + 1, out @ [elem_str x])
         | Some d \<Rightarrow>
             bindE (set_elem_sds m x) (\<lambda>ele.
             bindE (setTypeAdd env m d ele) (\<lambda>(d, _). Inr (s, Some d, cardinality, out)))
       else Inr (s, dstset, cardinality, out)))"

definition sinterGenericCommand ::
    "set_env \<Rightarrow> allocator \<Rightarrow> set_server \<Rightarrow> byte list list \<Rightarrow> byte list option \<Rightarrow> (set_server \<times> reply) res" where
  "sinterGenericCommand env m s setkeys dstkey =
     (case sinter_lookup s setkeys of
        MissingKey \<Rightarrow>
          (case dstkey of
             None \<Rightarrow> Inr (s, ReplyMulti 0 [])
           | Some k \<Rightarrow>
               let (s, deleted) = dbDelete s k in
               Inr (if deleted then add_dirty 1 (emit [Modified k] s) else s, ReplyInt 0))
      | WrongType \<Rightarrow> Inr (s, ReplyWrongType)
      | AllSets \<Rightarrow>
          (case c_qsort (qsortCompareSetsByCardinality s) setkeys of
             [] \<Rightarrow> Inl OutOfBounds
           | key0 # ks \<Rightarrow>
               bindE (case dstkey of None \<Rightarrow> Inr None | Some _ \<Rightarrow> bindE (createIntsetObject m) (\<lambda>d. Inr (Some d))) (\<lambda>dstset.
               bindE (set_iter env (st_get key0) (st_put key0) (sinter_body env m key0 ks) (s, dstset, 0, []))
                 (\<lambda>(s, dstset, cardinality, out).
                 case (dstkey, dstset) of
                   (Some k, Some d) \<Rightarrow> store_result ''sinterstore'' k d s
                 | _ \<Rightarrow> Inr (s, ReplyMulti (int cardinality) out)))))"

definition sinterCommand where "sinterCommand env m s keys = sinterGenericCommand env m s keys None"
definition sinterstoreCommand where "sinterstoreCommand env m s dst keys = sinterGenericCommand env m s keys (Some dst)"

section \<open>Union and difference\<close>

datatype set_op = SET_OP_UNION | SET_OP_DIFF

definition qsortCompareSetsByRevCardinality :: "set_server \<Rightarrow> byte list option \<Rightarrow> byte list option \<Rightarrow> int" where
  "qsortCompareSetsByRevCardinality s o1 o2 =
     (let first = set_card s o1; second = set_card s o2 in
      if first < second then 1 else if first > second then - 1 else 0)"

text \<open>The array \<open>sets\<close>, with \<open>None\<close> for NULL; no array when a key holds another type.\<close>

fun sunion_lookup :: "set_server \<Rightarrow> byte list list \<Rightarrow> byte list option list option" where
  "sunion_lookup s [] = Some []"
| "sunion_lookup s (k # ks) =
     (case ss_db s k of
        None \<Rightarrow> map_option ((#) None) (sunion_lookup s ks)
      | Some ROther \<Rightarrow> None
      | Some (RSet _) \<Rightarrow> map_option ((#) (Some k)) (sunion_lookup s ks))"

text \<open>The choice of the algorithm, and the order of the sets for it.\<close>

definition diff_plan :: "set_server \<Rightarrow> byte list option list \<Rightarrow> nat \<times> byte list option list" where
  "diff_plan s sets =
     (case sets of
        Some key0 # ks \<Rightarrow>
          let nonnull = filter (\<lambda>p. p \<noteq> None) sets;
              algo_one_work = (\<Sum>p \<leftarrow> nonnull. set_card s (Some key0)) div 2;
              algo_two_work = (\<Sum>p \<leftarrow> nonnull. set_card s p) in
          if algo_one_work \<le> algo_two_work
          then (1, Some key0 # c_qsort (qsortCompareSetsByRevCardinality s) ks)
          else (2, sets)
      | _ \<Rightarrow> (1, sets))"

type_synonym sunion_state = "set_server \<times> setobj \<times> int"

definition union_body :: "set_env \<Rightarrow> allocator \<Rightarrow> byte list \<Rightarrow> sunion_state \<Rightarrow> sunion_state res" where
  "union_body env m ele = (\<lambda>(s, dstset, cardinality).
     bindE (setTypeAdd env m dstset ele) (\<lambda>(dstset, added).
     bindE (if added then add_int cardinality 1 else Inr cardinality) (\<lambda>cardinality.
       Inr (s, dstset, cardinality))))"

fun union_loop :: "set_env \<Rightarrow> allocator \<Rightarrow> byte list option list \<Rightarrow> sunion_state \<Rightarrow> sunion_state res" where
  "union_loop env m [] st = Inr st"
| "union_loop env m (None # ks) st = union_loop env m ks st"
| "union_loop env m (Some k # ks) st =
     bindE (set_iter_sds env m (st_get k) (st_put k) (union_body env m) st) (\<lambda>st. union_loop env m ks st)"

fun diff_others ::
    "set_env \<Rightarrow> byte list \<Rightarrow> byte list option list \<Rightarrow> byte list \<Rightarrow> set_server \<Rightarrow> (set_server \<times> bool) res" where
  "diff_others env key0 [] ele s = Inr (s, True)"
| "diff_others env key0 (None # ks) ele s = diff_others env key0 ks ele s"
| "diff_others env key0 (Some k # ks) ele s =
     (if k = key0 then Inr (s, False)
      else
        bindE (set_at k s) (\<lambda>obj.
        bindE (setTypeIsMember env obj ele) (\<lambda>(obj, b).
          if b then Inr (set_put k obj s, False) else diff_others env key0 ks ele (set_put k obj s))))"

definition diff1_body ::
    "set_env \<Rightarrow> allocator \<Rightarrow> byte list \<Rightarrow> byte list option list \<Rightarrow> byte list \<Rightarrow> sunion_state \<Rightarrow> sunion_state res" where
  "diff1_body env m key0 ks ele = (\<lambda>(s, dstset, cardinality).
     bindE (diff_others env key0 ks ele s) (\<lambda>(s, alone).
       if alone then
         bindE (setTypeAdd env m dstset ele) (\<lambda>(dstset, _).
         bindE (add_int cardinality 1) (\<lambda>cardinality. Inr (s, dstset, cardinality)))
       else Inr (s, dstset, cardinality)))"

definition diff2_remove :: "set_env \<Rightarrow> allocator \<Rightarrow> byte list \<Rightarrow> sunion_state \<Rightarrow> sunion_state res" where
  "diff2_remove env m ele = (\<lambda>(s, dstset, cardinality).
     bindE (setTypeRemove env m dstset ele) (\<lambda>(dstset, removed).
     bindE (if removed then add_int cardinality (- 1) else Inr cardinality) (\<lambda>cardinality.
       Inr (s, dstset, cardinality))))"

text \<open>The argument \<open>first\<close> stands for \<open>j == 0\<close>.\<close>

fun diff2_loop :: "set_env \<Rightarrow> allocator \<Rightarrow> bool \<Rightarrow> byte list option list \<Rightarrow> sunion_state \<Rightarrow> sunion_state res" where
  "diff2_loop env m first [] st = Inr st"
| "diff2_loop env m first (None # ks) st = diff2_loop env m False ks st"
| "diff2_loop env m first (Some k # ks) st =
     bindE (set_iter_sds env m (st_get k) (st_put k) (if first then union_body env m else diff2_remove env m) st)
       (\<lambda>st. if snd (snd st) = 0 then Inr st else diff2_loop env m False ks st)"

definition sunionDiffGenericCommand ::
    "set_env \<Rightarrow> allocator \<Rightarrow> set_server \<Rightarrow> byte list list \<Rightarrow> byte list option \<Rightarrow> set_op \<Rightarrow> (set_server \<times> reply) res" where
  "sunionDiffGenericCommand env m s setkeys dstkey op =
     (case sunion_lookup s setkeys of
        None \<Rightarrow> Inr (s, ReplyWrongType)
      | Some sets \<Rightarrow>
          if op = SET_OP_DIFF \<and> sets = [] then Inl OutOfBounds
          else
            let (diff_algo, sets) = (if op = SET_OP_DIFF then diff_plan s sets else (1, sets)) in
            bindE (createIntsetObject m) (\<lambda>dstset.
            bindE (case op of
                     SET_OP_UNION \<Rightarrow> union_loop env m sets (s, dstset, 0)
                   | SET_OP_DIFF \<Rightarrow>
                       (case sets of
                          Some key0 # ks \<Rightarrow>
                            if diff_algo = 1
                            then set_iter_sds env m (st_get key0) (st_put key0) (diff1_body env m key0 ks) (s, dstset, 0)
                            else diff2_loop env m True sets (s, dstset, 0)
                        | _ \<Rightarrow> Inr (s, dstset, 0))) (\<lambda>(s, dstset, cardinality).
            case dstkey of
              None \<Rightarrow>
                bindE (set_iter_sds env m (\<lambda>(d, _). Inr d) (\<lambda>d (_, out). (d, out)) (\<lambda>ele (d, out). Inr (d, out @ [ele]))
                         (dstset, [])) (\<lambda>(_, out).
                  Inr (s, ReplyMulti cardinality out))
            | Some k \<Rightarrow> store_result (if op = SET_OP_UNION then ''sunionstore'' else ''sdiffstore'') k dstset s)))"

definition sunionCommand where "sunionCommand env m s keys = sunionDiffGenericCommand env m s keys None SET_OP_UNION"
definition sunionstoreCommand where
  "sunionstoreCommand env m s dst keys = sunionDiffGenericCommand env m s keys (Some dst) SET_OP_UNION"
definition sdiffCommand where "sdiffCommand env m s keys = sunionDiffGenericCommand env m s keys None SET_OP_DIFF"
definition sdiffstoreCommand where
  "sdiffstoreCommand env m s dst keys = sunionDiffGenericCommand env m s keys (Some dst) SET_OP_DIFF"

end
