(* ===== verification/SetCommandsCorrect.thy ===== *)
theory SetCommandsCorrect
  imports SetCommands
begin

text \<open>
  Correctness of the commands on sets. The key space is related to a map from keys to sets of strings;
  the rule for loops over a set carries the proofs of SINTER, SUNION and SDIFF.
\<close>

section \<open>The key space as a map to sets\<close>

text \<open>A key holds a set of strings, \<open>Some (Some M)\<close>, or an object of another type, \<open>Some None\<close>.\<close>

definition obj_abs :: "robj \<Rightarrow> byte list set option" where
  "obj_abs x = (case x of RSet obj \<Rightarrow> Some (set_members obj) | ROther \<Rightarrow> None)"

definition db_abs :: "set_server \<Rightarrow> byte list \<Rightarrow> byte list set option option" where
  "db_abs s k = map_option obj_abs (ss_db s k)"

text \<open>Every set is well formed and not empty: the commands delete a key together with its last member.\<close>

definition srv_inv :: "set_env \<Rightarrow> set_server \<Rightarrow> bool" where
  "srv_inv env s \<longleftrightarrow>
     (\<forall>k obj. ss_db s k = Some (RSet obj) \<longrightarrow> set_inv env obj \<and> set_room obj 0 \<and> set_members obj \<noteq> {})"

text \<open>What reading a set may change: the progress of an incremental rehash.\<close>

definition srv_same :: "set_env \<Rightarrow> set_server \<Rightarrow> set_server \<Rightarrow> bool" where
  "srv_same env s s' \<longleftrightarrow>
     srv_inv env s' \<and> db_abs s' = db_abs s \<and> ss_dirty s' = ss_dirty s \<and> ss_events s' = ss_events s"

lemma srv_same_refl: "srv_inv env s \<Longrightarrow> srv_same env s s"
  by (simp add: srv_same_def)

lemma srv_same_trans: "srv_same env s s' \<Longrightarrow> srv_same env s' s'' \<Longrightarrow> srv_same env s s''"
  by (simp add: srv_same_def)

lemma obj_abs_simps [simp]: "obj_abs (RSet obj) = Some (set_members obj)" "obj_abs ROther = None" "obj_abs x = None \<longleftrightarrow> x = ROther"
  by (simp_all add: obj_abs_def split: robj.splits)

lemma db_abs_simps [simp]:
  "db_abs s k = None \<longleftrightarrow> ss_db s k = None"
  "db_abs s k = Some None \<longleftrightarrow> ss_db s k = Some ROther"
  "db_abs (emit es s) = db_abs s" "db_abs (add_dirty n s) = db_abs s"
  by (simp_all add: db_abs_def emit_def add_dirty_def fun_eq_iff)

lemma srv_inv_simps [simp]: "srv_inv env (emit es s) = srv_inv env s" "srv_inv env (add_dirty n s) = srv_inv env s"
  by (simp_all add: srv_inv_def emit_def add_dirty_def)

lemma srv_fields [simp]:
  "ss_db (emit es s) = ss_db s" "ss_db (add_dirty n s) = ss_db s" "ss_dirty (emit es s) = ss_dirty s"
  "ss_dirty (add_dirty n s) = ss_dirty s + n" "ss_events (add_dirty n s) = ss_events s"
  "ss_db (set_put k obj s) = (ss_db s)(k \<mapsto> RSet obj)" "ss_dirty (set_put k obj s) = ss_dirty s"
  "ss_events (set_put k obj s) = ss_events s" "ss_events (emit es s) = ss_events s @ es"
  by (simp_all add: emit_def add_dirty_def set_put_def)

lemma db_abs_put [simp]: "db_abs (set_put k obj s) = (db_abs s)(k \<mapsto> Some (set_members obj))"
  by (auto simp: db_abs_def fun_eq_iff)

lemma srv_inv_put:
  "srv_inv env s \<Longrightarrow> set_inv env obj \<Longrightarrow> set_room obj 0 \<Longrightarrow> set_members obj \<noteq> {} \<Longrightarrow> srv_inv env (set_put k obj s)"
  by (auto simp: srv_inv_def)

lemma dbDelete_abs [simp]:
  "db_abs (fst (dbDelete s k)) = (db_abs s)(k := None)" "snd (dbDelete s k) \<longleftrightarrow> db_abs s k \<noteq> None"
  "ss_db (fst (dbDelete s k)) = (ss_db s)(k := None)" "ss_dirty (fst (dbDelete s k)) = ss_dirty s"
  "ss_events (fst (dbDelete s k)) = ss_events s"
  by (auto simp: dbDelete_def db_abs_def fun_eq_iff)

lemma srv_inv_delete [simp]: "srv_inv env s \<Longrightarrow> srv_inv env (fst (dbDelete s k))"
  by (auto simp: srv_inv_def)

lemma dbAdd_put: "ss_db s k = None \<Longrightarrow> dbAdd s k obj = Inr (set_put k obj s)"
  by (simp add: dbAdd_def set_put_def)

lemma db_abs_set:
  assumes "db_abs s k = Some (Some M)" "srv_inv env s"
  obtains obj where "ss_db s k = Some (RSet obj)" "set_at k s = Inr obj" "set_inv env obj" "set_room obj 0"
    "set_members obj = M" "M \<noteq> {}"
proof -
  obtain z where z: "ss_db s k = Some z" "obj_abs z = Some M" using assms(1) by (auto simp: db_abs_def)
  then obtain obj where "z = RSet obj" by (cases z) auto
  then show ?thesis using z assms(2) that[of obj] by (auto simp: srv_inv_def set_at_def)
qed

lemma srv_same_put:
  assumes "srv_inv env s" "ss_db s k = Some (RSet obj)" "set_inv env obj'" "set_room obj' 0" "set_members obj' = set_members obj"
  shows "srv_same env s (set_put k obj' s)"
proof -
  have "set_members obj \<noteq> {}" using assms(1,2) by (simp add: srv_inv_def)
  moreover have "db_abs s k = Some (Some (set_members obj))" using assms(2) by (simp add: db_abs_def)
  ultimately show ?thesis using assms srv_inv_put[of env s obj' k] by (auto simp: srv_same_def fun_eq_iff)
qed

lemma set_put_same [simp]: "ss_db s k = Some (RSet obj) \<Longrightarrow> set_put k obj s = s"
  by (simp add: set_put_def fun_upd_idem)

section \<open>Loops over a set\<close>

text \<open>
  The rule for a loop: the body keeps an invariant over the members that are left, and does not touch
  the set itself. The assertion on the fingerprint of a dictionary holds when the iterator is released.
\<close>

lemma set_foreach_yields:
  assumes obj: "set_inv env obj"
    and get: "\<And>L s. I L s \<Longrightarrow> get s = Inr obj \<and> put obj s = s"
    and body: "\<And>x L s. I (x # L) s \<Longrightarrow> yields m (body x s) (I L)"
  shows "I L s \<Longrightarrow> si_rem env obj si L \<Longrightarrow> length L < n \<Longrightarrow> yields m (set_foreach n env get put body si s) (I [])"
proof (induction n arbitrary: L s si)
  case (Suc n)
  show ?case
  proof (cases L)
    case Nil
    then obtain si' where "setTypeNext env obj si = Inr (obj, si', None)" "setTypeReleaseIterator env obj si' = Inr obj"
      using setTypeNext_end[OF obj] Suc.prems by blast
    then show ?thesis using get[OF Suc.prems(1)] Suc.prems(1) Nil by simp
  next
    case (Cons x L')
    then obtain si' where n: "setTypeNext env obj si = Inr (obj, si', Some x)" "si_rem env obj si' L'"
      using setTypeNext_elem[OF obj] Suc.prems by blast
    have "yields m (bindE (body x s) (\<lambda>s. set_foreach n env get put body si' s)) (I [])"
      by (rule yields_bindE[OF body]) (use Suc Cons n in auto)
    then show ?thesis using get[OF Suc.prems(1)] n by simp
  qed
qed simp

lemma set_iter_yields:
  assumes "set_inv env obj" "I (set_order obj) s"
    and get: "\<And>L s. I L s \<Longrightarrow> get s = Inr obj \<and> put obj s = s"
    and "\<And>x L s. I (x # L) s \<Longrightarrow> yields m (body x s) (I L)"
  shows "yields m (set_iter env get put body s) (I [])"
proof -
  have "yields m (set_foreach (setTypeSize obj + 1) env get put body setTypeInitIterator s) (I [])"
    by (rule set_foreach_yields[where I = I and L = "set_order obj", OF assms(1)])
      (use assms setTypeInitIterator_rem set_order_length in auto)
  then show ?thesis using get[OF assms(2)] by (simp add: set_iter_def)
qed

text \<open>With the members as strings, the invariant is over what is left of an enumeration of the set.\<close>

lemma set_iter_sds_yields:
  assumes m: "malloc_ok m" and obj: "set_inv env obj" and I: "\<And>xs. set xs = set_members obj \<Longrightarrow> distinct xs \<Longrightarrow> I xs s"
    and get: "\<And>L s. I L s \<Longrightarrow> get s = Inr obj \<and> put obj s = s"
    and body: "\<And>x L s. I (x # L) s \<Longrightarrow> x \<in> set_members obj \<Longrightarrow> sds_small x \<Longrightarrow> yields m (body x s) (I L)"
  shows "yields m (set_iter_sds env m get put body s) (I [])"
proof -
  define J where "J L s = (I (map elem_str L) s \<and> set L \<subseteq> set (set_order obj))" for L s
  have "yields m (set_iter env get put (\<lambda>x s. bindE (set_elem_sds m x) (\<lambda>ele. body ele s)) s) (J [])"
  proof (rule set_iter_yields[OF obj])
    show "J (set_order obj) s"
      using I[of "map elem_str (set_order obj)"] set_order_members[OF obj] set_order_distinct[OF obj] by (simp add: J_def)
    show "get s = Inr obj \<and> put obj s = s" if "J L s" for L s using that get by (auto simp: J_def)
    show "yields m (bindE (set_elem_sds m x) (\<lambda>ele. body ele s)) (J L)" if J: "J (x # L) s" for x L s
    proof (rule yields_bindE[OF set_elem_sds_yields[OF m obj, of x]])
      have "elem_str x \<in> set_members obj" using J set_order_members[OF obj] by (auto simp: J_def)
      then show "yields m (body v s) (J L)" if "v = elem_str x" for v
        using that J body[of "elem_str x" "map elem_str L" s] set_members_small[OF obj]
        by (auto simp: J_def elim!: yields_mono)
    qed (use J in \<open>simp add: J_def\<close>)
  qed
  then show ?thesis unfolding set_iter_sds_def by (rule yields_mono) (simp add: J_def)
qed

lemma bindE_assoc: "bindE (bindE r f) g = bindE r (\<lambda>x. bindE (f x) g)"
  by (cases r) simp_all

lemma set_insert_by [simp]: "set (insert_by cmp x xs) = insert x (set xs)"
  by (induction xs) auto

lemma set_c_qsort [simp]: "set (c_qsort cmp xs) = set xs"
  by (induction xs) (auto simp: c_qsort_def)

lemma createIntsetObject_yields:
  "malloc_ok m \<Longrightarrow> yields m (createIntsetObject m) (\<lambda>d. set_inv env d \<and> set_members d = {} \<and> set_room d (2 ^ 29 - 1))"
  unfolding createIntsetObject_def
  by (auto intro!: yields_bindE[OF intsetNew_yields] simp: set_inv_def set_members_def set_room_def intset_has_room_def)

lemma set_room_mono: "set_room d k \<Longrightarrow> k' \<le> k \<Longrightarrow> set_room d k'"
  by (cases d) (auto simp: set_room_def intset_has_room_def)

text \<open>The effect of storing a result.\<close>

definition put_result :: "byte list \<Rightarrow> byte list set \<Rightarrow> set_server \<Rightarrow> byte list \<Rightarrow> byte list set option option" where
  "put_result k M s = (db_abs s)(k := if M = {} then None else Some (Some M))"

lemma put_result_same: "srv_same env s s' \<Longrightarrow> put_result k M s' = put_result k M s"
  by (simp add: srv_same_def put_result_def)

lemma store_result_ok:
  assumes "srv_inv env s" "set_inv env d" "set_room d 0"
  shows "\<exists>s'. store_result ev k d s = Inr (s', ReplyInt (int (card (set_members d)))) \<and> srv_inv env s'
    \<and> db_abs s' = put_result k (set_members d) s \<and> ss_dirty s' = ss_dirty s + 1"
proof -
  obtain s1 b where s1: "dbDelete s k = (s1, b)" by (cases "dbDelete s k")
  then have s1': "srv_inv env s1" "db_abs s1 = (db_abs s)(k := None)" "ss_db s1 k = None" "ss_dirty s1 = ss_dirty s"
    using srv_inv_delete[OF assms(1), of k] dbDelete_abs[of s k] by simp_all
  have c: "setTypeSize d = card (set_members d)" "setTypeSize d > 0 \<longleftrightarrow> set_members d \<noteq> {}"
    using setTypeSize_card[OF assms(2)] set_members_finite[OF assms(2)] by (auto simp: card_gt_0_iff)
  show ?thesis
  proof (cases "set_members d = {}")
    case True
    then show ?thesis using s1 s1' c by (auto simp: store_result_def put_result_def)
  next
    case False
    then show ?thesis using s1 s1' c srv_inv_put[OF s1'(1) assms(2,3), of k]
      by (auto simp: store_result_def put_result_def dbAdd_put fun_eq_iff)
  qed
qed

section \<open>Intersection\<close>

lemma elem_member_yields:
  assumes m: "malloc_ok m" and src: "set_inv env obj0" "x \<in> set (set_order obj0)"
    and obj: "set_inv env obj" "set_room obj 0"
  shows "yields m (case (x, obj) of
       (EleInt v, SetIntset is) \<Rightarrow> bindE (intsetFind is v) (\<lambda>b. Inr (obj, b))
     | (EleInt v, SetHT _) \<Rightarrow> bindE (sds_of_ll m v) (\<lambda>ele. setTypeIsMember env obj ele)
     | (EleSds ele, _) \<Rightarrow> setTypeIsMember env obj ele)
    (\<lambda>(obj', b). set_inv env obj' \<and> set_room obj' 0 \<and> set_members obj' = set_members obj \<and> b = (elem_str x \<in> set_members obj))"
proof -
  have small: "sds_small (elem_str x)"
    using src set_order_members[OF src(1)] set_members_small[OF src(1)] by blast
  note mem = setTypeIsMember_ok[OF obj(1) small obj(2)]
  show ?thesis
  proof (cases x)
    case (EleSds e)
    then show ?thesis using mem by (auto simp: elem_str_def split: setobj.splits)
  next
    case (EleInt v)
    then have v: "int64 v" using src intset_elems_int64 by (cases obj0) (auto simp: set_order_def set_inv_def)
    show ?thesis
    proof (cases obj)
      case (SetHT d)
      show ?thesis unfolding EleInt SetHT prod.case set_elem.case setobj.case
        by (rule yields_bindE[OF sds_of_ll_yields[OF m v]]) (use mem SetHT EleInt in \<open>auto simp: elem_str_def\<close>)
    next
      case (SetIntset "is")
      then have "intsetFind is v = Inr (v \<in> intset_set is)"
        using obj intset.find_eq[of "is" v 0] v by (simp add: set_inv_def set_room_def)
      then show ?thesis using SetIntset EleInt obj by (simp add: elem_str_def set_members_def)
    qed
  qed
qed

lemma sinter_others_yields:
  assumes m: "malloc_ok m" and src: "set_inv env obj0" "x \<in> set (set_order obj0)"
  shows "srv_inv env s \<Longrightarrow> \<forall>k \<in> set ks. db_abs s k = Some (Some (M k)) \<Longrightarrow>
    yields m (sinter_others env m key0 ks x s)
      (\<lambda>(s', b). srv_same env s s' \<and> ss_db s' key0 = ss_db s key0 \<and> b = (\<forall>k \<in> set ks. k = key0 \<or> elem_str x \<in> M k))"
proof (induction ks arbitrary: s)
  case (Cons k ks)
  show ?case
  proof (cases "k = key0")
    case True
    then show ?thesis using Cons by simp
  next
    case False
    obtain obj where obj: "ss_db s k = Some (RSet obj)" "set_at k s = Inr obj" "set_inv env obj" "set_room obj 0"
      "set_members obj = M k" using db_abs_set[OF bspec[OF Cons.prems(2)] Cons.prems(1), of k] by (metis list.set_intros(1))
    have next_ok: "yields m (sinter_others env m key0 ks x (set_put k obj' s))
        (\<lambda>(s', b). srv_same env s s' \<and> ss_db s' key0 = ss_db s key0 \<and> b = (\<forall>k \<in> set ks. k = key0 \<or> elem_str x \<in> M k))"
      if same: "srv_same env s (set_put k obj' s)" for obj'
    proof (rule yields_mono[OF Cons.IH])
      show "srv_inv env (set_put k obj' s)" "\<forall>k' \<in> set ks. db_abs (set_put k obj' s) k' = Some (Some (M k'))"
        using same Cons.prems(2) by (simp_all add: srv_same_def del: db_abs_put)
    qed (use False srv_same_trans[OF same] in auto)
    have "yields m (bindE (case (x, obj) of
         (EleInt v, SetIntset is) \<Rightarrow> bindE (intsetFind is v) (\<lambda>b. Inr (obj, b))
       | (EleInt v, SetHT _) \<Rightarrow> bindE (sds_of_ll m v) (\<lambda>ele. setTypeIsMember env obj ele)
       | (EleSds ele, _) \<Rightarrow> setTypeIsMember env obj ele) (\<lambda>(obj, b).
          if b then sinter_others env m key0 ks x (set_put k obj s) else Inr (set_put k obj s, False)))
      (\<lambda>(s', b). srv_same env s s' \<and> ss_db s' key0 = ss_db s key0 \<and> b = (\<forall>k \<in> set (k # ks). k = key0 \<or> elem_str x \<in> M k))"
    proof (rule yields_bindE[OF elem_member_yields[OF m src obj(3,4)]], clarify, goal_cases)
      case (1 obj' b)
      then have same: "srv_same env s (set_put k obj' s)" using srv_same_put[OF Cons.prems(1) obj(1)] by blast
      show ?case
      proof (cases "elem_str x \<in> M k")
        case True
        then show ?thesis using next_ok[OF same] obj(5) by simp
      qed (use same False obj(5) in auto)
    qed
    then show ?thesis using False obj(2) by simp
  qed
qed (simp add: srv_same_refl)

text \<open>The result collected from the members \<open>D\<close>, with room for \<open>k\<close> more.\<close>

definition sinter_dst ::
    "set_env \<Rightarrow> (byte list \<Rightarrow> bool) \<Rightarrow> bool \<Rightarrow> set_elem list \<Rightarrow> nat \<Rightarrow> setobj option \<times> nat \<times> byte list list \<Rightarrow> bool" where
  "sinter_dst env P store D k = (\<lambda>(d, n, out).
     case d of
       None \<Rightarrow> \<not> store \<and> out = filter P (map elem_str D) \<and> n = length out
     | Some d \<Rightarrow> store \<and> set_inv env d \<and> set_members d = set (filter P (map elem_str D)) \<and> set_room d k)"

text \<open>What the main loop has done when the members \<open>L\<close> are left.\<close>

definition sinter_done ::
    "set_env \<Rightarrow> set_server \<Rightarrow> byte list \<Rightarrow> setobj \<Rightarrow> (byte list \<Rightarrow> bool) \<Rightarrow> bool \<Rightarrow> set_elem list \<Rightarrow> sinter_state \<Rightarrow> bool" where
  "sinter_done env s0 key0 obj P store L = (\<lambda>(s, r).
     srv_same env s0 s \<and> ss_db s key0 = Some (RSet obj) \<and>
     (\<exists>D. set_order obj = D @ L \<and> sinter_dst env P store D (length L) r))"

lemma sinter_body_yields:
  assumes m: "malloc_ok m" and obj: "set_inv env obj" and ks: "\<forall>k \<in> set ks. db_abs s0 k = Some (Some (M k))"
    and P: "\<And>v. P v \<longleftrightarrow> (\<forall>k \<in> set ks. k = key0 \<or> v \<in> M k)"
    and st: "sinter_done env s0 key0 obj P store (x # L) st"
  shows "yields m (sinter_body env m key0 ks x st) (sinter_done env s0 key0 obj P store L)"
proof -
  obtain s d n out where st_eq: "st = (s, d, n, out)" by (cases st)
  obtain D where s: "srv_same env s0 s" "ss_db s key0 = Some (RSet obj)" and D: "set_order obj = D @ x # L"
    and dst: "sinter_dst env P store D (Suc (length L)) (d, n, out)"
    using st unfolding sinter_done_def st_eq prod.case list.size by auto
  have x: "x \<in> set (set_order obj)" "set_order obj = (D @ [x]) @ L" by (simp_all add: D)
  have small: "sds_small (elem_str x)" using x(1) set_order_members[OF obj] set_members_small[OF obj] by blast
  have inv: "srv_inv env s" "\<forall>k \<in> set ks. db_abs s k = Some (Some (M k))" using s ks by (auto simp: srv_same_def)
  show ?thesis unfolding sinter_body_def st_eq prod.case
  proof (rule yields_bindE[OF sinter_others_yields[OF m obj x(1) inv]], clarify, goal_cases)
    case (1 s' b)
    then have s': "srv_same env s0 s'" "ss_db s' key0 = Some (RSet obj)" using s srv_same_trans by auto
    have b: "(\<forall>k \<in> set ks. k = key0 \<or> elem_str x \<in> M k) \<longleftrightarrow> P (elem_str x)" using P by blast
    show ?case
    proof (cases "P (elem_str x)")
      case False
      then have "sinter_dst env P store (D @ [x]) (length L) (d, n, out)"
        using dst set_room_mono[of _ "Suc (length L)" "length L"] by (auto simp: sinter_dst_def split: option.splits)
      then show ?thesis using False b s' x(2) unfolding sinter_done_def by auto
    next
      case True
      show ?thesis
      proof (cases d)
        case None
        then have "sinter_dst env P store (D @ [x]) (length L) (None, n + 1, out @ [elem_str x])"
          using dst True by (simp add: sinter_dst_def)
        then show ?thesis using None True b s' x(2) unfolding sinter_done_def by auto
      next
        case (Some d1)
        then have d1: "store" "set_inv env d1" "set_members d1 = set (filter P (map elem_str D))" "set_room d1 (Suc (length L))"
          using dst by (auto simp: sinter_dst_def)
        have "yields m (bindE (set_elem_sds m x) (\<lambda>ele. bindE (setTypeAdd env m d1 ele) (\<lambda>(d, _). Inr (s', Some d, n, out))))
            (sinter_done env s0 key0 obj P store L)"
        proof (rule yields_bindE[OF set_elem_sds_yields[OF m obj x(1)]], clarify,
            rule yields_bindE[OF set_type.add_yields[OF m d1(2) small d1(4)]], clarify, goal_cases)
          case (1 v d2)
          then have "sinter_dst env P store (D @ [x]) (length L) (Some d2, n, out)"
            using d1 True by (simp add: sinter_dst_def)
          then show ?case using s' x(2) unfolding sinter_done_def by auto
        qed
        then show ?thesis using Some True b by simp
      qed
    qed
  qed
qed

lemma sinter_lookup_all:
  "\<forall>k \<in> set ks. \<exists>M. db_abs s k = Some (Some M) \<Longrightarrow> sinter_lookup s ks = AllSets"
proof (induction ks)
  case (Cons k ks)
  then obtain M where "db_abs s k = Some (Some M)" by auto
  then obtain z where "ss_db s k = Some z" "obj_abs z = Some M" by (auto simp: db_abs_def)
  then show ?case using Cons by (cases z) auto
qed simp

text \<open>The set a key stands for; a key that does not exist stands for the empty set.\<close>

definition db_set :: "set_server \<Rightarrow> byte list \<Rightarrow> byte list set" where
  "db_set s k = (case db_abs s k of Some (Some M) \<Rightarrow> M | _ \<Rightarrow> {})"

text \<open>No key of another type.\<close>

definition keys_ok :: "set_server \<Rightarrow> byte list list \<Rightarrow> bool" where
  "keys_ok s ks \<longleftrightarrow> (\<forall>k \<in> set ks. db_abs s k \<noteq> Some None)"

lemma db_set_Some: "db_abs s k \<noteq> None \<Longrightarrow> db_abs s k \<noteq> Some None \<Longrightarrow> db_abs s k = Some (Some (db_set s k))"
  by (auto simp: db_set_def simp del: db_abs_simps split: option.splits)

lemma db_set_None: "ss_db s k = None \<Longrightarrow> db_set s k = {}"
  by (simp add: db_set_def db_abs_def)

lemma sinter_lookup_missing:
  "keys_ok s ks \<Longrightarrow> k \<in> set ks \<Longrightarrow> ss_db s k = None \<Longrightarrow> sinter_lookup s ks = MissingKey"
  by (induction ks) (auto simp: keys_ok_def split: option.splits robj.splits)

lemma sinter_missing:
  assumes "srv_inv env s" "keys_ok s keys" "k \<in> set keys" "ss_db s k = None"
  shows "sinterGenericCommand env m s keys None = Inr (s, ReplyMulti 0 [])"
    and "\<exists>s'. sinterGenericCommand env m s keys (Some dst) = Inr (s', ReplyInt 0) \<and> srv_inv env s' \<and> db_abs s' = put_result dst {} s"
proof -
  obtain s1 b where s1: "dbDelete s dst = (s1, b)" by (cases "dbDelete s dst")
  then have "srv_inv env s1" "db_abs s1 = (db_abs s)(dst := None)"
    using srv_inv_delete[OF assms(1), of dst] dbDelete_abs[of s dst] by simp_all
  with s1 sinter_lookup_missing[OF assms(2-4)]
  show "sinterGenericCommand env m s keys None = Inr (s, ReplyMulti 0 [])"
    "\<exists>s'. sinterGenericCommand env m s keys (Some dst) = Inr (s', ReplyInt 0) \<and> srv_inv env s' \<and> db_abs s' = put_result dst {} s"
    by (auto simp: sinterGenericCommand_def put_result_def)
qed

lemma sinter_loop_yields:
  assumes m: "malloc_ok m" and inv: "srv_inv env s" and keys: "\<forall>k \<in> set (key0 # ks). db_abs s k = Some (Some (M k))"
    and d: "\<And>obj. ss_db s key0 = Some (RSet obj) \<Longrightarrow> sinter_dst env P store [] (length (set_order obj)) (d, 0, [])"
    and P: "\<And>v. P v \<longleftrightarrow> (\<forall>k \<in> set ks. k = key0 \<or> v \<in> M k)"
  shows "yields m (set_iter env (st_get key0) (st_put key0) (sinter_body env m key0 ks) (s, d, 0, []))
    (\<lambda>(s', r). srv_same env s s' \<and> (\<exists>D. distinct (map elem_str D) \<and> elem_str ` set D = M key0 \<and> sinter_dst env P store D 0 r))"
proof -
  obtain obj where obj: "ss_db s key0 = Some (RSet obj)" "set_inv env obj" "set_members obj = M key0"
    using db_abs_set[of s key0 "M key0"] keys inv by (metis list.set_intros(1))
  have "yields m (set_iter env (st_get key0) (st_put key0) (sinter_body env m key0 ks) (s, d, 0, []))
      (sinter_done env s key0 obj P store [])"
  proof (rule set_iter_yields[OF obj(2)])
    show "sinter_done env s key0 obj P store (set_order obj) (s, d, 0, [])"
      using d[OF obj(1)] obj(1) srv_same_refl[OF inv] by (auto simp: sinter_done_def)
    show "st_get key0 st = Inr obj \<and> st_put key0 obj st = st" if "sinter_done env s key0 obj P store L st" for L st
      using that by (cases st) (auto simp: sinter_done_def st_get_def st_put_def set_at_def)
    show "yields m (sinter_body env m key0 ks x st) (sinter_done env s key0 obj P store L)"
      if "sinter_done env s key0 obj P store (x # L) st" for x L st
      using sinter_body_yields[OF m obj(2) _ P that] keys by simp
  qed
  then show ?thesis
    by (rule yields_mono) (use set_order_members[OF obj(2)] set_order_distinct[OF obj(2)] obj(3) in \<open>auto simp: sinter_done_def\<close>)
qed

lemma db_set_finite: "srv_inv env s \<Longrightarrow> finite (db_set s k)"
  by (cases "db_abs s k") (auto simp: db_set_def split: option.splits elim!: db_abs_set[of s k _ env] dest!: set_members_finite)

text \<open>
  C3. SINTER replies with the intersection of the sets at its keys, without repetition and with the right
  count, for every choice of encodings, and SINTERSTORE stores it at the destination and replies with
  its cardinality. An empty result removes the destination, a missing key counts as an empty set, and
  the destination may be one of the sources. No other key changes; the sets stay well formed, and none
  of them is empty. The assertion on iterated dictionaries does not fail, repeated keys included.
\<close>

theorem sinter_computes_intersection:
  assumes m: "malloc_ok m" and inv: "srv_inv env s" and keys: "keys \<noteq> []" "keys_ok s keys"
    and size: "\<forall>k \<in> set keys. card (db_set s k) < 2 ^ 29"
  shows "yields m (sinterCommand env m s keys) (\<lambda>(s', r). srv_same env s s' \<and>
      (\<exists>out. r = ReplyMulti (int (length out)) out \<and> distinct out \<and> set out = (\<Inter>k \<in> set keys. db_set s k)))
    \<and> yields m (sinterstoreCommand env m s dst keys) (\<lambda>(s', r). srv_inv env s' \<and>
      db_abs s' = put_result dst (\<Inter>k \<in> set keys. db_set s k) s \<and> r = ReplyInt (int (card (\<Inter>k \<in> set keys. db_set s k))))"
proof (cases "\<exists>k \<in> set keys. ss_db s k = None")
  case True
  then obtain k where k: "k \<in> set keys" "ss_db s k = None" by blast
  then have "(\<Inter>k \<in> set keys. db_set s k) = {}" using db_set_None by blast
  then show ?thesis using sinter_missing(1)[OF inv keys(2) k, of m] sinter_missing(2)[OF inv keys(2) k, of m dst] srv_same_refl[OF inv]
    by (auto simp: sinterCommand_def sinterstoreCommand_def)
next
  case False
  then have all: "\<forall>k \<in> set keys. db_abs s k = Some (Some (db_set s k))"
    using keys(2) db_set_Some by (simp add: keys_ok_def)
  obtain key0 ks where sorted: "c_qsort (qsortCompareSetsByCardinality s) keys = key0 # ks"
    using set_c_qsort[of "qsortCompareSetsByCardinality s" keys] keys(1)
    by (cases "c_qsort (qsortCompareSetsByCardinality s) keys") auto
  then have set_keys: "set (key0 # ks) = set keys" using set_c_qsort by metis
  define P where "P v = (\<forall>k \<in> set ks. k = key0 \<or> v \<in> db_set s k)" for v
  have I: "{v \<in> db_set s key0. P v} = (\<Inter>k \<in> set keys. db_set s k)" by (auto simp: P_def simp flip: set_keys)
  have look: "sinter_lookup s keys = AllSets" using sinter_lookup_all all by blast
  note loop = sinter_loop_yields[OF m inv all[folded set_keys], of P _ _, OF _ P_def]
  have res: "set (filter P (map elem_str D)) = (\<Inter>k \<in> set keys. db_set s k)" if "elem_str ` set D = db_set s key0" for D
    using that I by auto
  have "yields m (sinterGenericCommand env m s keys None) (\<lambda>(s', r). srv_same env s s' \<and>
      (\<exists>out. r = ReplyMulti (int (length out)) out \<and> distinct out \<and> set out = (\<Inter>k \<in> set keys. db_set s k)))"
    unfolding sinterGenericCommand_def look sorted lookup_result.case list.case option.case bindE_simps
  proof (rule yields_bindE[OF loop[of False]], goal_cases)
    case (2 st)
    then show ?case using res by (auto simp: sinter_dst_def split: option.splits)
  qed (simp add: sinter_dst_def)
  moreover have "yields m (sinterGenericCommand env m s keys (Some dst)) (\<lambda>(s', r). srv_inv env s' \<and>
      db_abs s' = put_result dst (\<Inter>k \<in> set keys. db_set s k) s \<and> r = ReplyInt (int (card (\<Inter>k \<in> set keys. db_set s k))))"
    unfolding sinterGenericCommand_def look sorted lookup_result.case list.case option.case bindE_assoc bindE_simps
  proof (rule yields_bindE[OF createIntsetObject_yields[OF m, of env]], rule yields_bindE[OF loop[of True]], goal_cases)
    case (1 d obj)
    then have "db_abs s key0 = Some (Some (set_members obj))" by (simp add: db_abs_def)
    then have "set_members obj = db_set s key0" by (simp add: db_set_def)
    moreover have "set_inv env obj" using 1(2) inv by (simp add: srv_inv_def)
    moreover have "card (db_set s key0) < 2 ^ 29" using size set_keys by auto
    ultimately have "length (set_order obj) \<le> 2 ^ 29 - 1" using set_order_length[of env obj] setTypeSize_card[of env obj] by simp
    then show ?case using 1(1) set_room_mono by (auto simp: sinter_dst_def)
  next
    case (2 d st)
    obtain s1 d1 n out where st: "st = (s1, d1, n, out)" by (cases st)
    then obtain d2 where "d1 = Some d2" "set_inv env d2" "set_room d2 0" "set_members d2 = (\<Inter>k \<in> set keys. db_set s k)"
      "srv_same env s s1" using 2 res by (auto simp: sinter_dst_def split: option.splits)
    moreover from this have "srv_inv env s1" by (simp add: srv_same_def)
    ultimately show ?case using store_result_ok[of env s1 d2 "''sinterstore''" dst] put_result_same[of env s s1]
      by (auto simp: st)
  qed
  ultimately show ?thesis by (simp add: sinterCommand_def sinterstoreCommand_def)
qed

section \<open>Union and difference\<close>

lemma set_room_card:
  assumes "set_inv env d" "card (set_members d) + k < 2 ^ 29"
  shows "set_room d k"
  using assms setTypeSize_card[OF assms(1)] by (cases d) (auto simp: set_room_def setTypeSize_def intset_has_room_def intsetLen_def)

text \<open>
  The state of the loops: the server is as before but for rehashing, the temporary set has the members
  \<open>A\<close>, and they are counted.
\<close>

definition ud_ok :: "set_env \<Rightarrow> set_server \<Rightarrow> byte list set \<Rightarrow> sunion_state \<Rightarrow> bool" where
  "ud_ok env s0 A = (\<lambda>(s, d, n).
     srv_same env s0 s \<and> set_inv env d \<and> set_members d = A \<and> n = int (card A))"

definition at_key :: "byte list \<Rightarrow> setobj \<Rightarrow> set_server \<times> 'r \<Rightarrow> bool" where
  "at_key k obj st \<longleftrightarrow> ss_db (fst st) k = Some (RSet obj)"

lemma at_key_get: "at_key k obj st \<Longrightarrow> st_get k st = Inr obj \<and> st_put k obj st = st"
  by (cases st) (simp add: at_key_def st_get_def st_put_def set_at_def)

lemma ud_ok_at:
  assumes "ud_ok env s0 A st" "db_abs s0 k = Some (Some M)"
  obtains obj where "at_key k obj st" "set_inv env obj" "set_members obj = M"
proof -
  have "db_abs (fst st) k = Some (Some M)" "srv_inv env (fst st)" using assms by (auto simp: ud_ok_def srv_same_def)
  from db_abs_set[OF this] that show ?thesis by (auto simp: at_key_def)
qed

lemma ud_ok_finite: "ud_ok env s0 A st \<Longrightarrow> finite A"
  by (auto simp: ud_ok_def dest: set_members_finite)

lemma union_body_yields:
  assumes m: "malloc_ok m" and st: "ud_ok env s0 A st" "at_key k obj st" and x: "sds_small x" and A: "card A + 1 < 2 ^ 29"
  shows "yields m (union_body env m x st) (\<lambda>st'. ud_ok env s0 (insert x A) st' \<and> at_key k obj st')"
proof -
  obtain s d n where s: "st = (s, d, n)" by (cases st)
  then have d: "srv_same env s0 s" "set_inv env d" "set_members d = A" "n = int (card A)" using st by (auto simp: ud_ok_def)
  have "set_room d (Suc 0)" using set_room_card[OF d(2), of 1] d(3) A by simp
  from set_type.add_yields[OF m d(2) x this] show ?thesis unfolding union_body_def s prod.case
  proof (rule yields_bindE, clarify, goal_cases)
    case (1 d' b)
    then show ?case using d A ud_ok_finite[OF st(1)] st(2)
      by (cases "x \<in> A") (auto simp: add_int_def ud_ok_def at_key_def s insert_absorb)
  qed
qed

lemma union_iter_yields:
  assumes m: "malloc_ok m" and st: "ud_ok env s0 A st" and k: "db_abs s0 k = Some (Some M)"
    and B: "finite (A \<union> M)" "card (A \<union> M) + 1 < 2 ^ 29"
  shows "yields m (set_iter_sds env m (st_get k) (st_put k) (union_body env m) st) (ud_ok env s0 (A \<union> M))"
proof -
  obtain obj where obj: "at_key k obj st" "set_inv env obj" "set_members obj = M" using ud_ok_at[OF st k] .
  define I where "I L st = (\<exists>A'. ud_ok env s0 A' st \<and> at_key k obj st \<and> A' \<union> set L = A \<union> M)" for L st
  have "yields m (set_iter_sds env m (st_get k) (st_put k) (union_body env m) st) (I [])"
  proof (rule set_iter_sds_yields[OF m obj(2)])
    show "I xs st" if "set xs = set_members obj" for xs using that st obj by (auto simp: I_def)
    show "st_get k st = Inr obj \<and> st_put k obj st = st" if "I L st" for L st
      using that unfolding I_def by (blast dest: at_key_get)
    show "yields m (union_body env m x st) (I L)" if I: "I (x # L) st" and sx: "sds_small x" for x L st
    proof -
      obtain A' where A': "ud_ok env s0 A' st" "at_key k obj st" "A' \<union> set (x # L) = A \<union> M" using I by (auto simp: I_def)
      then have "card A' \<le> card (A \<union> M)" by (intro card_mono B) auto
      then show ?thesis using union_body_yields[OF m A'(1,2) sx] A'(3) B(2)
        by (fastforce simp: I_def elim!: yields_mono)
    qed
  qed
  then show ?thesis by (rule yields_mono) (auto simp: I_def)
qed

text \<open>The union of the sets behind the pointers.\<close>

definition ptr_union :: "set_server \<Rightarrow> byte list option list \<Rightarrow> byte list set" where
  "ptr_union s ps = (\<Union>k \<in> {k. Some k \<in> set ps}. db_set s k)"

lemma ptr_union_simps [simp]:
  "ptr_union s [] = {}" "ptr_union s (None # ps) = ptr_union s ps" "ptr_union s (Some k # ps) = db_set s k \<union> ptr_union s ps"
  by (auto simp: ptr_union_def)

definition ptrs_ok :: "set_server \<Rightarrow> byte list option list \<Rightarrow> bool" where
  "ptrs_ok s ps \<longleftrightarrow> (\<forall>k. Some k \<in> set ps \<longrightarrow> db_abs s k = Some (Some (db_set s k)))"

lemma ptrs_ok_simps [simp]:
  "ptrs_ok s []" "ptrs_ok s (None # ps) = ptrs_ok s ps"
  "ptrs_ok s (Some k # ps) \<longleftrightarrow> db_abs s k = Some (Some (db_set s k)) \<and> ptrs_ok s ps"
  by (auto simp: ptrs_ok_def)

lemma sunion_lookup_ok:
  "keys_ok s ks \<Longrightarrow> \<exists>ps. sunion_lookup s ks = Some ps \<and> ptrs_ok s ps \<and> ptr_union s ps = (\<Union>k \<in> set ks. db_set s k) \<and> length ps = length ks"
proof (induction ks)
  case (Cons k ks)
  then obtain ps where ps: "sunion_lookup s ks = Some ps" "ptrs_ok s ps" "ptr_union s ps = (\<Union>k \<in> set ks. db_set s k)" "length ps = length ks"
    by (auto simp: keys_ok_def)
  consider "ss_db s k = None" | obj where "ss_db s k = Some (RSet obj)"
    using Cons.prems by (cases "ss_db s k") (auto simp: keys_ok_def, metis robj.exhaust)
  then show ?case
  proof cases
    case 2
    then have "db_abs s k = Some (Some (db_set s k))" by (simp add: db_set_def db_abs_def)
    then show ?thesis using 2 ps by simp
  qed (use ps db_set_None in simp)
qed simp

lemma union_loop_yields:
  assumes m: "malloc_ok m"
  shows "ud_ok env s0 A st \<Longrightarrow> ptrs_ok s0 ps \<Longrightarrow> finite (A \<union> ptr_union s0 ps) \<Longrightarrow> card (A \<union> ptr_union s0 ps) + 1 < 2 ^ 29 \<Longrightarrow>
    yields m (union_loop env m ps st) (ud_ok env s0 (A \<union> ptr_union s0 ps))"
proof (induction ps arbitrary: A st)
  case (Cons p ps)
  show ?case
  proof (cases p)
    case (Some k)
    then have fin: "finite (A \<union> db_set s0 k)" and k: "db_abs s0 k = Some (Some (db_set s0 k))" using Cons.prems by auto
    have "card (A \<union> db_set s0 k) \<le> card (A \<union> ptr_union s0 (p # ps))"
      by (rule card_mono[OF Cons.prems(3)]) (auto simp: Some)
    then have c: "card (A \<union> db_set s0 k) + 1 < 2 ^ 29" using Cons.prems(4) by linarith
    show ?thesis unfolding Some union_loop.simps
      by (rule yields_bindE[OF union_iter_yields[OF m Cons.prems(1) k fin c]])
        (use Cons.IH[of "A \<union> db_set s0 k"] Cons.prems Some in \<open>simp add: Un_assoc\<close>)
  qed (use Cons in simp)
qed simp

text \<open>Algorithm 1.\<close>

lemma diff_others_ok:
  "srv_inv env s \<Longrightarrow> ptrs_ok s ps \<Longrightarrow> sds_small x \<Longrightarrow> x \<in> db_set s key0 \<Longrightarrow>
   \<exists>s'. diff_others env key0 ps x s = Inr (s', x \<notin> ptr_union s ps) \<and> srv_same env s s' \<and> ss_db s' key0 = ss_db s key0"
proof (induction ps arbitrary: s)
  case (Cons p ps)
  show ?case
  proof (cases p)
    case (Some k)
    show ?thesis
    proof (cases "k = key0")
      case False
      have k: "db_abs s k = Some (Some (db_set s k))" using Cons.prems(2) Some by simp
      obtain obj where obj: "ss_db s k = Some (RSet obj)" "set_at k s = Inr obj" "set_inv env obj" "set_room obj 0"
        "set_members obj = db_set s k" using db_abs_set[OF k Cons.prems(1)] .
      obtain obj' where obj': "setTypeIsMember env obj x = Inr (obj', x \<in> db_set s k)" "set_inv env obj'"
        "set_members obj' = set_members obj" "set_room obj' 0"
        using setTypeIsMember_ok[OF obj(3) Cons.prems(3) obj(4)] obj(5) by auto
      define s1 where "s1 = set_put k obj' s"
      have s1: "srv_same env s s1" "ss_db s1 key0 = ss_db s key0"
        using srv_same_put[OF Cons.prems(1) obj(1) obj'(2,4,3)] False by (simp_all add: s1_def)
      then have eq: "db_abs s1 = db_abs s" "srv_inv env s1" by (simp_all add: srv_same_def)
      then have "ptrs_ok s1 = ptrs_ok s" "ptr_union s1 = ptr_union s" "db_set s1 = db_set s"
        by (simp_all add: ptrs_ok_def ptr_union_def db_set_def fun_eq_iff)
      then show ?thesis using Cons.IH[OF eq(2)] Cons.prems Some False obj(2) obj'(1) s1 srv_same_trans[OF s1(1)]
        by (auto simp flip: s1_def)
    qed (use Cons.prems Some srv_same_refl in auto)
  qed (use Cons in simp)
qed (simp add: srv_same_refl)

lemma diff1_body_yields:
  assumes m: "malloc_ok m" and st: "ud_ok env s0 A st" "at_key key0 obj st" and ps: "ptrs_ok s0 ps"
    and x: "x \<in> db_set s0 key0" "sds_small x" "x \<notin> A" and A: "card A + 1 < 2 ^ 29"
  shows "yields m (diff1_body env m key0 ps x st)
    (\<lambda>st'. ud_ok env s0 (if x \<in> ptr_union s0 ps then A else insert x A) st' \<and> at_key key0 obj st')"
proof -
  obtain s d n where s: "st = (s, d, n)" by (cases st)
  then have d: "srv_same env s0 s" "set_inv env d" "set_members d = A" "n = int (card A)" "ss_db s key0 = Some (RSet obj)"
    using st by (auto simp: ud_ok_def at_key_def)
  then have eq: "db_abs s = db_abs s0" "srv_inv env s" by (simp_all add: srv_same_def)
  then have "x \<in> db_set s key0" "ptrs_ok s ps" "ptr_union s ps = ptr_union s0 ps"
    using ps x(1) by (simp_all add: db_set_def ptrs_ok_def ptr_union_def)
  with diff_others_ok[OF eq(2), of ps x key0] x(2)
  obtain s' where s': "diff_others env key0 ps x s = Inr (s', x \<notin> ptr_union s0 ps)" "srv_same env s s'"
    "ss_db s' key0 = Some (RSet obj)" using d(5) by auto
  have same: "srv_same env s0 s'" using srv_same_trans[OF d(1) s'(2)] .
  have room: "set_room d (Suc 0)" using set_room_card[OF d(2), of 1] d(3) A by simp
  show ?thesis
  proof (cases "x \<in> ptr_union s0 ps")
    case True
    then show ?thesis using s' same d by (simp add: diff1_body_def s ud_ok_def at_key_def)
  next
    case False
    then show ?thesis unfolding diff1_body_def s prod.case s'(1) bindE_simps
      using same s'(3) d(3,4) A x(3) ud_ok_finite[OF st(1)]
      by (auto simp: add_int_def ud_ok_def at_key_def intro!: yields_bindE[OF set_type.add_yields[OF m d(2) x(2) room]])
  qed
qed

lemma diff1_yields:
  assumes m: "malloc_ok m" and st: "ud_ok env s0 {} st" and k: "db_abs s0 key0 = Some (Some M)" and ps: "ptrs_ok s0 ps"
    and M: "card M + 1 < 2 ^ 29"
  shows "yields m (set_iter_sds env m (st_get key0) (st_put key0) (diff1_body env m key0 ps) st) (ud_ok env s0 (M - ptr_union s0 ps))"
proof -
  obtain obj where obj: "at_key key0 obj st" "set_inv env obj" "set_members obj = M" using ud_ok_at[OF st k] .
  have fin: "finite M" using set_members_finite[OF obj(2)] obj(3) by simp
  define I where "I L st = (ud_ok env s0 (M - set L - ptr_union s0 ps) st \<and> at_key key0 obj st \<and> distinct L)" for L st
  have "yields m (set_iter_sds env m (st_get key0) (st_put key0) (diff1_body env m key0 ps) st) (I [])"
  proof (rule set_iter_sds_yields[OF m obj(2)])
    show "I xs st" if "set xs = set_members obj" "distinct xs" for xs using that st obj by (simp add: I_def)
    show "st_get key0 st = Inr obj \<and> st_put key0 obj st = st" if "I L st" for L st
      using that unfolding I_def by (blast dest: at_key_get)
    show "yields m (diff1_body env m key0 ps x st) (I L)" if I: "I (x # L) st" and x: "x \<in> set_members obj" "sds_small x" for x L st
    proof -
      let ?A = "M - set (x # L) - ptr_union s0 ps"
      have "card ?A \<le> card M" by (rule card_mono[OF fin]) auto
      then have "card ?A + 1 < 2 ^ 29" using M by linarith
      moreover have "x \<in> db_set s0 key0" using x(1) obj(3) k by (simp add: db_set_def)
      moreover have "(if x \<in> ptr_union s0 ps then ?A else insert x ?A) = M - set L - ptr_union s0 ps"
        using I x(1) obj(3) by (auto simp: I_def)
      ultimately show ?thesis using diff1_body_yields[OF m _ _ ps _ x(2), of env ?A st key0 obj] I
        by (auto simp: I_def elim!: yields_mono)
    qed
  qed
  then show ?thesis by (rule yields_mono) (simp add: I_def)
qed

text \<open>Algorithm 2.\<close>

lemma diff2_remove_yields:
  assumes m: "malloc_ok m" and st: "ud_ok env s0 A st" "at_key k obj st" and x: "sds_small x" and A: "card A < 2 ^ 29"
  shows "yields m (diff2_remove env m x st) (\<lambda>st'. ud_ok env s0 (A - {x}) st' \<and> at_key k obj st')"
proof -
  obtain s d n where s: "st = (s, d, n)" by (cases st)
  then have d: "srv_same env s0 s" "set_inv env d" "set_members d = A" "n = int (card A)" using st by (auto simp: ud_ok_def)
  have room: "set_room d 0" using set_room_card[OF d(2), of 0] d(3) A by simp
  have c: "x \<in> A \<Longrightarrow> card A > 0 \<and> card (A - {x}) = card A - 1" using ud_ok_finite[OF st(1)] by (auto simp: card_gt_0_iff)
  from set_type.remove_yields[OF m d(2) x room] show ?thesis unfolding diff2_remove_def s prod.case
  proof (rule yields_bindE, clarify, goal_cases)
    case (1 d' b)
    then show ?case using d A c st(2)
      by (cases "x \<in> A") (auto simp: add_int_def ud_ok_def at_key_def s of_nat_diff)
  qed
qed

lemma remove_iter_yields:
  assumes m: "malloc_ok m" and st: "ud_ok env s0 A st" and k: "db_abs s0 k = Some (Some M)" and A: "card A < 2 ^ 29"
  shows "yields m (set_iter_sds env m (st_get k) (st_put k) (diff2_remove env m) st) (ud_ok env s0 (A - M))"
proof -
  obtain obj where obj: "at_key k obj st" "set_inv env obj" "set_members obj = M" using ud_ok_at[OF st k] .
  define I where "I L st = (\<exists>A'. ud_ok env s0 A' st \<and> at_key k obj st \<and> A' \<subseteq> A \<and> A' - set L = A - M)" for L st
  have "yields m (set_iter_sds env m (st_get k) (st_put k) (diff2_remove env m) st) (I [])"
  proof (rule set_iter_sds_yields[OF m obj(2)])
    show "I xs st" if "set xs = set_members obj" for xs using that st obj by (auto simp: I_def)
    show "st_get k st = Inr obj \<and> st_put k obj st = st" if "I L st" for L st
      using that unfolding I_def by (blast dest: at_key_get)
    show "yields m (diff2_remove env m x st) (I L)" if I: "I (x # L) st" and sx: "sds_small x" for x L st
    proof -
      obtain A' where A': "ud_ok env s0 A' st" "at_key k obj st" "A' \<subseteq> A" "A' - set (x # L) = A - M" using I by (auto simp: I_def)
      have c: "card A' < 2 ^ 29" using card_mono[OF ud_ok_finite[OF st] A'(3)] A by linarith
      have "A' - {x} \<subseteq> A" "A' - {x} - set L = A - M" using A'(3,4) by auto
      then show ?thesis unfolding I_def by (intro yields_mono[OF diff2_remove_yields[OF m A'(1,2) sx c]]) blast
    qed
  qed
  then show ?thesis by (rule yields_mono) (auto simp: I_def)
qed

lemma diff2_rest_yields:
  assumes m: "malloc_ok m"
  shows "ud_ok env s0 A st \<Longrightarrow> ptrs_ok s0 ps \<Longrightarrow> card A < 2 ^ 29 \<Longrightarrow>
    yields m (diff2_loop env m False ps st) (ud_ok env s0 (A - ptr_union s0 ps))"
proof (induction ps arbitrary: A st)
  case (Cons p ps)
  show ?case
  proof (cases p)
    case (Some k)
    then have k: "db_abs s0 k = Some (Some (db_set s0 k))" using Cons.prems by simp
    show ?thesis unfolding Some diff2_loop.simps if_False
    proof (rule yields_bindE[OF remove_iter_yields[OF m Cons.prems(1) k Cons.prems(3)]], goal_cases)
      case (1 st')
      have eq: "A - ptr_union s0 (Some k # ps) = A - db_set s0 k - ptr_union s0 ps" by auto
      have "card (A - db_set s0 k) \<le> card A" using card_mono[OF ud_ok_finite[OF Cons.prems(1)], of "A - db_set s0 k"] by auto
      moreover have "A - db_set s0 k - ptr_union s0 ps = A - db_set s0 k" if "snd (snd st') = 0"
        using that 1 ud_ok_finite[OF 1] by (auto simp: ud_ok_def split: prod.splits)
      ultimately show ?case using 1 Cons.IH[OF 1] Cons.prems Some unfolding eq
        by (cases "snd (snd st') = 0") simp_all
    qed
  qed (use Cons in simp)
qed simp

text \<open>What a command with the result \<open>R\<close> replies, or stores at a destination.\<close>

definition set_result :: "set_env \<Rightarrow> set_server \<Rightarrow> byte list set \<Rightarrow> byte list option \<Rightarrow> set_server \<times> reply \<Rightarrow> bool" where
  "set_result env s R dstkey = (\<lambda>(s', r).
     case dstkey of
       None \<Rightarrow> srv_same env s s' \<and> (\<exists>out. r = ReplyMulti (int (length out)) out \<and> distinct out \<and> set out = R)
     | Some k \<Rightarrow> srv_inv env s' \<and> db_abs s' = put_result k R s \<and> r = ReplyInt (int (card R)))"

lemma reply_members_yields:
  assumes m: "malloc_ok m" and d: "set_inv env d"
  shows "yields m (set_iter_sds env m (\<lambda>(d, _). Inr d) (\<lambda>d (_, out). (d, out)) (\<lambda>ele (d, out). Inr (d, out @ [ele])) (d, []))
    (\<lambda>(_, out). distinct out \<and> set out = set_members d)"
proof -
  define I where "I L st = (fst st = d \<and> distinct (snd st @ L) \<and> set (snd st @ L) = set_members d)" for L and st :: "setobj \<times> byte list list"
  have "yields m (set_iter_sds env m (\<lambda>(d, _). Inr d) (\<lambda>d (_, out). (d, out)) (\<lambda>ele (d, out). Inr (d, out @ [ele])) (d, [])) (I [])"
  proof (rule set_iter_sds_yields[OF m d])
    show "I xs (d, [])" if "set xs = set_members d" "distinct xs" for xs using that by (simp add: I_def)
    show "(case st of (d, _) \<Rightarrow> Inr d) = Inr d \<and> (case st of (_, out) \<Rightarrow> (d, out)) = st" if "I L st" for L st
      using that by (cases st) (simp add: I_def)
    show "yields m (case st of (d, out) \<Rightarrow> Inr (d, out @ [x])) (I L)" if "I (x # L) st" for x L st
      using that by (cases st) (simp add: I_def)
  qed
  then show ?thesis by (rule yields_mono) (simp add: I_def case_prod_beta)
qed

lemma ud_finish_yields:
  assumes m: "malloc_ok m" and R: "card R < 2 ^ 29"
    and calc: "\<And>d. set_inv env d \<Longrightarrow> set_members d = {} \<Longrightarrow> yields m (calc d) (ud_ok env s R)"
  shows "yields m (bindE (createIntsetObject m) (\<lambda>d. bindE (calc d) (\<lambda>(s, dstset, cardinality).
      case dstkey of
        None \<Rightarrow>
          bindE (set_iter_sds env m (\<lambda>(d, _). Inr d) (\<lambda>d (_, out). (d, out)) (\<lambda>ele (d, out). Inr (d, out @ [ele])) (dstset, []))
            (\<lambda>(_, out). Inr (s, ReplyMulti cardinality out))
      | Some k \<Rightarrow> store_result ev k dstset s))) (set_result env s R dstkey)"
proof (rule yields_bindE[OF createIntsetObject_yields[OF m, of env]], rule yields_bindE[OF calc], goal_cases)
  case (3 d0 st)
  obtain s1 d n where st: "st = (s1, d, n)" by (cases st)
  then have d: "srv_same env s s1" "set_inv env d" "set_members d = R" "n = int (card R)" using 3(2) by (auto simp: ud_ok_def)
  have fin: "set_room d 0" "srv_inv env s1" using set_room_card[OF d(2), of 0] d R by (auto simp: srv_same_def)
  show ?case
  proof (cases dstkey)
    case None
    have "yields m (bindE (set_iter_sds env m (\<lambda>(d, _). Inr d) (\<lambda>d (_, out). (d, out)) (\<lambda>ele (d, out). Inr (d, out @ [ele])) (d, []))
        (\<lambda>(_, out). Inr (s1, ReplyMulti n out))) (set_result env s R None)"
      by (rule yields_bindE[OF reply_members_yields[OF m d(2)]]) (use d in \<open>auto simp: set_result_def simp flip: distinct_card\<close>)
    then show ?thesis by (simp add: st None)
  next
    case (Some k)
    then show ?thesis using store_result_ok[OF fin(2) d(2) fin(1), of ev k] put_result_same[OF d(1)] d(3)
      by (auto simp: st set_result_def)
  qed
qed auto

lemma ud_ok_start: "srv_inv env s \<Longrightarrow> set_inv env d \<Longrightarrow> set_members d = {} \<Longrightarrow> ud_ok env s {} (s, d, 0)"
  by (simp add: ud_ok_def srv_same_refl)

lemma sunion_yields:
  assumes m: "malloc_ok m" and inv: "srv_inv env s" and keys: "keys_ok s keys"
    and R: "card (\<Union>k \<in> set keys. db_set s k) + 1 < 2 ^ 29"
  shows "yields m (sunionDiffGenericCommand env m s keys dstkey SET_OP_UNION) (set_result env s (\<Union>k \<in> set keys. db_set s k) dstkey)"
proof -
  obtain ps where ps: "sunion_lookup s keys = Some ps" "ptrs_ok s ps" "ptr_union s ps = (\<Union>k \<in> set keys. db_set s k)"
    using sunion_lookup_ok[OF keys] by blast
  have fin: "finite (\<Union>k \<in> set keys. db_set s k)" using db_set_finite[OF inv] by blast
  have loop: "yields m (union_loop env m ps (s, d, 0)) (ud_ok env s (\<Union>k \<in> set keys. db_set s k))"
    if "set_inv env d" "set_members d = {}" for d
    using union_loop_yields[OF m ud_ok_start[OF inv that] ps(2)] ps(3) fin R by simp
  show ?thesis using ud_finish_yields[OF m _ loop, where ev = "''sunionstore''" and dstkey = dstkey] R
    by (simp add: sunionDiffGenericCommand_def ps(1))
qed

lemma ptr_union_sort [simp]: "ptr_union s (c_qsort cmp ps) = ptr_union s ps" "ptrs_ok s (c_qsort cmp ps) = ptrs_ok s ps"
  by (simp_all add: ptr_union_def ptrs_ok_def)

lemma diff_plan_cases:
  obtains ps' where "diff_plan s (Some k # ps) = (1, Some k # ps')" "ptr_union s ps' = ptr_union s ps" "ptrs_ok s ps' = ptrs_ok s ps"
  | "diff_plan s (Some k # ps) = (2, Some k # ps)"
  by (cases "(\<Sum>p\<leftarrow>filter (\<lambda>p. p \<noteq> None) (Some k # ps). set_card s (Some k)) div 2
      \<le> (\<Sum>p\<leftarrow>filter (\<lambda>p. p \<noteq> None) (Some k # ps). set_card s p)")
    (simp_all add: diff_plan_def Let_def)

lemma diff2_yields:
  assumes m: "malloc_ok m" and st: "ud_ok env s {} st" and k: "db_abs s k = Some (Some (db_set s k))" and ps: "ptrs_ok s ps"
    and fin: "finite (db_set s k)" and M: "card (db_set s k) + 1 < 2 ^ 29"
  shows "yields m (diff2_loop env m True (Some k # ps) st) (ud_ok env s (db_set s k - ptr_union s ps))"
  unfolding diff2_loop.simps if_True
proof (rule yields_bindE[OF union_iter_yields[OF m st k]], goal_cases)
  case (3 st')
  then have st': "ud_ok env s (db_set s k) st'" by simp
  then have "db_set s k - ptr_union s ps = db_set s k" if "snd (snd st') = 0"
    using that fin by (auto simp: ud_ok_def split: prod.splits)
  then show ?case using diff2_rest_yields[OF m st' ps] st' M by (cases "snd (snd st') = 0") simp_all
qed (use fin M in simp_all)

lemma sdiff_yields:
  assumes m: "malloc_ok m" and inv: "srv_inv env s" and keys: "keys_ok s (key # keys)"
    and R: "card (db_set s key) + 1 < 2 ^ 29"
  shows "yields m (sunionDiffGenericCommand env m s (key # keys) dstkey SET_OP_DIFF)
    (set_result env s (db_set s key - (\<Union>k \<in> set keys. db_set s k)) dstkey)"
proof -
  let ?R = "db_set s key - (\<Union>k \<in> set keys. db_set s k)"
  have keys': "keys_ok s keys" using keys by (simp add: keys_ok_def)
  obtain ps where ps: "sunion_lookup s keys = Some ps" "ptrs_ok s ps" "ptr_union s ps = (\<Union>k \<in> set keys. db_set s k)"
    using sunion_lookup_ok[OF keys'] by blast
  have fin: "finite (db_set s key)" using db_set_finite[OF inv] .
  have "card ?R \<le> card (db_set s key)" by (rule card_mono[OF fin]) auto
  then have cR: "card ?R < 2 ^ 29" using R by linarith
  note finish = ud_finish_yields[OF m cR, where ev = "''sdiffstore''" and dstkey = dstkey and env = env]
  consider "ss_db s key = None" | obj where "ss_db s key = Some (RSet obj)"
    using keys by (cases "ss_db s key") (auto simp: keys_ok_def, metis robj.exhaust)
  then show ?thesis
  proof cases
    case 1
    have "yields m (Inr (s, d, 0)) (ud_ok env s ?R)" if "set_inv env d" "set_members d = {}" for d
      using ud_ok_start[OF inv that] db_set_None[OF 1] by simp
    from finish[OF this] show ?thesis using 1 by (simp add: sunionDiffGenericCommand_def ps(1) diff_plan_def)
  next
    case 2
    then have k: "db_abs s key = Some (Some (db_set s key))" by (simp add: db_set_def db_abs_def)
    show ?thesis
    proof (cases rule: diff_plan_cases[of s key ps])
      case (1 ps')
      have "yields m (set_iter_sds env m (st_get key) (st_put key) (diff1_body env m key ps') (s, d, 0)) (ud_ok env s ?R)"
        if "set_inv env d" "set_members d = {}" for d
        using diff1_yields[OF m ud_ok_start[OF inv that] k _ R, of ps'] 1 ps by simp
      from finish[OF this] show ?thesis using 1 2 by (simp add: sunionDiffGenericCommand_def ps(1))
    next
      case plan: 2
      have "yields m (diff2_loop env m True (Some key # ps) (s, d, 0)) (ud_ok env s ?R)"
        if "set_inv env d" "set_members d = {}" for d
        using diff2_yields[OF m ud_ok_start[OF inv that] k ps(2) fin R] ps(3) by simp
      from finish[OF this] show ?thesis using plan 2 by (simp add: sunionDiffGenericCommand_def ps(1))
    qed
  qed
qed

section \<open>Single sets\<close>

lemma srem_loop_yields:
  assumes m: "malloc_ok m"
  shows "set_inv env obj \<Longrightarrow> set_room obj 0 \<Longrightarrow> set_members obj \<noteq> {} \<Longrightarrow> \<forall>v \<in> set vals. sds_small v \<Longrightarrow>
    yields m (srem_loop env m obj vals) (\<lambda>(obj', n, removed). set_inv env obj' \<and> set_room obj' 0
      \<and> set_members obj' = set_members obj - set vals \<and> n = card (set vals \<inter> set_members obj)
      \<and> (removed \<longleftrightarrow> set_members obj' = {}))"
proof (induction vals arbitrary: obj)
  case (Cons v vals)
  let ?M = "set_members obj"
  have v: "sds_small v" "\<forall>v \<in> set vals. sds_small v" using Cons.prems(4) by auto
  show ?case unfolding srem_loop.simps
  proof (rule yields_bindE[OF set_type.remove_yields[OF m Cons.prems(1) v(1) Cons.prems(2)]], clarify, goal_cases)
    case (1 obj1 b)
    have size: "setTypeSize obj1 = 0 \<longleftrightarrow> ?M - {v} = {}"
      using 1 setTypeSize_card[OF 1(1)] set_members_finite[OF 1(1)] by simp
    have rest: "?M - {v} - set vals = ?M - set (v # vals)" by auto
    note IH = Cons.IH[OF 1(1,3) _ v(2)]
    show ?case
    proof (cases "v \<in> ?M")
      case False
      then show ?thesis using IH 1(2) Cons.prems(3) rest by (auto elim!: yields_mono)
    next
      case True
      show ?thesis
      proof (cases "?M - {v} = {}")
        case one: True
        then have M: "?M = {v}" using True by auto
        then show ?thesis using True one size 1 by simp
      next
        case False
        have fin: "finite ?M" using set_members_finite[OF Cons.prems(1)] .
        have "set (v # vals) \<inter> ?M = insert v (set vals \<inter> (?M - {v}))" using True by auto
        then have card: "card (set (v # vals) \<inter> ?M) = card (set vals \<inter> (?M - {v})) + 1" using fin by simp
        have "yields m (bindE (srem_loop env m obj1 vals) (\<lambda>(obj, deleted, keyremoved). Inr (obj, deleted + 1, keyremoved)))
          (\<lambda>(obj', n, removed). set_inv env obj' \<and> set_room obj' 0 \<and> set_members obj' = ?M - set (v # vals)
            \<and> n = card (set (v # vals) \<inter> ?M) \<and> (removed \<longleftrightarrow> set_members obj' = {}))"
          by (rule yields_bindE[OF IH]) (use False 1(2) card rest in \<open>simp_all add: case_prod_beta\<close>)
        then show ?thesis using True False size by simp
      qed
    qed
  qed
qed (auto)

lemma key_cases:
  assumes "db_abs s key \<noteq> Some None" "srv_inv env s"
  obtains "ss_db s key = None" "db_set s key = {}"
  | obj where "ss_db s key = Some (RSet obj)" "set_at key s = Inr obj" "set_inv env obj" "set_room obj 0" "set_members obj = db_set s key"
    "db_set s key \<noteq> {}"
proof (cases "ss_db s key = None")
  case True
  then show ?thesis using that(1) db_set_None by blast
next
  case False
  then have "db_abs s key = Some (Some (db_set s key))" using assms(1) by (intro db_set_Some) simp_all
  from db_abs_set[OF this assms(2)] show ?thesis using that(2) by blast
qed

lemma sremCommand_yields:
  assumes m: "malloc_ok m" and inv: "srv_inv env s" and key: "db_abs s key \<noteq> Some None" and vals: "\<forall>v \<in> set vals. sds_small v"
  shows "yields m (sremCommand env m s key vals) (\<lambda>(s', r). srv_inv env s'
    \<and> db_abs s' = put_result key (db_set s key - set vals) s
    \<and> r = ReplyInt (int (card (set vals \<inter> db_set s key))) \<and> ss_dirty s' = ss_dirty s + int (card (set vals \<inter> db_set s key)))"
  using key inv
proof (cases rule: key_cases)
  case 1
  then have "db_abs s key = None" by simp
  then have "(db_abs s)(key := None) = db_abs s" by (simp only: fun_upd_idem)
  then show ?thesis using 1 inv by (simp add: sremCommand_def put_result_def del: db_abs_simps)
next
  case (2 obj)
  have M: "set_members obj \<noteq> {}" using 2 by simp
  show ?thesis unfolding sremCommand_def 2(1) option.case robj.case
  proof (rule yields_bindE[OF srem_loop_yields[OF m 2(3,4) M vals]], clarify, goal_cases)
    case (1 obj' n removed)
    show ?case
    proof (cases "set_members obj' = {}")
      case True
      have "srv_inv env (fst (dbDelete (set_put key obj' s) key))" using inv by (auto simp: srv_inv_def)
      then show ?thesis using 1 True 2(5) by (simp add: Let_def put_result_def)
    next
      case False
      then have "srv_inv env (set_put key obj' s)" using srv_inv_put[OF inv 1(1,2)] by simp
      then show ?thesis using 1 False 2(5) by (simp add: Let_def put_result_def)
    qed
  qed
qed

text \<open>A key that holds a set to add to, made when it does not exist.\<close>

lemma open_set_yields:
  assumes m: "malloc_ok m" and inv: "srv_inv env s" and key: "db_abs s key \<noteq> Some None" and c: "card (db_set s key) + k < 2 ^ 29"
  shows "yields m (if ss_db s key = None then bindE (setTypeCreate m v) (\<lambda>obj. dbAdd s key obj) else Inr s)
    (\<lambda>s'. \<exists>obj. s' = set_put key obj s \<and> set_inv env obj \<and> set_members obj = db_set s key \<and> set_room obj k)"
  using key inv
proof (cases rule: key_cases)
  case 1
  have "yields m (bindE (setTypeCreate m v) (\<lambda>obj. dbAdd s key obj))
      (\<lambda>s'. \<exists>obj. s' = set_put key obj s \<and> set_inv env obj \<and> set_members obj = db_set s key \<and> set_room obj k)"
    by (rule yields_bindE[OF setTypeCreate_yields[OF m, of v env]]) (use 1 c set_room_card in \<open>auto simp: dbAdd_put\<close>)
  then show ?thesis using 1 by simp
next
  case (2 obj)
  then show ?thesis using set_room_card[OF 2(3), of k] c by (auto intro!: exI[of _ obj])
qed

lemma set_put_put [simp]: "set_put k obj' (set_put k obj s) = set_put k obj' s" "set_at k (set_put k obj s) = Inr obj"
  by (simp_all add: set_put_def set_at_def)

lemma saddCommand_yields:
  assumes m: "malloc_ok m" and inv: "srv_inv env s" and key: "db_abs s key \<noteq> Some None"
    and vals: "vals \<noteq> []" "\<forall>v \<in> set vals. sds_small v" and c: "card (db_set s key) + length vals < 2 ^ 29"
  shows "yields m (saddCommand env m s key vals) (\<lambda>(s', r). srv_inv env s'
    \<and> db_abs s' = put_result key (db_set s key \<union> set vals) s
    \<and> r = ReplyInt (int (card (set vals - db_set s key))) \<and> ss_dirty s' = ss_dirty s + int (card (set vals - db_set s key)))"
proof -
  obtain v vs where vs: "vals = v # vs" using vals(1) by (cases vals) auto
  have other: "ss_db s key \<noteq> Some ROther" using key by simp
  have "yields m (bindE (if ss_db s key = None then bindE (setTypeCreate m v) (\<lambda>obj. dbAdd s key obj) else Inr s) (\<lambda>s.
        bindE (set_at key s) (\<lambda>obj.
        bindE (add_all (setTypeAdd env m) obj vals) (\<lambda>(obj, added).
          let s = set_put key obj s;
              s = (if added > 0 then emit [Modified key, Notify ''sadd'' key] s else s) in
          Inr (add_dirty (int added) s, ReplyInt (int added)))))) (\<lambda>(s', r). srv_inv env s'
    \<and> db_abs s' = put_result key (db_set s key \<union> set vals) s
    \<and> r = ReplyInt (int (card (set vals - db_set s key))) \<and> ss_dirty s' = ss_dirty s + int (card (set vals - db_set s key)))"
  proof (rule yields_bindE[OF open_set_yields[OF m inv key c]], elim exE conjE, goal_cases)
    case (1 s1 obj)
    have room: "set_room obj (length vals + 0)" using 1(4) by simp
    show ?case unfolding 1(1) set_put_put bindE_simps
    proof (rule yields_bindE[OF set_type.add_all_yields[OF m 1(2) vals(2) room]], clarify, goal_cases)
      case A: (1 obj' n)
      have "srv_inv env (set_put key obj' s)" using srv_inv_put[OF inv A(1) A(3)] A(2) vals(1) by simp
      then show ?case using A 1(3) vals(1) by (simp add: Let_def put_result_def)
    qed
  qed
  then show ?thesis unfolding saddCommand_def if_not_P[OF other] vs list.case .
qed

lemma srv_same_put_key:
  assumes "srv_inv env s" "ss_db s k = Some (RSet obj)" "set_inv env obj'" "set_room obj' 0" "set_members obj' = set_members obj"
  shows "srv_inv env (set_put k obj' s)" "db_abs (set_put k obj' s) = db_abs s"
  using srv_same_put[OF assms] by (simp_all add: srv_same_def)

lemma smove_add_yields:
  assumes m: "malloc_ok m" and inv: "srv_inv env s" and dst: "db_abs s dst \<noteq> Some None"
    and ele: "sds_small ele" and c: "card (db_set s dst) + 1 < 2 ^ 29"
  shows "yields m (bindE (if ss_db s dst = None then bindE (setTypeCreate m ele) (\<lambda>obj. dbAdd s dst obj) else Inr s) (\<lambda>s.
      let s = add_dirty 1 (emit [Modified src, Modified dst] s) in
      bindE (set_at dst s) (\<lambda>dstset.
      bindE (setTypeAdd env m dstset ele) (\<lambda>(dstset, added).
        let s = set_put dst dstset s;
            s = (if added then emit [Notify ''sadd'' dst] (add_dirty 1 s) else s) in
        Inr (s, ReplyInt 1)))))
    (\<lambda>(s', r). srv_inv env s' \<and> r = ReplyInt 1 \<and> db_abs s' = (db_abs s)(dst \<mapsto> Some (insert ele (db_set s dst)))
       \<and> ss_dirty s' = ss_dirty s + (if ele \<in> db_set s dst then 1 else 2))"
proof (rule yields_bindE[OF open_set_yields[OF m inv dst c]], elim exE conjE, goal_cases)
  case (1 s1 obj)
  define s2 where "s2 = add_dirty 1 (emit [Modified src, Modified dst] s1)"
  have at: "set_at dst s2 = Inr obj" by (simp add: s2_def 1(1) set_at_def)
  have room: "set_room obj (Suc 0)" using 1(4) by simp
  have dirty: "ss_dirty s2 = ss_dirty s + 1" by (simp add: s2_def 1(1))
  have put: "ss_db (set_put dst obj' s2) = ss_db (set_put dst obj' s)" for obj' by (simp add: s2_def 1(1))
  have abs: "srv_inv env (set_put dst obj' s2) = srv_inv env (set_put dst obj' s)"
    "db_abs (set_put dst obj' s2) = db_abs (set_put dst obj' s)" for obj'
    by (simp_all only: srv_inv_def db_abs_def put fun_eq_iff simp_thms)
  show ?case unfolding s2_def[symmetric] Let_def[of s2] at bindE_simps
  proof (rule yields_bindE[OF set_type.add_yields[OF m 1(2) ele room]], clarify, goal_cases)
    case A: (1 obj' b)
    then have "srv_inv env (set_put dst obj' s)" using srv_inv_put[OF inv A(1) A(3)] by simp
    then show ?case using A 1(3) abs dirty by (auto simp: Let_def simp del: db_abs_put) simp_all
  qed
qed

lemma db_set_cong: "db_abs s k = db_abs s' k' \<Longrightarrow> db_set s k = db_set s' k'"
  by (simp add: db_set_def)

lemma smoveCommand_yields:
  assumes m: "malloc_ok m" and inv: "srv_inv env s" and keys: "db_abs s src \<noteq> Some None" "db_abs s dst \<noteq> Some None"
    and ele: "sds_small ele" and c: "card (db_set s dst) + 1 < 2 ^ 29"
  shows "yields m (smoveCommand env m s src dst ele) (\<lambda>(s', r). srv_inv env s'
    \<and> r = ReplyInt (if ele \<in> db_set s src then 1 else 0)
    \<and> db_abs s' = (if src = dst \<or> ele \<notin> db_set s src then db_abs s
        else (put_result src (db_set s src - {ele}) s)(dst \<mapsto> Some (insert ele (db_set s dst))))
    \<and> ss_dirty s' = ss_dirty s + (if src = dst \<or> ele \<notin> db_set s src then 0 else if ele \<in> db_set s dst then 1 else 2))"
  using keys(1) inv
proof (cases rule: key_cases)
  case 1
  then show ?thesis using inv by (simp add: smoveCommand_def)
next
  case (2 obj)
  have dst: "ss_db s dst \<noteq> Some ROther" using keys(2) by simp
  show ?thesis
  proof (cases "src = dst")
    case True
    obtain obj' where obj': "setTypeIsMember env obj ele = Inr (obj', ele \<in> db_set s src)" "set_inv env obj'"
      "set_members obj' = set_members obj" "set_room obj' 0" using setTypeIsMember_ok[OF 2(3) ele 2(4)] 2(5) by auto
    note srv_same_put_key[OF inv 2(1) obj'(2,4,3)]
    then show ?thesis using True 2(1) obj'(1) by (simp add: smoveCommand_def del: db_abs_put)
  next
    case False
    show ?thesis unfolding smoveCommand_def 2(1) option.case robj.case if_not_P[OF dst] if_not_P[OF False]
    proof (rule yields_bindE[OF set_type.remove_yields[OF m 2(3) ele 2(4)]], clarify, goal_cases)
      case (1 obj1 b)
      show ?case
      proof (cases "ele \<in> db_set s src")
        case out: False
        then have "set_members obj1 = set_members obj" using 1(2) 2(5) by simp
        from srv_same_put_key[OF inv 2(1) 1(1,3) this] show ?thesis using out 2(5) by (simp add: Let_def del: db_abs_put)
      next
        case True
        define s1 where "s1 = (if setTypeSize obj1 = 0
          then emit [Notify ''del'' src] (fst (dbDelete (emit [Notify ''srem'' src] (set_put src obj1 s)) src))
          else emit [Notify ''srem'' src] (set_put src obj1 s))"
        have size: "setTypeSize obj1 = 0 \<longleftrightarrow> set_members obj1 = {}"
          using setTypeSize_card[OF 1(1)] set_members_finite[OF 1(1)] by simp
        have s1: "db_abs s1 = put_result src (db_set s src - {ele}) s"
          using size 1(2) 2(5) by (auto simp: s1_def put_result_def)
        have inv1: "srv_inv env s1"
        proof (cases "set_members obj1 = {}")
          case True
          then show ?thesis using inv size by (auto simp: s1_def Let_def) (auto simp: srv_inv_def)
        qed (use srv_inv_put[OF inv 1(1,3)] size in \<open>simp add: s1_def Let_def\<close>)
        have dirty: "ss_dirty s1 = ss_dirty s" by (simp add: s1_def)
        have at: "db_abs s1 dst = db_abs s dst" using False by (simp add: s1 put_result_def)
        then have d: "db_abs s1 dst \<noteq> Some None" "db_set s1 dst = db_set s dst" using keys(2) db_set_cong by (metis, metis)
        have b: "\<not> ele \<notin> set_members obj" using True 2(5) by simp
        show ?thesis using smove_add_yields[OF m inv1 d(1) ele c[folded d(2)], of src] True False
          unfolding Let_def if_not_P[OF b] s1_def[symmetric] d(2) s1 dirty by simp
      qed
    qed
  qed
qed

lemma sismemberCommand_ok:
  assumes "srv_inv env s" "db_abs s key \<noteq> Some None" "sds_small v"
  shows "\<exists>s'. sismemberCommand env s key v = Inr (s', ReplyInt (if v \<in> db_set s key then 1 else 0)) \<and> srv_same env s s'"
  using assms(2,1)
proof (cases rule: key_cases)
  case 1
  then show ?thesis using assms(1) by (simp add: sismemberCommand_def srv_same_refl)
next
  case (2 obj)
  obtain obj' where "setTypeIsMember env obj v = Inr (obj', v \<in> db_set s key)" "set_inv env obj'"
    "set_members obj' = set_members obj" "set_room obj' 0" using setTypeIsMember_ok[OF 2(3) assms(3) 2(4)] 2(5) by auto
  then show ?thesis using 2(1) srv_same_put[OF assms(1) 2(1)] by (simp add: sismemberCommand_def)
qed

lemma scardCommand_ok:
  assumes "srv_inv env s" "db_abs s key \<noteq> Some None"
  shows "scardCommand s key = (s, ReplyInt (int (card (db_set s key))))"
  using assms(2,1)
proof (cases rule: key_cases)
  case (2 obj)
  then show ?thesis using setTypeSize_card[OF 2(3)] by (simp add: scardCommand_def)
qed (simp add: scardCommand_def)

section \<open>Properties of the commands\<close>

text \<open>
  C13. SUNION replies with the union of the sets at its keys, without repetition and with the count sent
  before the members equal to their number; SUNIONSTORE stores it and replies with its cardinality. A
  missing key is an empty set. The destination may be one of the sources, and no other key changes.
\<close>

theorem sunion_computes_union:
  assumes "malloc_ok m" "srv_inv env s" "keys_ok s keys" "card (\<Union>k \<in> set keys. db_set s k) + 1 < 2 ^ 29"
  shows "yields m (sunionCommand env m s keys) (\<lambda>(s', r). srv_same env s s' \<and>
      (\<exists>out. r = ReplyMulti (int (length out)) out \<and> distinct out \<and> set out = (\<Union>k \<in> set keys. db_set s k)))
    \<and> yields m (sunionstoreCommand env m s dst keys) (\<lambda>(s', r). srv_inv env s' \<and>
      db_abs s' = put_result dst (\<Union>k \<in> set keys. db_set s k) s \<and> r = ReplyInt (int (card (\<Union>k \<in> set keys. db_set s k))))"
  using sunion_yields[OF assms, of None] sunion_yields[OF assms, of "Some dst"]
  by (simp add: sunionCommand_def sunionstoreCommand_def set_result_def)

text \<open>
  C14. SDIFF replies with the members of the first set that are in none of the others, whichever of the
  two algorithms is chosen, with the right count; SDIFFSTORE stores the difference. The break of the
  first algorithm on a repeated key and the early exit of the second one do not change the result.
\<close>

theorem sdiff_computes_difference:
  assumes "malloc_ok m" "srv_inv env s" "keys_ok s (key # keys)" "card (db_set s key) + 1 < 2 ^ 29"
  shows "yields m (sdiffCommand env m s (key # keys)) (\<lambda>(s', r). srv_same env s s' \<and>
      (\<exists>out. r = ReplyMulti (int (length out)) out \<and> distinct out \<and> set out = db_set s key - (\<Union>k \<in> set keys. db_set s k)))
    \<and> yields m (sdiffstoreCommand env m s dst (key # keys)) (\<lambda>(s', r). srv_inv env s' \<and>
      db_abs s' = put_result dst (db_set s key - (\<Union>k \<in> set keys. db_set s k)) s
      \<and> r = ReplyInt (int (card (db_set s key - (\<Union>k \<in> set keys. db_set s k)))))"
  using sdiff_yields[OF assms, of None] sdiff_yields[OF assms, of "Some dst"]
  by (simp add: sdiffCommand_def sdiffstoreCommand_def set_result_def)

text \<open>
  C15. SADD, SREM and SMOVE change the key space as the operations on sets do and keep it well formed: a
  key whose last member goes is deleted, so that no empty set is ever stored. The replies of SADD
  and SREM, and what they add to the count of changes, are the numbers of members added and removed.
  SMOVE replies whether the member was in the source; a move counts as one change, or as two if the
  member is new at the destination, and a move within one set changes nothing.
\<close>

theorem set_updates_keep_invariant:
  assumes "malloc_ok m" "srv_inv env s" "keys_ok s [key, dst]" "vals \<noteq> []" "\<forall>v \<in> set (ele # vals). sds_small v"
    "card (db_set s key) + length vals < 2 ^ 29" "card (db_set s dst) + 1 < 2 ^ 29"
  shows "yields m (saddCommand env m s key vals) (\<lambda>(s', r). srv_inv env s'
      \<and> db_abs s' = put_result key (db_set s key \<union> set vals) s
      \<and> r = ReplyInt (int (card (set vals - db_set s key))) \<and> ss_dirty s' = ss_dirty s + int (card (set vals - db_set s key)))
    \<and> yields m (sremCommand env m s key vals) (\<lambda>(s', r). srv_inv env s'
      \<and> db_abs s' = put_result key (db_set s key - set vals) s
      \<and> r = ReplyInt (int (card (set vals \<inter> db_set s key))) \<and> ss_dirty s' = ss_dirty s + int (card (set vals \<inter> db_set s key)))
    \<and> yields m (smoveCommand env m s key dst ele) (\<lambda>(s', r). srv_inv env s'
      \<and> r = ReplyInt (if ele \<in> db_set s key then 1 else 0)
      \<and> db_abs s' = (if key = dst \<or> ele \<notin> db_set s key then db_abs s
          else (put_result key (db_set s key - {ele}) s)(dst \<mapsto> Some (insert ele (db_set s dst))))
      \<and> ss_dirty s' = ss_dirty s + (if key = dst \<or> ele \<notin> db_set s key then 0 else if ele \<in> db_set s dst then 1 else 2))"
  using saddCommand_yields[OF assms(1,2) _ assms(4) _ assms(6)] sremCommand_yields[OF assms(1,2), of key vals]
    smoveCommand_yields[OF assms(1,2) _ _ _ assms(7)] assms(3,5)
  by (simp add: keys_ok_def)

text \<open>An example: the sets of 7 and of 7 and 8.\<close>

definition example_server :: set_server where
  "example_server = \<lparr>ss_db = [[1] \<mapsto> RSet (SetIntset \<lparr>is_encoding = 2, is_length = 1, is_contents = [7, 0]\<rparr>),
     [2] \<mapsto> RSet (SetIntset \<lparr>is_encoding = 2, is_length = 2, is_contents = [7, 0, 8, 0]\<rparr>)],
     ss_dirty = 0, ss_events = []\<rparr>"

lemma example_sets:
  "set_members (SetIntset \<lparr>is_encoding = 2, is_length = 1, is_contents = [7, 0]\<rparr>) = {[55]}"
  "set_members (SetIntset \<lparr>is_encoding = 2, is_length = 2, is_contents = [7, 0, 8, 0]\<rparr>) = {[55], [56]}"
  "set_inv env (SetIntset \<lparr>is_encoding = 2, is_length = 1, is_contents = [7, 0]\<rparr>)"
  "set_inv env (SetIntset \<lparr>is_encoding = 2, is_length = 2, is_contents = [7, 0, 8, 0]\<rparr>)"
proof -
  have e: "intset_elems \<lparr>is_encoding = 2, is_length = 1, is_contents = [7, 0]\<rparr> = [7]"
    "intset_elems \<lparr>is_encoding = 2, is_length = 2, is_contents = [7, 0, 8, 0]\<rparr> = [7, 8]"
    by (simp_all add: intset_elems_def sle_val_def Let_def upt_rec)
  have b: "sle_bytes 2 7 = [7, 0]" "sle_bytes 2 8 = [8, 0]" by (simp_all add: sle_bytes_def le_bytes_numeral)
  have d: "dec_int 7 = [55]" "dec_int 8 = [56]" by (simp_all add: dec_int_def dec_nat.simps)
  show "set_members (SetIntset \<lparr>is_encoding = 2, is_length = 1, is_contents = [7, 0]\<rparr>) = {[55]}"
    "set_members (SetIntset \<lparr>is_encoding = 2, is_length = 2, is_contents = [7, 0, 8, 0]\<rparr>) = {[55], [56]}"
    by (simp_all add: set_members_def intset_set_def e d del: One_nat_def)
  show "set_inv env (SetIntset \<lparr>is_encoding = 2, is_length = 1, is_contents = [7, 0]\<rparr>)"
    "set_inv env (SetIntset \<lparr>is_encoding = 2, is_length = 2, is_contents = [7, 0, 8, 0]\<rparr>)"
    by (simp_all add: set_inv_def intset_inv_def intset_rep_def e b sle_fits_def del: One_nat_def)
qed

lemma example_server_ok:
  "srv_inv env example_server" "db_set example_server [1] = {[55]}" "db_set example_server [2] = {[55], [56]}"
  "keys_ok example_server ks"
proof -
  show "srv_inv env example_server"
    by (auto simp: srv_inv_def example_server_def example_sets set_room_def intset_has_room_def intsetLen_def simp del: One_nat_def split: if_splits)
  show "db_set example_server [1] = {[55]}" "db_set example_server [2] = {[55], [56]}"
    by (simp_all add: db_set_def db_abs_def example_server_def example_sets del: One_nat_def)
  show "keys_ok example_server ks" by (simp add: keys_ok_def example_server_def)
qed

theorem sinter_computes_intersection_witness:
  "yields calloc_alloc (sinterCommand example_env calloc_alloc example_server [[2], [1], [2]])
     (\<lambda>(s', r). srv_same example_env example_server s' \<and> r = ReplyMulti 1 [[55]])"
proof -
  have out: "out = [[55]]" if "distinct out" "set out = {[55 :: byte]}" for out
    using that by (cases out) (auto simp: subset_singleton_iff insert_eq_iff)
  have "(\<Inter>k \<in> set [[2], [1], [2 :: byte]]. db_set example_server k) = {[55]}" by (auto simp: example_server_ok)
  then have "yields calloc_alloc (sinterCommand example_env calloc_alloc example_server [[2], [1], [2]])
     (\<lambda>(s', r). srv_same example_env example_server s' \<and>
       (\<exists>out. r = ReplyMulti (int (length out)) out \<and> distinct out \<and> set out = {[55]}))"
    using sinter_computes_intersection[OF calloc_alloc_ok example_server_ok(1) _ example_server_ok(4), of "[[2], [1], [2]]" example_env "[]"]
    by (simp add: example_server_ok)
  then show ?thesis by (rule yields_mono) (use out in \<open>fastforce split: prod.splits\<close>)
qed

theorem sunion_computes_union_witness:
  "yields calloc_alloc (sunionstoreCommand example_env calloc_alloc example_server [1] [[2], [1], [9]])
     (\<lambda>(s', r). db_abs s' [1] = Some (Some {[55], [56]}) \<and> r = ReplyInt 2)"
proof -
  have "ss_db example_server [9] = None" by (simp add: example_server_def)
  then have "(\<Union>k \<in> set [[2], [1], [9 :: byte]]. db_set example_server k) = {[55], [56]}"
    by (auto simp: example_server_ok db_set_None)
  then have "yields calloc_alloc (sunionstoreCommand example_env calloc_alloc example_server [1] [[2], [1], [9]])
     (\<lambda>(s', r). srv_inv example_env s' \<and> db_abs s' = put_result [1] {[55], [56]} example_server \<and> r = ReplyInt 2)"
    using sunion_computes_union[OF calloc_alloc_ok example_server_ok(1,4), of "[[2], [1], [9]]" example_env "[1]"] by simp
  then show ?thesis by (rule yields_mono) (simp add: put_result_def case_prod_beta)
qed

theorem sdiff_computes_difference_witness:
  "yields calloc_alloc (sdiffstoreCommand example_env calloc_alloc example_server [3] [[2], [1]])
     (\<lambda>(s', r). db_abs s' [3] = Some (Some {[56]}) \<and> r = ReplyInt 1)"
proof -
  have "db_set example_server [2] - (\<Union>k \<in> set [[1 :: byte]]. db_set example_server k) = {[56]}"
    by (auto simp: example_server_ok)
  then have "yields calloc_alloc (sdiffstoreCommand example_env calloc_alloc example_server [3] [[2], [1]])
     (\<lambda>(s', r). srv_inv example_env s' \<and> db_abs s' = put_result [3] {[56]} example_server \<and> r = ReplyInt 1)"
    using sdiff_computes_difference[where key = "[2]" and keys = "[[1]]" and dst = "[3]" and env = example_env,
        OF calloc_alloc_ok example_server_ok(1,4)]
    by (simp add: example_server_ok(2,3))
  then show ?thesis by (rule yields_mono) (simp add: put_result_def case_prod_beta)
qed

theorem set_updates_keep_invariant_witness:
  "yields calloc_alloc (sremCommand example_env calloc_alloc example_server [1] [[55], [97]])
     (\<lambda>(s', r). srv_inv example_env s' \<and> db_abs s' [1] = None \<and> r = ReplyInt 1)"
proof -
  have "{[55 :: byte]} - set [[55], [97]] = {}" "set [[55], [97]] \<inter> {[55 :: byte]} = {[55]}" by auto
  then have "yields calloc_alloc (sremCommand example_env calloc_alloc example_server [1] [[55], [97]])
     (\<lambda>(s', r). srv_inv example_env s' \<and> db_abs s' = put_result [1] {} example_server \<and> r = ReplyInt 1 \<and> ss_dirty s' = ss_dirty example_server + 1)"
    using set_updates_keep_invariant[where vals = "[[55], [97]]" and ele = "[55]" and key = "[1]" and dst = "[2]" and env = example_env,
        OF calloc_alloc_ok example_server_ok(1,4)]
    by (simp add: example_server_ok(2,3))
  then show ?thesis by (rule yields_mono) (simp add: put_result_def case_prod_beta del: db_abs_simps)
qed

end
