(* ===== verification/PocketDB.thy ===== *)
theory PocketDB
  imports Decimal "HOL-Library.List_Lexorder" "HOL-Library.Sublist"
begin

text \<open>
  The in-memory store of pocketDB (\<open>src/pocketDB\<close>): rows of cells, their compact form as bytes, and the
  tree from keys to compacted rows. A C string is the list of its bytes before the terminator. Output is
  the list of what is displayed. \<open>exit(EXIT_FAILURE)\<close> is the error \<open>AssertFail\<close>.
\<close>

section \<open>Library functions\<close>

text \<open>\<open>strcmp\<close> compares up to and including the terminators.\<close>

definition strcmp :: "byte list \<Rightarrow> byte list \<Rightarrow> int" where
  "strcmp a b = memcmp (a @ [0]) (b @ [0])"

text \<open>The C string at the start of a region.\<close>

definition c_string :: "byte list \<Rightarrow> byte list res" where
  "c_string buf = (if 0 \<in> set buf then Inr (takeWhile (\<lambda>b. b \<noteq> 0) buf) else Inl OutOfBounds)"

definition strdup :: "allocator \<Rightarrow> byte list \<Rightarrow> byte list option" where
  "strdup m s = (if m (length s + 1) = None then None else Some s)"

text \<open>The string behind a pointer that may be NULL.\<close>

definition the_str :: "byte list option \<Rightarrow> byte list res" where
  "the_str p = (case p of None \<Rightarrow> Inl NullDeref | Some s \<Rightarrow> Inr s)"

text \<open>What \<open>strncpy\<close> stores: at most \<open>n\<close> bytes of the string at \<open>i\<close>, filled up with zeros.\<close>

primrec strncpy_src :: "byte list \<Rightarrow> nat \<Rightarrow> nat \<Rightarrow> byte list res" where
  "strncpy_src buf i 0 = Inr []"
| "strncpy_src buf i (Suc n) =
     bindE (getb buf i) (\<lambda>b.
       if b = 0 then Inr (replicate (Suc n) 0)
       else bindE (strncpy_src buf (i + 1) n) (\<lambda>bs. Inr (b # bs)))"

text \<open>\<open>atoi\<close>; a value outside the range of \<open>int\<close> is undefined.\<close>

definition atoi :: "byte list \<Rightarrow> int res" where
  "atoi s =
     (let s = dropWhile isspace s;
          neg = (s \<noteq> [] \<and> hd s = 45);
          ds = (if s \<noteq> [] \<and> (hd s = 45 \<or> hd s = 43) then tl s else s);
          n = int (digits_val (takeWhile isdigit ds));
          v = (if neg then - n else n) in
      if - (2 ^ 31) \<le> v \<and> v < 2 ^ 31 then Inr v else Inl UndefBehaviour)"

text \<open>Formatting with \<open>%f\<close> and \<open>atof\<close> on a type of floating point numbers.\<close>

record 'f float_ops =
  fmt_f :: "'f \<Rightarrow> byte list"
  atof :: "byte list \<Rightarrow> 'f"

abbreviation u32 :: "nat \<Rightarrow> nat" where
  "u32 n \<equiv> n mod 2 ^ 32"

section \<open>Rows\<close>

text \<open>The types of cells, \<open>INT\<close>, \<open>FLOAT\<close> and \<open>STRING\<close>.\<close>

abbreviation DT_INT :: byte where "DT_INT \<equiv> 1"
abbreviation DT_FLOAT :: byte where "DT_FLOAT \<equiv> 2"
abbreviation DT_STRING :: byte where "DT_STRING \<equiv> 4"

text \<open>The union, with the member that was stored last. Strings are results of \<open>strdup\<close>, which may be NULL.\<close>

datatype 'f cell_val = IVal int | FVal 'f | SVal "byte list option" | Unset

record 'f cell =
  c_dt :: byte
  c_name_len :: byte
  c_name :: "byte list option"
  c_val_len :: byte
  c_val :: "'f cell_val"

text \<open>A linked list of cells is the list of its cells; a new one goes to the end.\<close>

primrec linked_list :: "'f cell list \<Rightarrow> 'f cell \<Rightarrow> 'f cell list" where
  "linked_list [] new_cell = [new_cell]"
| "linked_list (c # cs) new_cell = c # linked_list cs new_cell"

text \<open>
  One cell from the type, the name and the value that were entered. The result of \<open>malloc\<close> is not
  checked; \<open>sizeof(CellData)\<close> is 40.
\<close>

definition input_cell :: "allocator \<Rightarrow> 'f float_ops \<Rightarrow> byte list \<Rightarrow> byte list \<Rightarrow> byte list \<Rightarrow> 'f cell res" where
  "input_cell m fo dt cellname data_val =
     (if m 40 = None then Inl NullDeref
      else bindE (if dt = [] then Inl AssertFail
                  else if hd dt = 73 then bindE (atoi data_val) (\<lambda>v. Inr (DT_INT, IVal v))
                  else if hd dt = 70 then Inr (DT_FLOAT, FVal (atof fo data_val))
                  else if hd dt = 83 then Inr (DT_STRING, SVal (strdup m data_val))
                  else Inl AssertFail) (\<lambda>(t, v).
             Inr \<lparr>c_dt = t, c_name_len = word_of_nat (length cellname), c_name = strdup m cellname,
                  c_val_len = word_of_nat (length data_val), c_val = v\<rparr>))"

definition cellnames :: "byte list list" where
  "cellnames = [[66, 82, 65, 78, 67, 72], [78, 65, 77, 69], [82, 79, 76, 76]]"
definition branchval :: "byte list list" where
  "branchval = [[79, 83, 83], [67, 67, 86, 84], [67, 83, 70]]"
definition nameval :: "byte list list" where
  "nameval = [[65, 74, 65, 89], [86, 73, 74, 65, 89], [77, 73, 78, 65, 76]]"
definition rollval :: "byte list list" where
  "rollval = [[56, 57], [56, 48], [57, 49]]"
definition dtval :: "byte list list" where
  "dtval = [[83], [83], [73]]"

text \<open>The row for the call number \<open>j\<close>; the counter is static.\<close>

definition row_input :: "allocator \<Rightarrow> 'f float_ops \<Rightarrow> nat \<Rightarrow> 'f cell list res" where
  "row_input m fo j =
     bindE (input_cell m fo (dtval ! 0) (cellnames ! 0) (branchval ! (j mod 3))) (\<lambda>c0.
     bindE (input_cell m fo (dtval ! 1) (cellnames ! 1) (nameval ! (j mod 3))) (\<lambda>c1.
     bindE (input_cell m fo (dtval ! 2) (cellnames ! 2) (rollval ! (j mod 3))) (\<lambda>c2.
       Inr (linked_list (linked_list (linked_list [] c0) c1) c2))))"

primrec row_length_loop :: "'f cell list \<Rightarrow> nat \<Rightarrow> nat" where
  "row_length_loop [] row_len = row_len"
| "row_length_loop (c # cs) row_len =
     row_length_loop cs (u32 (u32 (row_len + 3) + unat (c_name_len c) + unat (c_val_len c)))"

definition row_length :: "'f cell list \<Rightarrow> nat" where
  "row_length cells = row_length_loop cells 1"

text \<open>What is printed for the value of a cell; nothing for an unknown type.\<close>

definition cell_text :: "'f float_ops \<Rightarrow> 'f cell \<Rightarrow> byte list option res" where
  "cell_text fo c =
     (if c_dt c = DT_INT then (case c_val c of IVal v \<Rightarrow> Inr (Some (dec_int v)) | _ \<Rightarrow> Inl UndefBehaviour)
      else if c_dt c = DT_FLOAT then (case c_val c of FVal v \<Rightarrow> Inr (Some (fmt_f fo v)) | _ \<Rightarrow> Inl UndefBehaviour)
      else if c_dt c = DT_STRING then (case c_val c of SVal p \<Rightarrow> bindE (the_str p) (\<lambda>s. Inr (Some s)) | _ \<Rightarrow> Inl UndefBehaviour)
      else Inr None)"

primrec compact_loop :: "'f float_ops \<Rightarrow> nat \<Rightarrow> 'f cell list \<Rightarrow> nat \<Rightarrow> nat \<Rightarrow> byte list \<Rightarrow> (byte list \<times> nat) res" where
  "compact_loop fo data_len [] i cols buf = Inr (buf, cols)"
| "compact_loop fo data_len (c # cs) i cols buf =
     (if i < data_len then
        bindE (mem_write buf i [c_dt c]) (\<lambda>buf.
        let i = u32 (i + 1) in
        bindE (mem_write buf i [c_name_len c]) (\<lambda>buf.
        let i = u32 (i + 1) in
        bindE (the_str (c_name c)) (\<lambda>name.
        bindE (mem_write buf i (name @ [0])) (\<lambda>buf.
        let i = u32 (i + unat (c_name_len c)) in
        bindE (mem_write buf i [c_val_len c]) (\<lambda>buf.
        let i = u32 (i + 1) in
        bindE (cell_text fo c) (\<lambda>t.
        bindE (case t of None \<Rightarrow> Inr buf | Some s \<Rightarrow> mem_write buf i (s @ [0])) (\<lambda>buf.
          compact_loop fo data_len cs (u32 (i + unat (c_val_len c))) (u32 (cols + 1)) buf)))))))
      else Inr (buf, cols))"

definition data_compact :: "allocator \<Rightarrow> 'f float_ops \<Rightarrow> 'f cell list \<Rightarrow> byte list res" where
  "data_compact m fo cells =
     (if cells = [] then Inl AssertFail
      else case m (row_length cells) of
        None \<Rightarrow> Inl AssertFail
      | Some buf \<Rightarrow>
          bindE (compact_loop fo (row_length cells) cells 1 0 buf) (\<lambda>(buf, cols). mem_write buf 0 [word_of_nat cols]))"

text \<open>
  The inverse. \<open>temp_array\<close> is an array of 255 bytes on the stack; its contents before the call are an
  argument. It is written and read back as a C string.
\<close>

definition temp_copy :: "byte list \<Rightarrow> byte list \<Rightarrow> nat \<Rightarrow> nat \<Rightarrow> (byte list \<times> byte list) res" where
  "temp_copy temp_array val i n =
     bindE (strncpy_src val i n) (\<lambda>bs.
     bindE (mem_write temp_array 0 bs) (\<lambda>temp_array.
     bindE (mem_write temp_array n [0]) (\<lambda>temp_array.
     bindE (c_string temp_array) (\<lambda>s. Inr (temp_array, s)))))"

primrec expand_loop ::
    "allocator \<Rightarrow> 'f float_ops \<Rightarrow> byte list \<Rightarrow> nat \<Rightarrow> nat \<Rightarrow> byte list \<Rightarrow> 'f cell list \<Rightarrow> 'f cell list res" where
  "expand_loop m fo val 0 i temp_array first_cell = Inr first_cell"
| "expand_loop m fo val (Suc n) i temp_array first_cell =
     (if m 40 = None then Inl AssertFail else
     bindE (getb val i) (\<lambda>dt.
     bindE (getb val (i + 1)) (\<lambda>name_len.
     bindE (temp_copy temp_array val (i + 2) (unat name_len)) (\<lambda>(temp_array, name).
     let i = i + 2 + unat name_len in
     bindE (getb val i) (\<lambda>val_len.
     bindE (temp_copy temp_array val (i + 1) (unat val_len)) (\<lambda>(temp_array, s).
     let i = i + 1 + unat val_len in
     bindE (if dt = DT_INT then bindE (atoi s) (\<lambda>v. Inr (IVal v))
            else if dt = DT_FLOAT then Inr (FVal (atof fo s))
            else if dt = DT_STRING then Inr (SVal (strdup m s))
            else Inr Unset) (\<lambda>v.
       expand_loop m fo val n i temp_array
         (linked_list first_cell
            \<lparr>c_dt = dt, c_name_len = name_len, c_name = strdup m name, c_val_len = val_len, c_val = v\<rparr>))))))))"

definition data_expand :: "allocator \<Rightarrow> 'f float_ops \<Rightarrow> byte list \<Rightarrow> byte list \<Rightarrow> 'f cell list res" where
  "data_expand m fo temp_array val = bindE (getb val 0) (\<lambda>data_len. expand_loop m fo val (unat data_len) 1 temp_array [])"

section \<open>The tree\<close>

text \<open>
  Keys and values are results of \<open>strdup\<close>, which may be NULL; a value is kept without its terminator.
  \<open>sizeof(NODE)\<close> is 32.
\<close>

datatype node = NULL_NODE | NODE node node "byte list option" "byte list option"

record treemap =
  t_size :: int
  t_root :: node

definition new_tree_map :: "allocator \<Rightarrow> treemap option" where
  "new_tree_map m = (if m 16 = None then None else Some \<lparr>t_size = 0, t_root = NULL_NODE\<rparr>)"

primrec new_node :: "allocator \<Rightarrow> node \<Rightarrow> byte list \<Rightarrow> byte list \<Rightarrow> node res" where
  "new_node m NULL_NODE key value =
     (if m 32 = None then Inl NullDeref
      else bindE (c_string value) (\<lambda>v. Inr (NODE NULL_NODE NULL_NODE (strdup m key) (strdup m v))))"
| "new_node m (NODE l r k v) key value =
     bindE (the_str k) (\<lambda>rk.
       let cond = strcmp key rk in
       if cond = 0 then bindE (c_string value) (\<lambda>v. Inr (NODE l r k (strdup m v)))
       else if cond < 0 then bindE (new_node m l key value) (\<lambda>l. Inr (NODE l r k v))
       else bindE (new_node m r key value) (\<lambda>r. Inr (NODE l r k v)))"

definition tree_put :: "allocator \<Rightarrow> 'f float_ops \<Rightarrow> treemap \<Rightarrow> byte list \<Rightarrow> 'f cell list \<Rightarrow> treemap res" where
  "tree_put m fo tree key row_data =
     bindE (data_compact m fo row_data) (\<lambda>value.
     bindE (new_node m (t_root tree) key value) (\<lambda>root.
       if root = NULL_NODE then Inr (tree\<lparr>t_root := root\<rparr>)
       else if t_size tree = 2 ^ 31 - 1 then Inl UndefBehaviour
       else Inr (tree\<lparr>t_root := root, t_size := t_size tree + 1\<rparr>)))"

definition show_node ::
    "allocator \<Rightarrow> 'f float_ops \<Rightarrow> byte list \<Rightarrow> byte list option \<Rightarrow> byte list option \<Rightarrow> (byte list \<times> 'f cell list) res" where
  "show_node m fo temp k v =
     bindE (the_str v) (\<lambda>s. bindE (data_expand m fo temp (s @ [0])) (\<lambda>row. bindE (the_str k) (\<lambda>key. Inr (key, row))))"

primrec tree_get_all :: "allocator \<Rightarrow> 'f float_ops \<Rightarrow> byte list \<Rightarrow> node \<Rightarrow> (byte list \<times> 'f cell list) list res" where
  "tree_get_all m fo temp NULL_NODE = Inr []"
| "tree_get_all m fo temp (NODE l r k v) =
     bindE (tree_get_all m fo temp l) (\<lambda>out1.
     bindE (show_node m fo temp k v) (\<lambda>x.
     bindE (tree_get_all m fo temp r) (\<lambda>out2. Inr (out1 @ [x] @ out2))))"

primrec tree_get_in_range ::
    "allocator \<Rightarrow> 'f float_ops \<Rightarrow> byte list \<Rightarrow> node \<Rightarrow> byte list \<Rightarrow> byte list \<Rightarrow> (byte list \<times> 'f cell list) list res" where
  "tree_get_in_range m fo temp NULL_NODE first_key last_key = Inr []"
| "tree_get_in_range m fo temp (NODE l r k v) first_key last_key =
     bindE (the_str k) (\<lambda>rk.
       if strcmp rk first_key \<ge> 0 \<and> strcmp rk last_key \<le> 0 then
         bindE (tree_get_in_range m fo temp l first_key last_key) (\<lambda>out1.
         bindE (show_node m fo temp k v) (\<lambda>x.
         bindE (tree_get_in_range m fo temp r first_key last_key) (\<lambda>out2. Inr (out1 @ [x] @ out2))))
       else Inr [])"

text \<open>
  The function has no \<open>return\<close> for its recursive calls: \<open>None\<close> is a call that ended without a value.
  Using that value is undefined; the recursive calls do not use it.
\<close>

primrec get_node :: "node \<Rightarrow> byte list \<Rightarrow> node option res" where
  "get_node NULL_NODE key = Inr (Some NULL_NODE)"
| "get_node (NODE l r k v) key =
     bindE (the_str k) (\<lambda>rk.
       if strcmp key rk = 0 then Inr (Some (NODE l r k v))
       else if strcmp key rk < 0 then bindE (get_node l key) (\<lambda>_. Inr None)
       else bindE (get_node r key) (\<lambda>_. Inr None))"

definition tree_get ::
    "allocator \<Rightarrow> 'f float_ops \<Rightarrow> byte list \<Rightarrow> treemap \<Rightarrow> byte list \<Rightarrow> (int \<times> (byte list \<times> 'f cell list) option) res" where
  "tree_get m fo temp tree key =
     bindE (get_node (t_root tree) key) (\<lambda>p.
       case p of
         None \<Rightarrow> Inl UndefBehaviour
       | Some NULL_NODE \<Rightarrow> Inr (- 1, None)
       | Some (NODE l r k v) \<Rightarrow>
           bindE (the_str v) (\<lambda>s. bindE (data_expand m fo temp (s @ [0])) (\<lambda>row. Inr (1, Some (key, row)))))"

section \<open>Rows and their compact form\<close>

lemma linked_list_append [simp]: "linked_list cs c = cs @ [c]"
  by (induction cs) simp_all

text \<open>
  What is printed for a cell, the number of bytes counted for it, and a cell for which something can be
  printed: its name is there, with its length, and the value has the type of the cell.
\<close>

definition printed :: "'f float_ops \<Rightarrow> 'f cell \<Rightarrow> byte list" where
  "printed fo c = (case cell_text fo c of Inr (Some s) \<Rightarrow> s | _ \<Rightarrow> [])"

definition cell_size :: "'f cell \<Rightarrow> nat" where
  "cell_size c = 3 + unat (c_name_len c) + unat (c_val_len c)"

definition cell_ok :: "'f float_ops \<Rightarrow> 'f cell \<Rightarrow> bool" where
  "cell_ok fo c \<longleftrightarrow> c_name c \<noteq> None \<and> unat (c_name_len c) = length (the (c_name c)) \<and> (\<exists>s. cell_text fo c = Inr (Some s))"

definition cell_head :: "'f cell \<Rightarrow> byte list" where
  "cell_head c = [c_dt c, c_name_len c] @ the (c_name c) @ [c_val_len c]"

lemma length_cell_head: "cell_ok fo c \<Longrightarrow> length (cell_head c) = 3 + unat (c_name_len c)"
  by (simp add: cell_ok_def cell_head_def)

lemma row_length_loop_eq:
  "n + sum_list (map cell_size cells) < 2 ^ 32 \<Longrightarrow> row_length_loop cells n = n + sum_list (map cell_size cells)"
proof (induction cells arbitrary: n)
  case (Cons c cs)
  have "u32 (u32 (n + 3) + unat (c_name_len c) + unat (c_val_len c)) = n + cell_size c"
    using Cons.prems by (simp add: cell_size_def)
  then show ?case using Cons by simp
qed simp

lemma row_length_eq: "1 + sum_list (map cell_size cells) < 2 ^ 32 \<Longrightarrow> row_length cells = 1 + sum_list (map cell_size cells)"
  using row_length_loop_eq[of 1 cells] by (simp add: row_length_def)

text \<open>A write that extends what is known of a region.\<close>

lemma mem_write_extend:
  assumes "take i buf = pre" "length pre = i" "i + length bs + length rs \<le> length buf"
  obtains buf' where "mem_write buf i (bs @ rs) = Inr buf'" "length buf' = length buf" "take (i + length bs) buf' = pre @ bs"
    "take (i + length bs + length rs) buf' = pre @ bs @ rs"
proof
  show "mem_write buf i (bs @ rs) = Inr (take i buf @ (bs @ rs) @ drop (i + length (bs @ rs)) buf)" using assms(3) by simp
qed (use assms in auto)

text \<open>
  One step of the loop. It needs room for the terminator after the text of the value; the next cell
  starts where the length entered for the value says.
\<close>

lemma compact_step:
  assumes ok: "cell_ok fo c" and pre: "take i buf = pre" "length pre = i"
    and room: "i + length (cell_head c) + length (printed fo c) < length buf" and len: "i < data_len" "i + cell_size c < 2 ^ 32"
  obtains buf' where "compact_loop fo data_len (c # cs) i cols buf = compact_loop fo data_len cs (i + cell_size c) (u32 (cols + 1)) buf'"
    "length buf' = length buf"
    "take (i + length (cell_head c) + length (printed fo c) + 1) buf' = pre @ cell_head c @ printed fo c @ [0]"
proof -
  obtain name where name: "c_name c = Some name" using ok by (auto simp: cell_ok_def)
  let ?n = "length name" and ?s = "printed fo c"
  have c: "cell_text fo c = Inr (Some ?s)" "unat (c_name_len c) = ?n" "the_str (c_name c) = Inr name"
    using ok name by (auto simp: cell_ok_def printed_def the_str_def)
  have L: "length (cell_head c) = 3 + ?n" by (simp add: cell_head_def name)
  obtain b1 where b1: "mem_write buf i [c_dt c] = Inr b1" "length b1 = length buf" "take (i + 1) b1 = pre @ [c_dt c]"
    using mem_write_extend[OF pre, of "[c_dt c]" "[]"] room L by auto
  obtain b2 where b2: "mem_write b1 (i + 1) [c_name_len c] = Inr b2" "length b2 = length buf" "take (i + 2) b2 = pre @ [c_dt c, c_name_len c]"
    using mem_write_extend[OF b1(3), of "[c_name_len c]" "[]"] room L b1 pre by auto
  obtain b3 where b3: "mem_write b2 (i + 2) (name @ [0]) = Inr b3" "length b3 = length buf"
    "take (i + 2 + ?n) b3 = pre @ [c_dt c, c_name_len c] @ name"
    using mem_write_extend[OF b2(3), of name "[0]"] room L b2 pre by auto
  obtain b4 where b4: "mem_write b3 (i + 2 + ?n) [c_val_len c] = Inr b4" "length b4 = length buf"
    "take (i + 2 + ?n + 1) b4 = pre @ cell_head c"
    using mem_write_extend[OF b3(3), of "[c_val_len c]" "[]"] room L b3 pre by (auto simp: cell_head_def name)
  obtain b5 where b5: "mem_write b4 (i + 2 + ?n + 1) (?s @ [0]) = Inr b5" "length b5 = length buf"
    "take (i + 2 + ?n + 1 + length ?s + 1) b5 = pre @ cell_head c @ ?s @ [0]"
    using mem_write_extend[OF b4(3), of ?s "[0]"] room L b4 pre by auto
  have u: "u32 (i + 1) = i + 1" "u32 (i + 1 + 1) = i + 2" "u32 (i + 2 + ?n) = i + 2 + ?n" "u32 (i + 2 + ?n + 1) = i + 2 + ?n + 1"
    "u32 (i + 2 + ?n + 1 + unat (c_val_len c)) = i + cell_size c" using len c(2) by (simp_all add: cell_size_def)
  have idx: "i + length (cell_head c) + length ?s + 1 = i + 2 + ?n + 1 + length ?s + 1" using L by simp
  show ?thesis
  proof (rule that[of b5])
    show "compact_loop fo data_len (c # cs) i cols buf = compact_loop fo data_len cs (i + cell_size c) (u32 (cols + 1)) b5"
      unfolding compact_loop.simps if_P[OF len(1)] b1(1) bindE_simps Let_def u b2(1) c b3(1) b4(1) option.case b5(1) ..
  qed (use b5 in \<open>simp_all only: idx\<close>)
qed

lemma compact_step_overruns:
  assumes ok: "cell_ok fo c" and "length buf \<le> i + length (cell_head c) + length (printed fo c)"
    and len: "i < data_len" "i + cell_size c < 2 ^ 32"
  shows "compact_loop fo data_len (c # cs) i cols buf = Inl OutOfBounds"
proof -
  obtain name where name: "c_name c = Some name" using ok by (auto simp: cell_ok_def)
  let ?n = "length name" and ?s = "printed fo c"
  have c: "cell_text fo c = Inr (Some ?s)" "unat (c_name_len c) = ?n" "the_str (c_name c) = Inr name"
    using ok name by (auto simp: cell_ok_def printed_def the_str_def)
  have L: "length buf \<le> i + 3 + ?n + length ?s" using assms(2) by (simp add: cell_head_def name)
  have u: "u32 (i + 1) = i + 1" "u32 (i + 1 + 1) = i + 2" "u32 (i + 2 + ?n) = i + 2 + ?n" "u32 (i + 2 + ?n + 1) = i + 2 + ?n + 1"
    using len c(2) by (simp_all add: cell_size_def)
  show ?thesis
    unfolding compact_loop.simps if_P[OF len(1)] bindE_simps Let_def u c option.case
    using L by (auto simp: mem_write_def)
qed

text \<open>
  The whole loop: \<open>loop_end\<close> is the position of the terminator written after the value of a cell. If one of
  them is outside the region the loop leaves it, otherwise it returns; if no value is longer than what
  is printed for it, the region then holds the cells with the values cut to their lengths.
\<close>

definition loop_end :: "'f float_ops \<Rightarrow> 'f cell list \<Rightarrow> nat \<Rightarrow> nat \<Rightarrow> nat" where
  "loop_end fo cells i k =
     i + sum_list (map cell_size (take k cells)) + length (cell_head (cells ! k)) + length (printed fo (cells ! k))"

lemma loop_end_simps [simp]:
  "loop_end fo (c # cs) i 0 = i + length (cell_head c) + length (printed fo c)"
  "loop_end fo (c # cs) i (Suc k) = loop_end fo cs (i + cell_size c) k"
  by (simp_all add: loop_end_def)

lemma compact_loop_overruns:
  assumes "\<forall>c \<in> set cells. cell_ok fo c" "k < length cells" "length buf \<le> loop_end fo cells i k" "length pre = i" "take i buf = pre"
    "data_len = i + sum_list (map cell_size cells)" "data_len < 2 ^ 32" "data_len \<le> length buf"
  shows "compact_loop fo data_len cells i cols buf = Inl OutOfBounds"
  using assms
proof (induction cells arbitrary: i k buf pre cols)
  case (Cons c cs)
  have ok: "cell_ok fo c" "i < data_len" "i + cell_size c < 2 ^ 32" using Cons.prems by (auto simp: cell_size_def)
  show ?case
  proof (cases "i + length (cell_head c) + length (printed fo c) < length buf")
    case True
    then obtain k' where k': "k = Suc k'" using Cons.prems(3) by (cases k) auto
    obtain buf' where b: "compact_loop fo data_len (c # cs) i cols buf = compact_loop fo data_len cs (i + cell_size c) (u32 (cols + 1)) buf'"
      "length buf' = length buf" using compact_step[OF ok(1) Cons.prems(5,4) True ok(2,3)] by metis
    show ?thesis unfolding b(1)
      by (rule Cons.IH[where k = k' and pre = "take (i + cell_size c) buf'"]) (use Cons.prems b(2) k' in auto)
  next
    case False
    then show ?thesis using compact_step_overruns[OF ok(1) _ ok(2,3)] by simp
  qed
qed simp

lemma compact_loop_returns:
  assumes "\<forall>c \<in> set cells. cell_ok fo c" "\<forall>k < length cells. loop_end fo cells i k < length buf" "take i buf = pre" "length pre = i"
    "data_len = i + sum_list (map cell_size cells)" "data_len < 2 ^ 32" "data_len \<le> length buf"
  shows "\<exists>buf' cols'. compact_loop fo data_len cells i cols buf = Inr (buf', cols') \<and> length buf' = length buf"
  using assms
proof (induction cells arbitrary: i buf pre cols)
  case (Cons c cs)
  have ok: "cell_ok fo c" "i < data_len" "i + cell_size c < 2 ^ 32" using Cons.prems by (auto simp: cell_size_def)
  have room: "i + length (cell_head c) + length (printed fo c) < length buf" using Cons.prems(2)[rule_format, of 0] by simp
  obtain buf' where b: "compact_loop fo data_len (c # cs) i cols buf = compact_loop fo data_len cs (i + cell_size c) (u32 (cols + 1)) buf'"
    "length buf' = length buf" using compact_step[OF ok(1) Cons.prems(3,4) room ok(2,3)] by metis
  have "\<forall>k < length cs. loop_end fo cs (i + cell_size c) k < length buf'"
    using Cons.prems(2)[rule_format, of "Suc k" for k] b(2) by simp
  then show ?case unfolding b(1)
    using Cons.IH[of "i + cell_size c" buf' "take (i + cell_size c) buf'" "u32 (cols + 1)"] Cons.prems b(2) by simp
qed simp

definition cell_bytes :: "'f float_ops \<Rightarrow> 'f cell \<Rightarrow> byte list" where
  "cell_bytes fo c = cell_head c @ take (unat (c_val_len c)) (printed fo c)"

definition row_bytes :: "'f float_ops \<Rightarrow> 'f cell list \<Rightarrow> byte list" where
  "row_bytes fo cells = concat (map (cell_bytes fo) cells)"

lemma compact_loop_bytes:
  assumes "\<forall>c \<in> set cells. cell_ok fo c \<and> unat (c_val_len c) \<le> length (printed fo c)" "cells \<noteq> []"
    "\<forall>k < length cells. loop_end fo cells i k < length buf" "take i buf = pre" "length pre = i"
    "data_len = i + sum_list (map cell_size cells)" "data_len < 2 ^ 32" "cols + length cells < 2 ^ 32"
  shows "\<exists>buf' rest. compact_loop fo data_len cells i cols buf = Inr (buf', cols + length cells)
    \<and> buf' = pre @ row_bytes fo cells @ drop (unat (c_val_len (last cells))) (printed fo (last cells)) @ 0 # rest"
  using assms
proof (induction cells arbitrary: i buf pre cols)
  case (Cons c cs)
  let ?e = "i + length (cell_head c) + length (printed fo c)"
  have ok: "cell_ok fo c" "i < data_len" "i + cell_size c < 2 ^ 32" "unat (c_val_len c) \<le> length (printed fo c)"
    using Cons.prems by (auto simp: cell_size_def)
  have room: "?e < length buf" using Cons.prems(3)[rule_format, of 0] by simp
  have cols: "u32 (cols + 1) = cols + 1" using Cons.prems(8) by simp
  obtain buf' where b: "compact_loop fo data_len (c # cs) i cols buf = compact_loop fo data_len cs (i + cell_size c) (cols + 1) buf'"
    "length buf' = length buf" "take (?e + 1) buf' = pre @ cell_head c @ printed fo c @ [0]"
    using compact_step[OF ok(1) Cons.prems(4,5) room ok(2,3), of cs cols] unfolding cols by metis
  show ?case
  proof (cases "cs = []")
    case True
    have "buf' = (pre @ cell_head c @ printed fo c @ [0]) @ drop (?e + 1) buf'" unfolding b(3)[symmetric] by simp
    moreover have "cell_bytes fo c @ drop (unat (c_val_len c)) (printed fo c) = cell_head c @ printed fo c" by (simp add: cell_bytes_def)
    ultimately have "buf' = pre @ (cell_bytes fo c @ drop (unat (c_val_len c)) (printed fo c)) @ 0 # drop (?e + 1) buf'" by simp
    then show ?thesis unfolding b(1) using True by (intro exI[of _ buf'] exI[of _ "drop (?e + 1) buf'"]) (simp add: row_bytes_def)
  next
    case False
    have le: "i + cell_size c \<le> ?e" using ok(4) length_cell_head[OF ok(1)] by (simp add: cell_size_def)
    have "take (i + cell_size c) buf' = take (i + cell_size c) (take (?e + 1) buf')" using le by (simp add: min_def)
    also have "\<dots> = pre @ cell_bytes fo c"
      unfolding b(3) using Cons.prems(5) length_cell_head[OF ok(1)] ok(4) by (simp add: cell_size_def cell_bytes_def)
    finally have pre: "take (i + cell_size c) buf' = pre @ cell_bytes fo c" .
    have "\<forall>k < length cs. loop_end fo cs (i + cell_size c) k < length buf'"
      using Cons.prems(3)[rule_format, of "Suc k" for k] b(2) by simp
    then obtain buf2 rest where "compact_loop fo data_len cs (i + cell_size c) (cols + 1) buf' = Inr (buf2, cols + 1 + length cs)"
      "buf2 = (pre @ cell_bytes fo c) @ row_bytes fo cs @ drop (unat (c_val_len (last cs))) (printed fo (last cs)) @ 0 # rest"
      using Cons.IH[OF _ False _ pre, of "cols + 1"] Cons.prems length_cell_head[OF ok(1)] ok(4)
      by (auto simp: cell_bytes_def cell_size_def)
    then show ?thesis unfolding b(1) using False by (intro exI[of _ buf2] exI[of _ rest]) (simp add: row_bytes_def)
  qed
qed simp

lemma strncpy_src_ok: "drop i buf = t @ rest \<Longrightarrow> 0 \<notin> set t \<Longrightarrow> strncpy_src buf i (length t) = Inr t"
proof (induction t arbitrary: i)
  case (Cons b t)
  have i: "i < length buf" using Cons.prems(1) by (metis append_Cons drop_eq_Nil linorder_not_le list.distinct(1))
  then have "buf ! i = b" "drop (i + 1) buf = t @ rest" using Cons.prems(1) by (simp_all flip: Cons_nth_drop_Suc)
  then show ?case using Cons i by simp
qed simp

lemma c_string_ok: "0 \<notin> set t \<Longrightarrow> c_string (t @ 0 # rest) = Inr t"
  by (simp add: c_string_def takeWhile_nul)

lemma temp_copy_ok:
  assumes "length temp = 255" "length t < 255" "drop i val = t @ rest" "0 \<notin> set t"
  shows "\<exists>temp'. temp_copy temp val i (length t) = Inr (temp', t) \<and> length temp' = 255"
proof -
  let ?t1 = "t @ drop (length t) temp" and ?t2 = "t @ 0 # drop (length t + 1) (t @ drop (length t) temp)"
  have "mem_write temp 0 t = Inr ?t1" using assms by simp
  moreover have "mem_write ?t1 (length t) [0] = Inr ?t2" using assms by simp
  ultimately show ?thesis using strncpy_src_ok[OF assms(3,4)] c_string_ok[OF assms(4)] assms(1,2)
    by (simp add: temp_copy_def)
qed

text \<open>A string of 255 bytes does not fit into the array with its terminator.\<close>

lemma temp_copy_overruns:
  assumes "length temp = 255" "length t = 255" "drop i val = t @ rest" "0 \<notin> set t"
  shows "temp_copy temp val i 255 = Inl OutOfBounds"
  using strncpy_src_ok[OF assms(3,4)] assms(1,2) by (simp add: temp_copy_def mem_write_def)

lemma isdigit_not: "isdigit d \<Longrightarrow> \<not> isspace d \<and> d \<noteq> 45 \<and> d \<noteq> 43"
  by (auto simp: isdigit_def isspace_def word_le_nat_alt)

lemma atoi_dec_int: "- (2 ^ 31) \<le> v \<Longrightarrow> v < 2 ^ 31 \<Longrightarrow> atoi (dec_int v) = Inr v"
proof -
  assume v: "- (2 ^ 31) \<le> v" "v < 2 ^ 31"
  have d: "takeWhile isdigit (dec_nat n) = dec_nat n" for n using dec_nat_digits by (simp add: takeWhile_eq_all_conv)
  have h: "isdigit (hd (dec_nat n))" for n using dec_nat_digits[of n] by (meson dec_nat_ne hd_in_set)
  then have s: "dropWhile isspace (dec_nat n) = dec_nat n" "hd (dec_nat n) \<noteq> 45" "hd (dec_nat n) \<noteq> 43" for n
    using isdigit_not[OF h, of n] dec_nat_ne[of n] by (simp_all add: dropWhile_eq_self_iff)
  have m: "\<not> isspace 45" by (simp add: isspace_def)
  show ?thesis
  proof (cases "v < 0")
    case True
    then show ?thesis using v m by (simp add: atoi_def dec_int_def d Let_def)
  next
    case False
    then show ?thesis using v s by (simp add: atoi_def dec_int_def d Let_def)
  qed
qed

text \<open>
  A cell that was entered with the name \<open>name\<close> and the value \<open>t\<close>, both not empty, without zero bytes and
  shorter than the array of \<open>data_expand\<close>, where \<open>t\<close> is what is printed for the value or a beginning of it:
  any string, an integer in the form in which it is printed, or a decimal fraction with at most six
  places and no superfluous characters, to which \<open>%f\<close> adds zeros.
\<close>

definition entered :: "allocator \<Rightarrow> 'f float_ops \<Rightarrow> byte list \<times> byte list \<times> byte list \<Rightarrow> 'f cell \<Rightarrow> bool" where
  "entered m fo = (\<lambda>(dt, name, t) c. input_cell m fo dt name t = Inr c
     \<and> name \<noteq> [] \<and> 0 \<notin> set name \<and> length name < 255 \<and> t \<noteq> [] \<and> 0 \<notin> set t \<and> length t < 255
     \<and> (\<exists>u. cell_text fo c = Inr (Some (t @ u)) \<and> 0 \<notin> set u))"

lemma unat_byte_of_nat: "n < 256 \<Longrightarrow> unat (word_of_nat n :: byte) = n"
  by (simp add: unsigned_of_nat take_bit_eq_mod)

lemma entered_string_int:
  assumes "\<And>n. m n \<noteq> None" "name \<noteq> []" "0 \<notin> set name" "length name < 255"
  shows "t \<noteq> [] \<Longrightarrow> 0 \<notin> set t \<Longrightarrow> length t < 255 \<Longrightarrow> \<exists>c. entered m fo ([83], name, t) c"
    and "- (2 ^ 31) \<le> v \<Longrightarrow> v < 2 ^ 31 \<Longrightarrow> \<exists>c. entered m fo ([73], name, dec_int v) c"
proof -
  show "\<exists>c. entered m fo ([83], name, t) c" if "t \<noteq> []" "0 \<notin> set t" "length t < 255"
    using that assms by (simp add: entered_def input_cell_def cell_text_def strdup_def the_str_def)
  show "\<exists>c. entered m fo ([73], name, dec_int v) c" if v: "- (2 ^ 31) \<le> v" "v < 2 ^ 31"
  proof -
    have d: "0 \<notin> set (dec_nat n)" for n using dec_nat_digits[of n] by (auto simp: isdigit_def)
    have "nat v < 10 ^ 10" "nat (- v) < 10 ^ 10" using v by simp_all
    then have "dec_int v \<noteq> []" "0 \<notin> set (dec_int v)" "length (dec_int v) < 255"
      using length_dec_nat[of "nat v" 10] length_dec_nat[of "nat (- v)" 10] d by (auto simp: dec_int_def)
    then show ?thesis using assms atoi_dec_int[OF v] by (simp add: entered_def input_cell_def cell_text_def)
  qed
qed

lemma enteredD:
  assumes "entered m fo (dt, name, t) c" "\<And>n. m n \<noteq> None"
  shows "cell_ok fo c" "c_name c = Some name" "unat (c_name_len c) = length name" "unat (c_val_len c) = length t"
    "take (length t) (printed fo c) = t" "length t \<le> length (printed fo c)" "0 \<notin> set (printed fo c)"
    "cell_bytes fo c = [c_dt c, c_name_len c] @ name @ [c_val_len c] @ t"
    "c_dt c \<noteq> 0" "c_name_len c \<noteq> 0" "c_val_len c \<noteq> 0"
    "(if c_dt c = DT_INT then bindE (atoi t) (\<lambda>v. Inr (IVal v))
      else if c_dt c = DT_FLOAT then Inr (FVal (atof fo t))
      else if c_dt c = DT_STRING then Inr (SVal (strdup m t)) else Inr Unset) = Inr (c_val c)"
proof -
  obtain u where u: "cell_text fo c = Inr (Some (t @ u))" "0 \<notin> set u" using assms(1) by (auto simp: entered_def)
  have i: "input_cell m fo dt name t = Inr c" and
    n: "name \<noteq> []" "length name < 255" "t \<noteq> []" "0 \<notin> set t" "length t < 255" using assms(1) by (auto simp: entered_def)
  have f: "c_name c = Some name" "c_name_len c = word_of_nat (length name)" "c_val_len c = word_of_nat (length t)"
    using i assms(2) by (auto simp: input_cell_def bindE_eq_Inr strdup_def split: if_splits)
  show l: "c_name c = Some name" "unat (c_name_len c) = length name" "unat (c_val_len c) = length t"
    using f unat_byte_of_nat[of "length name"] unat_byte_of_nat[of "length t"] n by simp_all
  show "cell_ok fo c" using u l by (simp add: cell_ok_def)
  show p: "take (length t) (printed fo c) = t" "length t \<le> length (printed fo c)" "0 \<notin> set (printed fo c)"
    using u n(4) by (auto simp: printed_def)
  show "cell_bytes fo c = [c_dt c, c_name_len c] @ name @ [c_val_len c] @ t"
    using l p by (simp add: cell_bytes_def cell_head_def)
  show "c_dt c \<noteq> 0" "c_name_len c \<noteq> 0" "c_val_len c \<noteq> 0" using u l n by (auto simp: cell_text_def split: if_splits)
  show "(if c_dt c = DT_INT then bindE (atoi t) (\<lambda>v. Inr (IVal v))
      else if c_dt c = DT_FLOAT then Inr (FVal (atof fo t))
      else if c_dt c = DT_STRING then Inr (SVal (strdup m t)) else Inr Unset) = Inr (c_val c)"
    using i by (auto simp: input_cell_def bindE_eq_Inr split: if_splits)
qed

lemma expand_step:
  assumes c: "entered m fo (dt, name, t) c" and m: "\<And>n. m n \<noteq> None"
    and val: "drop i val = cell_bytes fo c @ rest" and temp: "length temp = 255"
  shows "\<exists>temp'. expand_loop m fo val (Suc n) i temp first =
      expand_loop m fo val n (i + length (cell_bytes fo c)) temp' (first @ [c]) \<and> length temp' = 255"
proof -
  note D = enteredD[OF c m]
  let ?n = "length name" and ?b = "cell_bytes fo c"
  have small: "0 \<notin> set name" "?n < 255" "0 \<notin> set t" "length t < 255" using c by (auto simp: entered_def)
  have L: "length ?b = 3 + ?n + length t" unfolding D(8) by simp
  have len: "i + length ?b \<le> length val"
    using arg_cong[OF val, of length] L by (cases "i \<le> length val") simp_all
  have dr: "drop (i + j) val = drop j (?b @ rest)" for j by (simp add: add.commute flip: val)
  have at: "val ! (i + j) = (?b @ rest) ! j" if "i + j < length val" for j using that by (simp flip: val)
  have b: "val ! i = c_dt c" "val ! (i + 1) = c_name_len c" "val ! (i + 2 + ?n) = c_val_len c"
    using at[of 0] at[of 1] at[of "2 + ?n"] len L unfolding D(8) by (simp_all add: nth_append add.assoc)
  have d: "drop (i + 2) val = name @ [c_val_len c] @ t @ rest" "drop (i + 2 + ?n + 1) val = t @ rest"
    using dr[of 2] dr[of "2 + ?n + 1"] unfolding D(8) by (simp_all add: add.assoc)
  obtain temp1 where t1: "temp_copy temp val (i + 2) ?n = Inr (temp1, name)" "length temp1 = 255"
    using temp_copy_ok[OF temp small(2) d(1) small(1)] by blast
  obtain temp2 where t2: "temp_copy temp1 val (i + 2 + ?n + 1) (length t) = Inr (temp2, t)" "length temp2 = 255"
    using temp_copy_ok[OF t1(2) small(4) d(2) small(3)] by blast
  have g: "getb val i = Inr (c_dt c)" "getb val (i + 1) = Inr (c_name_len c)" "getb val (i + 2 + ?n) = Inr (c_val_len c)"
    using b len L by (simp_all add: getb_def)
  have idx: "i + 2 + ?n + 1 + length t = i + length ?b" using L by simp
  have "strdup m name = c_name c" using D(2) m by (simp add: strdup_def)
  then have c_eq: "\<lparr>c_dt = c_dt c, c_name_len = c_name_len c, c_name = strdup m name, c_val_len = c_val_len c, c_val = c_val c\<rparr> = c" by simp
  show ?thesis
    unfolding expand_loop.simps if_not_P[OF m] g bindE_simps D(3,4) t1(1) t2(1) prod.case Let_def D(12) linked_list_append idx c_eq
    using t2(2) by (intro exI[of _ temp2]) simp
qed

lemma expand_loop_ok:
  assumes m: "\<And>n. m n \<noteq> None"
  shows "list_all2 (entered m fo) es cells \<Longrightarrow> drop i val = row_bytes fo cells @ rest \<Longrightarrow> length temp = 255 \<Longrightarrow>
   expand_loop m fo val (length cells) i temp first = Inr (first @ cells)"
proof (induction es cells arbitrary: i temp first rule: list_all2_induct)
  case (Cons e es c cs)
  obtain dt name t where e: "e = (dt, name, t)" by (cases e)
  have d: "drop i val = cell_bytes fo c @ row_bytes fo cs @ rest" using Cons.prems(1) by (simp add: row_bytes_def)
  obtain temp' where t: "expand_loop m fo val (Suc (length cs)) i temp first =
      expand_loop m fo val (length cs) (i + length (cell_bytes fo c)) temp' (first @ [c])" "length temp' = 255"
    using expand_step[OF Cons.hyps(1)[unfolded e] m d Cons.prems(2)] by blast
  have "drop (i + length (cell_bytes fo c)) val = row_bytes fo cs @ rest"
    using arg_cong[OF d, of "drop (length (cell_bytes fo c))"] by (simp add: add.commute)
  from Cons.IH[OF this t(2)] show ?case using t(1) by simp
qed simp

lemma row_bytes_entered:
  assumes m: "\<And>n. m n \<noteq> None"
  shows "list_all2 (entered m fo) es cells \<Longrightarrow> 0 \<notin> set (row_bytes fo cells) \<and> sum_list (map cell_size cells) \<le> 511 * length cells
    \<and> (\<forall>c \<in> set cells. cell_ok fo c \<and> unat (c_val_len c) \<le> length (printed fo c) \<and> 0 \<notin> set (printed fo c))"
proof (induction es cells rule: list_all2_induct)
  case (Cons e es c cs)
  obtain dt name t where e: "e = (dt, name, t)" by (cases e)
  note D = enteredD[OF Cons.hyps(1)[unfolded e] m]
  have "0 \<notin> set name" "length name < 255" "0 \<notin> set t" "length t < 255" using Cons.hyps(1) e by (auto simp: entered_def)
  then have "0 \<notin> set (cell_bytes fo c)" "cell_size c \<le> 511" using D(3,4,8-11) by (auto simp: cell_size_def)
  then show ?case using Cons.IH D(1,4,6,7) by (simp add: row_bytes_def)
qed (simp add: row_bytes_def)

section \<open>The search tree\<close>

lemma memcmp_term:
  "0 \<notin> set a \<Longrightarrow> 0 \<notin> set b \<Longrightarrow>
   (memcmp (a @ [0]) (b @ [0]) = 0 \<longleftrightarrow> a = b) \<and> (memcmp (a @ [0]) (b @ [0]) < 0 \<longleftrightarrow> a < b)"
proof (induction a arbitrary: b)
  case Nil
  then show ?case by (cases b) (auto simp: word_gt_0)
next
  case (Cons x a)
  then show ?case
  proof (cases b)
    case Nil
    then show ?thesis using Cons.prems by (auto simp: word_gt_0)
  qed (auto simp: not_less_iff_gr_or_eq)
qed

text \<open>On strings without zero bytes \<open>strcmp\<close> is the lexicographic order.\<close>

lemma strcmp_order:
  assumes "0 \<notin> set a" "0 \<notin> set b"
  shows "strcmp a b = 0 \<longleftrightarrow> a = b" "strcmp a b < 0 \<longleftrightarrow> a < b" "strcmp a b \<le> 0 \<longleftrightarrow> a \<le> b" "strcmp a b \<ge> 0 \<longleftrightarrow> b \<le> a"
  using memcmp_term[OF assms] by (auto simp: strcmp_def order_le_less not_less)

primrec node_entries :: "node \<Rightarrow> (byte list \<times> byte list) list" where
  "node_entries NULL_NODE = []"
| "node_entries (NODE l r k v) = node_entries l @ [(the k, the v)] @ node_entries r"

abbreviation node_keys :: "node \<Rightarrow> byte list set" where
  "node_keys t \<equiv> fst ` set (node_entries t)"

primrec node_ok :: "node \<Rightarrow> bool" where
  "node_ok NULL_NODE = True"
| "node_ok (NODE l r k v) \<longleftrightarrow> k \<noteq> None \<and> v \<noteq> None \<and> 0 \<notin> set (the k) \<and> node_ok l \<and> node_ok r
     \<and> (\<forall>x \<in> node_keys l. x < the k) \<and> (\<forall>x \<in> node_keys r. the k < x)"

lemma node_ok_sorted: "node_ok t \<Longrightarrow> sorted_wrt (<) (map fst (node_entries t))"
  by (induction t) (auto simp: sorted_wrt_append intro: order.strict_trans)

lemma node_ok_zero: "node_ok t \<Longrightarrow> x \<in> node_keys t \<Longrightarrow> 0 \<notin> set x"
  by (induction t) auto

lemma map_of_entries:
  assumes "node_ok (NODE l r (Some k) (Some v))"
  shows "map_of (node_entries (NODE l r (Some k) (Some v))) =
    (\<lambda>x. if x = k then Some v else if x < k then map_of (node_entries l) x else map_of (node_entries r) x)"
proof
  fix x
  have l: "map_of (node_entries l) x = None" if "\<not> x < k" using assms that by (auto simp: map_of_eq_None_iff)
  have r: "map_of (node_entries r) x = None" if "x < k" using assms that by (auto simp: map_of_eq_None_iff dest: less_asym)
  show "map_of (node_entries (NODE l r (Some k) (Some v))) x =
    (if x = k then Some v else if x < k then map_of (node_entries l) x else map_of (node_entries r) x)"
    using l r by (auto simp: map_add_def split: option.splits)
qed

lemma new_node_ok:
  assumes m: "\<And>n. m n \<noteq> None" and key: "0 \<notin> set key" and val: "c_string value = Inr v"
  shows "node_ok t \<Longrightarrow> \<exists>t'. new_node m t key value = Inr t' \<and> node_ok t' \<and> t' \<noteq> NULL_NODE
    \<and> node_keys t' = insert key (node_keys t) \<and> map_of (node_entries t') = (map_of (node_entries t))(key \<mapsto> v)"
proof (induction t)
  case NULL_NODE
  then show ?case using m key val by (auto simp: strdup_def fun_eq_iff)
next
  case (NODE l r k0 v0)
  then obtain k w where kw: "k0 = Some k" "v0 = Some w" "0 \<notin> set k" by auto
  have ok: "node_ok (NODE l r (Some k) (Some w))" using NODE.prems kw by simp
  then have lr: "node_ok l" "node_ok r" by simp_all
  note cmp = strcmp_order[OF key kw(3)]
  consider "key = k" | "key < k" | "k < key" by fastforce
  then show ?case
  proof cases
    case 1
    then have ok': "node_ok (NODE l r (Some k) (Some v))" using ok by simp
    then show ?thesis using 1 cmp kw val m map_of_entries[OF ok] map_of_entries[OF ok']
      by (auto simp: strdup_def the_str_def fun_eq_iff)
  next
    case 2
    then obtain l' where l': "new_node m l key value = Inr l'" "node_ok l'" "node_keys l' = insert key (node_keys l)"
      "map_of (node_entries l') = (map_of (node_entries l))(key \<mapsto> v)" using NODE.IH(1)[OF lr(1)] by blast
    then have ok': "node_ok (NODE l' r (Some k) (Some w))" using ok 2 by auto
    have "map_of (node_entries (NODE l' r (Some k) (Some w))) = (map_of (node_entries (NODE l r (Some k) (Some w))))(key \<mapsto> v)"
      unfolding map_of_entries[OF ok] map_of_entries[OF ok'] using l'(4) 2 by (auto simp: fun_eq_iff)
    moreover have "strcmp key k \<noteq> 0" "strcmp key k < 0" using cmp(1,2) 2 by auto
    ultimately show ?thesis using kw l' ok' by (auto simp: the_str_def simp del: node_ok.simps)
  next
    case 3
    then obtain r' where r': "new_node m r key value = Inr r'" "node_ok r'" "node_keys r' = insert key (node_keys r)"
      "map_of (node_entries r') = (map_of (node_entries r))(key \<mapsto> v)" using NODE.IH(2)[OF lr(2)] by blast
    then have ok': "node_ok (NODE l r' (Some k) (Some w))" using ok 3 by auto
    have "map_of (node_entries (NODE l r' (Some k) (Some w))) = (map_of (node_entries (NODE l r (Some k) (Some w))))(key \<mapsto> v)"
      unfolding map_of_entries[OF ok] map_of_entries[OF ok'] using r'(4) 3 by (auto simp: fun_eq_iff)
    moreover have "strcmp key k \<noteq> 0" "\<not> strcmp key k < 0" using cmp(1,2) 3 by auto
    ultimately show ?thesis using kw r' ok' by (auto simp: the_str_def simp del: node_ok.simps)
  qed
qed

text \<open>What the values of a tree expand to.\<close>

definition expands :: "allocator \<Rightarrow> 'f float_ops \<Rightarrow> byte list \<Rightarrow> node \<Rightarrow> (byte list \<Rightarrow> 'f cell list) \<Rightarrow> bool" where
  "expands m fo temp t row \<longleftrightarrow> (\<forall>(k, v) \<in> set (node_entries t). data_expand m fo temp (v @ [0]) = Inr (row v))"

abbreviation shown :: "(byte list \<Rightarrow> 'f cell list) \<Rightarrow> (byte list \<times> byte list) list \<Rightarrow> (byte list \<times> 'f cell list) list" where
  "shown row es \<equiv> map (\<lambda>(k, v). (k, row v)) es"

lemma tree_get_all_ok:
  "node_ok t \<Longrightarrow> expands m fo temp t row \<Longrightarrow> tree_get_all m fo temp t = Inr (shown row (node_entries t))"
  by (induction t) (auto simp: expands_def show_node_def the_str_def)

text \<open>The keys that a search for \<open>x\<close> meets, from the root to \<open>x\<close>.\<close>

primrec search_path :: "node \<Rightarrow> byte list \<Rightarrow> byte list list" where
  "search_path NULL_NODE x = []"
| "search_path (NODE l r k v) x =
     the k # (if x = the k then [] else if x < the k then search_path l x else search_path r x)"

lemma search_path_key: "node_ok t \<Longrightarrow> x \<in> node_keys t \<Longrightarrow> x \<in> set (search_path t x)"
  by (induction t) (auto dest: less_asym)

abbreviation on_path :: "byte list \<Rightarrow> byte list \<Rightarrow> node \<Rightarrow> byte list \<times> byte list \<Rightarrow> bool" where
  "on_path lo hi t \<equiv> \<lambda>(x, _). \<forall>y \<in> set (search_path t x). lo \<le> y \<and> y \<le> hi"

lemma filter_path:
  assumes "node_ok (NODE l r (Some k) (Some v))"
  shows "filter (on_path lo hi (NODE l r (Some k) (Some v))) (node_entries (NODE l r (Some k) (Some v))) =
    (if lo \<le> k \<and> k \<le> hi
     then filter (on_path lo hi l) (node_entries l) @ [(k, v)] @ filter (on_path lo hi r) (node_entries r) else [])"
proof (cases "lo \<le> k \<and> k \<le> hi")
  case True
  have "filter (on_path lo hi (NODE l r (Some k) (Some v))) (node_entries l) = filter (on_path lo hi l) (node_entries l)"
    using assms True by (intro filter_cong) force+
  moreover have "filter (on_path lo hi (NODE l r (Some k) (Some v))) (node_entries r) = filter (on_path lo hi r) (node_entries r)"
    using assms True by (intro filter_cong) (force dest: less_asym)+
  ultimately show ?thesis using True by simp
next
  case False
  then show ?thesis by (auto simp: filter_empty_conv)
qed

lemma tree_get_in_range_ok:
  assumes "0 \<notin> set lo" "0 \<notin> set hi"
  shows "node_ok t \<Longrightarrow> expands m fo temp t row \<Longrightarrow>
    tree_get_in_range m fo temp t lo hi = Inr (shown row (filter (on_path lo hi t) (node_entries t)))"
proof (induction t)
  case (NODE l r k0 v0)
  then obtain k v where kv: "k0 = Some k" "v0 = Some v" "0 \<notin> set k" by auto
  have ok: "node_ok (NODE l r (Some k) (Some v))" using NODE.prems(1) kv by simp
  have sub: "expands m fo temp l row" "expands m fo temp r row" "data_expand m fo temp (v @ [0]) = Inr (row v)"
    using NODE.prems(2) kv by (auto simp: expands_def)
  have "tree_get_in_range m fo temp l lo hi = Inr (shown row (filter (on_path lo hi l) (node_entries l)))"
    "tree_get_in_range m fo temp r lo hi = Inr (shown row (filter (on_path lo hi r) (node_entries r)))"
    using NODE.IH NODE.prems(1) sub by auto
  then show ?case
    unfolding kv(1,2) filter_path[OF ok]
    using sub(3) strcmp_order[OF kv(3) assms(1)] strcmp_order[OF kv(3) assms(2)]
    by (simp add: the_str_def show_node_def)
qed simp

lemma get_node_total: "node_ok t \<Longrightarrow> \<exists>p. get_node t key = Inr p"
  by (induction t) (auto simp: the_str_def)

section \<open>Properties of the store\<close>

text \<open>The position of the terminator that compacting writes after the value of the cell number \<open>k\<close>.\<close>

definition value_end :: "'f float_ops \<Rightarrow> 'f cell list \<Rightarrow> nat \<Rightarrow> nat" where
  "value_end fo cells k =
     row_length (take k cells) + 3 + length (the (c_name (cells ! k))) + length (printed fo (cells ! k))"

lemma sum_cell_size_take: "sum_list (map cell_size (take k cells)) \<le> sum_list (map cell_size cells)"
  by (metis append_take_drop_id le_add1 map_append sum_list_append)

lemma value_end_eq:
  assumes "1 + sum_list (map cell_size cells) < 2 ^ 32" "\<forall>c \<in> set cells. cell_ok fo c" "k < length cells"
  shows "value_end fo cells k = loop_end fo cells 1 k"
proof -
  have "1 + sum_list (map cell_size (take k cells)) < 2 ^ 32" using sum_cell_size_take[of k cells] assms(1) by linarith
  moreover have "cell_ok fo (cells ! k)" using assms(2,3) by simp
  ultimately show ?thesis by (simp add: value_end_def loop_end_def row_length_eq cell_head_def cell_ok_def)
qed

lemma value_end_last:
  assumes "1 + sum_list (map cell_size cells) < 2 ^ 32" "\<forall>c \<in> set cells. cell_ok fo c" "cells \<noteq> []"
    and "unat (c_val_len (last cells)) \<le> length (printed fo (last cells))"
  shows "row_length cells \<le> value_end fo cells (length cells - 1)"
proof -
  obtain cs c where c: "cells = cs @ [c]" using assms(3) by (metis append_butlast_last_id)
  then have "cell_ok fo c" using assms(2) by simp
  then show ?thesis using assms(1,4) unfolding c by (simp add: value_end_def row_length_eq cell_size_def cell_ok_def)
qed

text \<open>
  C19. When compacting a row writes past the end of the region it allocates. The length of the row counts,
  for each cell, the characters that were entered, and no terminator; what is written is the name, and
  the text printed for the value with a terminator. So the region is left exactly when the terminator of
  some value is not inside it, and otherwise compacting returns. In particular it is left whenever the
  text printed for the last value is at least as long as the one entered: for every string, and for
  integers and fractions of at most six places in their usual form. Then nothing is put into the store.
\<close>

theorem data_compact_overruns:
  assumes "malloc_ok m" "m (row_length cells) \<noteq> None" "cells \<noteq> []" "\<forall>c \<in> set cells. cell_ok fo c"
    "1 + sum_list (map cell_size cells) < 2 ^ 32"
  shows "(if \<exists>k < length cells. row_length cells \<le> value_end fo cells k
      then data_compact m fo cells = Inl OutOfBounds else \<exists>value. data_compact m fo cells = Inr value)
    \<and> (unat (c_val_len (last cells)) \<le> length (printed fo (last cells)) \<longrightarrow>
         data_compact m fo cells = Inl OutOfBounds \<and> tree_put m fo tree key cells = Inl OutOfBounds)"
proof -
  obtain buf where buf: "m (row_length cells) = Some buf" "length buf = row_length cells"
    using assms(1,2) by (auto simp: malloc_ok_def)
  have L: "row_length cells = 1 + sum_list (map cell_size cells)" "row_length cells < 2 ^ 32" using row_length_eq[OF assms(5)] assms(5) by simp_all
  have pre: "length (take 1 buf) = 1" using buf(2) L by simp
  have over: "data_compact m fo cells = Inl OutOfBounds" if k: "k < length cells" "row_length cells \<le> value_end fo cells k" for k
  proof -
    have "compact_loop fo (row_length cells) cells 1 0 buf = Inl OutOfBounds"
      by (rule compact_loop_overruns[OF assms(4) k(1) _ pre refl L(1,2)]) (use k value_end_eq[OF assms(5,4) k(1)] buf(2) in auto)
    then show ?thesis using buf(1) assms(3) by (simp add: data_compact_def)
  qed
  have ret: "\<exists>value. data_compact m fo cells = Inr value" if "\<not> (\<exists>k < length cells. row_length cells \<le> value_end fo cells k)"
  proof -
    have "\<forall>k < length cells. loop_end fo cells 1 k < length buf"
      using that value_end_eq[OF assms(5,4)] buf(2) by (auto simp: not_le)
    from compact_loop_returns[OF assms(4) this refl pre L(1,2), of 0] buf(2)
    obtain buf' cols where "compact_loop fo (row_length cells) cells 1 0 buf = Inr (buf', cols)" "length buf' = length buf" by auto
    then show ?thesis using buf assms(3) L(1) by (auto simp: data_compact_def)
  qed
  have "\<exists>k < length cells. row_length cells \<le> value_end fo cells k" if "unat (c_val_len (last cells)) \<le> length (printed fo (last cells))"
    using value_end_last[OF assms(5,4,3) that] assms(3) by (intro exI[of _ "length cells - 1"]) auto
  then show ?thesis using over ret by (auto simp: tree_put_def)
qed


text \<open>
  C21. Inserting into the tree keeps it a search tree and updates the map it stands for, replacing the
  value of a key that is there; \<open>tree_get_all\<close> then shows every key once, in ascending order.
\<close>

theorem new_node_updates_map:
  assumes "\<And>n. m n \<noteq> None" "node_ok t" "0 \<notin> set key" "c_string value = Inr v"
    and "expands m fo temp t row" "data_expand m fo temp (v @ [0]) = Inr (row v)"
  shows "\<exists>t'. new_node m t key value = Inr t' \<and> node_ok t' \<and> map_of (node_entries t') = (map_of (node_entries t))(key \<mapsto> v)
    \<and> sorted_wrt (<) (map fst (node_entries t')) \<and> tree_get_all m fo temp t' = Inr (shown row (node_entries t'))"
proof -
  obtain t' where t': "new_node m t key value = Inr t'" "node_ok t'" "map_of (node_entries t') = (map_of (node_entries t))(key \<mapsto> v)"
    using new_node_ok[of m key "value" v t, OF assms(1,3,4,2)] by blast
  have sorted: "sorted_wrt (<) (map fst (node_entries t'))" using node_ok_sorted[OF t'(2)] .
  then have dist: "distinct (map fst (node_entries t'))" using strict_sorted_iff by blast
  have "data_expand m fo temp (w @ [0]) = Inr (row w)" if e: "(k, w) \<in> set (node_entries t')" for k w
  proof -
    have "((map_of (node_entries t))(key \<mapsto> v)) k = Some w" using map_of_is_SomeI[OF dist e] t'(3) by simp
    then show ?thesis using assms(5,6) by (auto simp: expands_def split: if_splits dest: map_of_SomeD)
  qed
  then have "expands m fo temp t' row" by (auto simp: expands_def)
  then show ?thesis using t' sorted tree_get_all_ok[OF t'(2)] by blast
qed

text \<open>
  C33. A query for a range shows, in ascending order, exactly the entries for which every key on the path
  from the root to them lies in the range. These keys lie in the range themselves, but the query is not
  complete: a key in the range is not shown when it is below a key outside of it.
\<close>

theorem tree_get_in_range_cut_off:
  assumes "node_ok t" "expands m fo temp t row" "0 \<notin> set lo" "0 \<notin> set hi"
  shows "let es = filter (\<lambda>(x, _). \<forall>y \<in> set (search_path t x). lo \<le> y \<and> y \<le> hi) (node_entries t) in
    tree_get_in_range m fo temp t lo hi = Inr (shown row es) \<and> sorted_wrt (<) (map fst es)
    \<and> (\<forall>(x, w) \<in> set es. lo \<le> x \<and> x \<le> hi)"
proof -
  let ?es = "filter (on_path lo hi t) (node_entries t)"
  have "sorted_wrt (<) (map fst ?es)"
    using node_ok_sorted[OF assms(1)] by (simp add: sorted_wrt_map sorted_wrt_filter)
  moreover have "lo \<le> x \<and> x \<le> hi" if "(x, w) \<in> set ?es" for x w
    using that search_path_key[OF assms(1), of x] by force
  then have "\<forall>(x, w) \<in> set ?es. lo \<le> x \<and> x \<le> hi" by blast
  ultimately show ?thesis using tree_get_in_range_ok[OF assms(3,4,1,2)] unfolding Let_def by (intro conjI)
qed

text \<open>
  C34. A search finds only the key at the root. For every other key, stored or not, \<open>tree_get\<close> uses the
  result of a call that ended without a value, which is undefined.
\<close>

theorem tree_get_finds_only_root:
  assumes "node_ok (NODE l r (Some k) (Some v))" "t_root tree = NODE l r (Some k) (Some v)" "0 \<notin> set key"
    and "data_expand m fo temp (v @ [0]) = Inr row"
  shows "tree_get m fo temp tree key = (if key = k then Inr (1, Some (key, row)) else Inl UndefBehaviour)"
proof -
  have k: "0 \<notin> set k" "node_ok l" "node_ok r" using assms(1) by simp_all
  obtain p q where "get_node l key = Inr p" "get_node r key = Inr q" using get_node_total[OF k(2)] get_node_total[OF k(3)] by metis
  then show ?thesis using assms(2,4) strcmp_order[OF assms(3) k(1)] by (auto simp: tree_get_def the_str_def)
qed

section \<open>Examples\<close>

text \<open>
  Numbers of halves, printed with six places; an allocator with room to spare; the first row of the test
  data; a row with the number \<open>1.5\<close> and one with the integer \<open>007\<close>; and the tree of the keys 15, 13 and 17
  with empty rows.
\<close>

definition example_ops :: "nat float_ops" where
  "example_ops = \<lparr>fmt_f = (\<lambda>h. dec_nat (h div 2) @ (if even h then bytes_of ''.000000'' else bytes_of ''.500000'')),
     atof = (\<lambda>t. 2 * digits_val (takeWhile isdigit t) + (if prefix (bytes_of ''.5'') (dropWhile isdigit t) then 1 else 0))\<rparr>"

definition roomy :: allocator where
  "roomy n = Some (replicate (n + 16) 0)"

definition example_row :: "nat cell list" where
  "example_row = [\<lparr>c_dt = DT_STRING, c_name_len = 6, c_name = Some [66, 82, 65, 78, 67, 72], c_val_len = 3, c_val = SVal (Some [79, 83, 83])\<rparr>,
     \<lparr>c_dt = DT_STRING, c_name_len = 4, c_name = Some [78, 65, 77, 69], c_val_len = 4, c_val = SVal (Some [65, 74, 65, 89])\<rparr>,
     \<lparr>c_dt = DT_INT, c_name_len = 4, c_name = Some [82, 79, 76, 76], c_val_len = 2, c_val = IVal 89\<rparr>]"

definition float_row :: "nat cell list" where
  "float_row = [\<lparr>c_dt = DT_FLOAT, c_name_len = 1, c_name = Some [80], c_val_len = 3, c_val = FVal 3\<rparr>,
     \<lparr>c_dt = DT_INT, c_name_len = 1, c_name = Some [81], c_val_len = 2, c_val = IVal (- 7)\<rparr>]"

definition padded_row :: "nat cell list" where
  "padded_row = [\<lparr>c_dt = DT_INT, c_name_len = 1, c_name = Some [78], c_val_len = 3, c_val = IVal 7\<rparr>]"

definition example_node :: node where
  "example_node = NODE (NODE NULL_NODE NULL_NODE (Some [49, 51]) (Some [])) (NODE NULL_NODE NULL_NODE (Some [49, 55]) (Some []))
     (Some [49, 53]) (Some [])"

lemma some_memory: "calloc_alloc n \<noteq> None" "roomy n \<noteq> None"
  by (simp_all add: calloc_alloc_def roomy_def)

lemma small_decimals: "dec_int 89 = [56, 57]" "dec_int (- 7) = [45, 55]" "dec_int 7 = [55]" "dec_nat 1 = [49]"
  by (simp_all add: dec_int_def dec_nat.simps)

lemmas input_simps = input_cell_def strdup_def some_memory atoi_def isspace_def isdigit_def digits_val_def Let_def

lemma example_row_input: "row_input calloc_alloc example_ops 0 = Inr example_row"
  by (simp add: row_input_def input_simps example_row_def dtval_def cellnames_def branchval_def nameval_def rollval_def)

lemma padded_row_input: "input_cell calloc_alloc example_ops [73] [78] [48, 48, 55] = Inr (hd padded_row)"
  by (simp add: input_simps padded_row_def)

lemma float_row_entered:
  "list_all2 (entered roomy example_ops) [([70], [80], [49, 46, 53]), ([73], [81], [45, 55])] float_row"
proof -
  have "input_cell roomy example_ops [70] [80] [49, 46, 53] = Inr (float_row ! 0)"
    "input_cell roomy example_ops [73] [81] [45, 55] = Inr (float_row ! 1)"
    by (simp_all add: input_simps float_row_def example_ops_def bytes_of_def)
  moreover have "cell_text example_ops (float_row ! 0) = Inr (Some ([49, 46, 53] @ [48, 48, 48, 48, 48]))"
    "cell_text example_ops (float_row ! 1) = Inr (Some ([45, 55] @ []))"
    using small_decimals by (simp_all add: cell_text_def float_row_def example_ops_def bytes_of_def)
  ultimately show ?thesis by (auto simp: entered_def float_row_def)
qed

lemma empty_row: "data_expand m fo temp [0] = Inr []"
  by (simp add: data_expand_def)

lemma example_node_ok: "node_ok example_node" "expands m fo temp example_node (\<lambda>_. [])"
  by (simp_all add: example_node_def expands_def empty_row)

theorem data_compact_overruns_witness:
  "bindE (row_input calloc_alloc example_ops 0) (data_compact calloc_alloc example_ops) = Inl OutOfBounds
   \<and> (\<exists>value. data_compact calloc_alloc example_ops padded_row = Inr value)"
proof
  have "\<forall>c \<in> set example_row. cell_ok example_ops c" "1 + sum_list (map cell_size example_row) < 2 ^ 32" "example_row \<noteq> []"
    "unat (c_val_len (last example_row)) \<le> length (printed example_ops (last example_row))"
    using small_decimals by (simp_all add: example_row_def cell_ok_def cell_text_def the_str_def cell_size_def printed_def)
  then show "bindE (row_input calloc_alloc example_ops 0) (data_compact calloc_alloc example_ops) = Inl OutOfBounds"
    using data_compact_overruns[OF calloc_alloc_ok some_memory(1), of example_row example_ops] by (simp add: example_row_input)
  have "\<forall>c \<in> set padded_row. cell_ok example_ops c" "1 + sum_list (map cell_size padded_row) < 2 ^ 32" "padded_row \<noteq> []"
    "\<not> (\<exists>k < length padded_row. row_length padded_row \<le> value_end example_ops padded_row k)"
    using small_decimals by (simp_all add: padded_row_def cell_ok_def cell_text_def cell_size_def printed_def value_end_def row_length_def)
  then show "\<exists>value. data_compact calloc_alloc example_ops padded_row = Inr value"
    using data_compact_overruns[OF calloc_alloc_ok some_memory(1), of padded_row example_ops] by simp
qed


theorem new_node_updates_map_witness:
  "\<exists>t'. new_node calloc_alloc example_node [49, 54] [0] = Inr t' \<and> map_of (node_entries t') [49, 54] = Some []
     \<and> tree_get_all calloc_alloc example_ops [] t' = Inr (shown (\<lambda>_. []) (node_entries t'))"
proof -
  have "c_string [0] = Inr []" by (simp add: c_string_def)
  then show ?thesis
    using new_node_updates_map[of calloc_alloc example_node "[49, 54]" "[0]" "[]" example_ops "[]" "\<lambda>_. []"]
      some_memory(1) example_node_ok(1) example_node_ok(2)[of calloc_alloc example_ops "[]"] empty_row[of calloc_alloc example_ops "[]"] by auto
qed

theorem tree_get_in_range_cut_off_witness:
  "([49, 55], []) \<in> set (node_entries example_node)
   \<and> tree_get_in_range calloc_alloc example_ops [] example_node [49, 54] [49, 56] = Inr []
   \<and> tree_get_in_range calloc_alloc example_ops [] example_node [49, 52] [49, 56] = Inr [([49, 53], []), ([49, 55], [])]"
  using tree_get_in_range_cut_off[OF example_node_ok, of "[49, 54]" "[49, 56]" calloc_alloc example_ops "[]"]
    tree_get_in_range_cut_off[OF example_node_ok, of "[49, 52]" "[49, 56]" calloc_alloc example_ops "[]"]
  by (simp add: example_node_def Let_def)

theorem tree_get_finds_only_root_witness:
  "([49, 55], []) \<in> set (node_entries example_node)
   \<and> tree_get calloc_alloc example_ops [] \<lparr>t_size = 3, t_root = example_node\<rparr> [49, 55] = Inl UndefBehaviour"
  using tree_get_finds_only_root[OF example_node_ok(1)[unfolded example_node_def],
      of "\<lparr>t_size = 3, t_root = example_node\<rparr>" "[49, 55]" calloc_alloc example_ops "[]" "[]"] empty_row[of calloc_alloc example_ops "[]"]
  by (simp add: example_node_def)

end
