(* ===== verification/Spec2Isabelle.thy ===== *)
theory Spec2Isabelle
  imports SdsTextCorrect Util Glob Intset DictScan DictIter Slowlog ListpackCorrect SetCommandsCorrect PocketDB
begin

text \<open>
  Verification of data structures of the repository \<open>C-Programs\<close>. The repository holds a copy of
  Redis (\<open>src/redis\<close>) beside small programs of its author (\<open>src/pocketDB\<close>, \<open>src/my-sqlite3\<close>) and
  exercises of textbooks. The development models the data structures that the Redis server is built
  on, from the sources under \<open>src/redis/src\<close>, and proves that they do what their clients rely on; and it
  models the store of pocketDB.

  \<^bold>\<open>The parts and how they interact.\<close> Dynamic strings (\<open>sds.c\<close>) carry every key and value. Integers are
  printed and parsed by \<open>util.c\<close>; a string that is the canonical representation of an integer is
  stored as one in an integer set (\<open>intset.c\<close>) or a listpack (\<open>listpack.c\<close>). The hash table (\<open>dict.c\<close>)
  holds the key space, and sets that are not integer sets. Doubly linked lists (\<open>adlist.c\<close>) hold the
  slow log (\<open>slowlog.c\<close>), among others. The values of the set type (\<open>t_set.c\<close>) are integer sets or hash
  tables, and the set commands work on them through the key space. Patterns of keys are matched by \<open>stringmatchlen\<close> of \<open>util.c\<close>, and
  the packed formats are little-endian through \<open>endianconv.c\<close>.

  \<^bold>\<open>Conventions.\<close> \<open>Prelude\<close> fixes the vocabulary: a byte is an \<open>8 word\<close>, a region of memory is a list of
  bytes, a pointer into a region is an offset. Every function that can fail returns \<open>cerr + 'a\<close>: a
  failed allocation, the use of a NULL pointer, an access outside a region, a failed assertion and an
  operation the C standard leaves undefined are values, not unspecified terms. The allocator is an
  argument of the operations; \<open>malloc_ok\<close> says that a region has the requested size. \<open>yields m r P\<close> is
  total correctness up to allocation failure: \<open>r\<close> is a result that satisfies \<open>P\<close>, or the allocator
  refused a request. Unsigned arithmetic that can wrap is written with its modulus (\<open>u64\<close>, \<open>to_size\<close>,
  \<open>u32sub\<close>, \<open>mod 2 ^ 32\<close>) or on words. Signed arithmetic that can overflow is the error
  \<open>UndefBehaviour\<close>, or excluded by the bounds below; the sums of \<open>dictFingerprint\<close> wrap, and the identifier
  of the slow log is not bounded.

  \<^bold>\<open>Theories.\<close>
  \<^item> \<open>Prelude\<close>, \<open>Decimal\<close>: the vocabulary, the little-endian codec, C strings, decimal notation.
  \<^item> \<open>Sds\<close>: headers of five sizes, allocation, growth, trimming, ranges and comparison (\<open>sds.c\<close>,
    \<open>sds.h\<close>). \<open>sds_inv\<close> is the invariant, \<open>sds_val\<close> the string. Every operation preserves the invariant
    and computes the list operation it stands for; \<open>sdsIncrLen\<close> on the smallest header and \<open>sdsrange\<close> up to
    \<open>INT_MAX\<close> do not, and the cases are stated exactly.
  \<^item> \<open>SdsText\<close>, \<open>SdsTextCorrect\<close>: printing of numbers, \<open>sdscatfmt\<close>, quoting (\<open>sdscatrepr\<close>) and its inverse
    \<open>sdssplitargs\<close>, splitting and joining, mapping of characters.
  \<^item> \<open>Util\<close>, \<open>Glob\<close>: \<open>ll2string\<close>, \<open>string2ll\<close>, \<open>memtoll\<close> and glob matching (\<open>util.c\<close>). The parser accepts
    exactly the canonical representations; the matcher is equivalent to a matcher on parsed patterns,
    except on an empty string with a pattern that starts with a class, where it may read too far.
  \<^item> \<open>Endian\<close>, \<open>SetSpec\<close>, \<open>Intset\<close>: byte order and the integer set. \<open>finite_set_impl\<close> is the contract of a
    set; the integer set is an interpretation of it.
  \<^item> \<open>MapSpec\<close>, \<open>Dict\<close>, \<open>DictCorrect\<close>: the hash table with two tables and incremental rehashing.
    \<open>dict_inv\<close> is the invariant, \<open>dict_map\<close> the finite map; \<open>finite_map_impl\<close> is the contract, and its
    interpretation gives the refinement for every sequence of requests.
  \<^item> \<open>DictScan\<close>: the cursor of \<open>dictScan\<close> on reversed bits. A complete scan is an inductive relation over
    the states at the calls; it ends, and returns every key that stays in the table unless the table
    shrinks during the scan, where a concrete run shows a key that is missed.
  \<^item> \<open>DictIter\<close>: iterators with their fingerprint, release, random keys and sampling.
  \<^item> \<open>Adlist\<close>: the linked list in an explicit heap of nodes; \<open>list_rep\<close> relates a heap and a list record
    to a sequence of values. The result of \<open>listDup\<close> includes the values it frees when it fails.
  \<^item> \<open>LogSpec\<close>, \<open>Slowlog\<close>: the contract of a bounded log, and the slow log as a client of the list.
  \<^item> \<open>Listpack\<close>, \<open>ListpackCodec\<close>, \<open>ListpackCorrect\<close>: the listpack as bytes. \<open>lp_rep lp es\<close> says that a
    region holds the strings \<open>es\<close>. Reading returns what was stored, walking and seeking reach every
    element from both ends, inserting, replacing and deleting edit the sequence.
  \<^item> \<open>SetType\<close>: the set values of \<open>t_set.c\<close>, with their two encodings and the conversion. \<open>set_inv\<close> is the
    invariant, \<open>set_members\<close> the set of strings; the type is another interpretation of \<open>finite_set_impl\<close>.
  \<^item> \<open>SetCommands\<close>, \<open>SetCommandsCorrect\<close>: the commands of \<open>t_set.c\<close> on a key space. \<open>srv_inv\<close> is the
    invariant, \<open>db_abs\<close> maps a key to its set. SADD, SREM and SMOVE update the map; SINTER, SUNION and
    SDIFF compute the intersection, the union and the difference and reply with it or store it. The
    rule \<open>set_iter_yields\<close> for loops over a set is shared by their proofs.
  \<^item> \<open>PocketDB\<close>: rows of cells and their compact form (\<open>input.c\<close>, \<open>output.c\<close>) and the search tree (\<open>treemap.c\<close>)
    of pocketDB, a program apart from Redis. \<open>entered\<close> describes the cells that survive a round trip
    in a region with room for them, \<open>node_ok\<close> is the order of the tree. Three theorems show where the code
    goes wrong: when the compact form overruns its buffer, which keys a range query misses, and that a
    search works only for the key at the root.

  \<^bold>\<open>Bounds and fuel.\<close> Loops are structural or have a termination proof with these exceptions, where a
  bound is part of the definition. \<open>intsetSearch_loop\<close> checks that the middle lies between the limits,
  \<open>nextPower_loop\<close> stops at zero; on the values the code computes both always go on, and the lemmas on
  the results hold without a condition on them. \<open>scan_expand\<close> runs at most as often as the larger table has
  buckets, and \<open>iterate\<close> and \<open>set_foreach\<close> at most once more than there are entries; the lemmas show that
  this is enough.
  \<open>dictRehash\<close> is called with \<open>n * 10\<close> in the range of \<open>int\<close>.
  The dictionary is limited to \<open>2 ^ 62\<close> keys, the integer set to \<open>2 ^ 29\<close> values and a listpack to
  \<open>2 ^ 32 - 1\<close> bytes, as its header demands.

  \<^bold>\<open>Not modelled.\<close> The commands of the server other than those on sets named above (SPOP, SRANDMEMBER
  and SSCAN included), expiration times of keys, networking and the event loop, persistence,
  replication and scripting; the bundled libraries under \<open>src/redis/deps\<close>; conversions of floating
  point numbers; formatting by \<open>printf\<close> formats other than those of \<open>sdscatfmt\<close>. The exercises under
  \<open>src/apue\<close> are wrappers of system calls, \<open>src/my-sqlite3\<close> is a prompt without a store. Reference counts of objects are not modelled. Strings of
  \<open>2 ^ 31\<close> bytes or more, whose lengths \<open>dictSdsKeyCompare\<close> truncates, are excluded as members of sets.
\<close>

end
